(* ===== verification/Calendar.thy ===== *)
theory Calendar
  imports Prelude
begin

text \<open>
  The conversion of a day number to a civil date in \<open>walleye-node/src/cron.rs\<close>, and the proof
  that it is the Gregorian calendar: day 0 is the first of January 1970 and the date of each
  day is the successor of the date of the day before.
\<close>

section \<open>Definitions\<close>

text \<open>Hinnant's conversion. \<open>div_euclid\<close> and \<open>rem_euclid\<close> by a positive divisor are \<open>div\<close> and
  \<open>mod\<close>; the operands of the truncating divisions are not negative, so these are \<open>div\<close> too.\<close>

definition civil_from_days :: "int \<Rightarrow> int \<times> nat \<times> nat" where
  "civil_from_days days =
     (let z = days + 719468;
          era = z div 146097;
          doe = z mod 146097;
          yoe = (doe - doe div 1460 + doe div 36524 - doe div 146096) div 365;
          year = yoe + era * 400;
          doy = doe - (365 * yoe + yoe div 4 - yoe div 100);
          mp = (5 * doy + 2) div 153;
          d = nat (doy - (153 * mp + 2) div 5 + 1);
          m = nat (if mp < 10 then mp + 3 else mp - 9)
      in (if m \<le> 2 then year + 1 else year, m, d))"

text \<open>The Gregorian calendar as a successor function on dates.\<close>

definition leap :: "int \<Rightarrow> bool" where
  "leap y = (y mod 4 = 0 \<and> (y mod 100 \<noteq> 0 \<or> y mod 400 = 0))"

definition month_days :: "int \<Rightarrow> nat \<Rightarrow> nat" where
  "month_days y m =
     (if m = 2 then (if leap y then 29 else 28) else if m \<in> {4, 6, 9, 11} then 30 else 31)"

fun next_day :: "int \<times> nat \<times> nat \<Rightarrow> int \<times> nat \<times> nat" where
  "next_day (y, m, d) =
     (if d < month_days y m then (y, m, d + 1)
      else if m < 12 then (y, m + 1, 1)
      else (y + 1, 1, 1))"

text \<open>The steps of the conversion: year of the era (from March), first day of a year, month
  and day of a day of the year.\<close>

definition yoe_of :: "int \<Rightarrow> int" where
  "yoe_of doe = (doe - doe div 1460 + doe div 36524 - doe div 146096) div 365"

definition year_start :: "int \<Rightarrow> int" where
  "year_start y = 365 * y + y div 4 - y div 100 + y div 400"

definition month_day :: "int \<Rightarrow> nat \<times> nat" where
  "month_day doy =
     (let mp = (5 * doy + 2) div 153
      in (nat (if mp < 10 then mp + 3 else mp - 9), nat (doy - (153 * mp + 2) div 5 + 1)))"

definition ymd :: "int \<Rightarrow> int \<Rightarrow> int \<times> nat \<times> nat" where
  "ymd y doy = (let (m, d) = month_day doy in (if m \<le> 2 then y + 1 else y, m, d))"

section \<open>The calendar\<close>

lemma div_plus_1:
  assumes "0 < (n::int)"
  shows "(a + 1) div n = (if n dvd a + 1 then a div n + 1 else a div n)"
proof (cases "n dvd a + 1")
  case True
  then obtain k where k: "a + 1 = n * k" by (elim dvdE)
  then have "a = n * (k - 1) + (n - 1)" by (simp add: algebra_simps)
  then have "a div n = k - 1" using assms by (intro int_div_pos_eq [of _ _ _ "n - 1"]) auto
  with True k assms show ?thesis by simp
next
  case False
  have split: "a + 1 = n * (a div n) + (a mod n + 1)" by simp
  have "a mod n + 1 \<noteq> n"
  proof
    assume "a mod n + 1 = n"
    with split have "a + 1 = n * (a div n) + n" by (simp only:)
    then have "a + 1 = n * (a div n + 1)" by (simp only: distrib_left mult_1_right)
    with False show False by (metis dvd_triv_left)
  qed
  then have "a mod n + 1 < n" using pos_mod_bound [OF assms, of a] by linarith
  then have "(a + 1) div n = a div n"
    using assms split by (intro int_div_pos_eq [of _ _ _ "a mod n + 1"]) (auto simp: add_nonneg_pos)
  with False show ?thesis by simp
qed

lemma yoe_of_mono: "a \<le> b \<Longrightarrow> yoe_of a \<le> yoe_of b"
proof -
  assume "a \<le> b"
  let ?f = "\<lambda>a::int. a - a div 1460 + a div 36524 - a div 146096"
  have step: "?f a \<le> ?f (a + 1)" for a
  proof -
    have "146096 dvd a + 1 \<Longrightarrow> 36524 dvd a + 1"
      by (rule dvd_trans [of _ 146096]) simp_all
    then show ?thesis by (simp add: div_plus_1)
  qed
  have "?f a \<le> ?f b"
    using \<open>a \<le> b\<close>
  proof (induction rule: int_ge_induct)
    case (step i)
    with \<open>\<And>a. ?f a \<le> ?f (a + 1)\<close> show ?case by (meson order_trans)
  qed simp
  then show ?thesis unfolding yoe_of_def by (intro zdiv_mono1) auto
qed

lemma year_ends_table:
  "list_all (\<lambda>y. yoe_of (year_start y) = y \<and> yoe_of (year_start (y + 1) - 1) = y) [0..399]"
  by code_simp

lemma year_length: "year_start (y + 1) = year_start y + (if leap (y + 1) then 366 else 365)"
proof -
  have "400 dvd y + 1 \<Longrightarrow> 100 dvd y + 1" "100 dvd y + 1 \<Longrightarrow> 4 dvd y + 1"
    by (rule dvd_trans [of _ 400]; simp) (rule dvd_trans [of _ 100]; simp)
  then show ?thesis
    by (simp add: year_start_def leap_def div_plus_1 flip: dvd_eq_mod_eq_0)
qed

lemma year_start_era: "year_start (y + e * 400) = year_start y + e * 146097"
proof -
  have "(y + e * 400) div 4 = y div 4 + e * 100" "(y + e * 400) div 100 = y div 100 + e * 4"
    "(y + e * 400) div 400 = y div 400 + e"
    by (simp_all add: div_plus_div_distrib_dvd_right)
  then show ?thesis by (simp add: year_start_def algebra_simps)
qed

lemma year_of_day:
  assumes "0 \<le> z" "z < 146097"
  obtains y where "0 \<le> y" "y \<le> 399" "year_start y \<le> z" "z < year_start (y + 1)"
proof -
  have "0 \<le> n \<Longrightarrow> n \<le> 400 \<Longrightarrow> z < year_start n \<Longrightarrow>
      \<exists>y. 0 \<le> y \<and> y < n \<and> year_start y \<le> z \<and> z < year_start (y + 1)" for n
  proof (induction n rule: int_ge_induct [of 0])
    case base
    then show ?case using assms by (simp add: year_start_def)
  next
    case (step n)
    then show ?case
      by (cases "z < year_start n") (fastforce, force)
  qed
  from this [of 400] show ?thesis using assms that by (force simp: year_start_def)
qed

lemma yoe_of_eq:
  assumes "0 \<le> y" "y \<le> 399" "year_start y \<le> z" "z < year_start (y + 1)"
  shows "yoe_of z = y"
proof -
  have "yoe_of (year_start y) = y" "yoe_of (year_start (y + 1) - 1) = y"
    using year_ends_table assms(1,2) by (auto simp: list_all_iff)
  then show ?thesis
    using yoe_of_mono [of "year_start y" z] yoe_of_mono [of z "year_start (y + 1) - 1"] assms(3,4)
    by simp
qed

lemma civil_from_days_steps:
  "civil_from_days days =
     (let z = days + 719468; doe = z mod 146097; y = yoe_of doe
      in ymd (y + z div 146097 * 400) (doe - (365 * y + y div 4 - y div 100)))"
  unfolding civil_from_days_def ymd_def month_day_def yoe_of_def Let_def prod.case by (rule refl)

lemma civil_from_days_ymd:
  obtains y where "year_start y \<le> days + 719468" "days + 719468 < year_start (y + 1)"
    "civil_from_days days = ymd y (days + 719468 - year_start y)"
proof -
  define z where "z = days + 719468"
  define e where "e = z div 146097"
  have z: "z = e * 146097 + z mod 146097" by (simp add: e_def)
  obtain y where y: "0 \<le> y" "y \<le> 399" "year_start y \<le> z mod 146097"
      "z mod 146097 < year_start (y + 1)"
    by (rule year_of_day [of "z mod 146097"]) auto
  have "yoe_of (z mod 146097) = y" using y by (rule yoe_of_eq)
  moreover have "365 * y + y div 4 - y div 100 = year_start y"
    using y(1,2) by (simp add: year_start_def)
  ultimately have "civil_from_days days = ymd (y + e * 400) (z mod 146097 - year_start y)"
    unfolding civil_from_days_steps Let_def z_def [symmetric] e_def [symmetric] by simp
  moreover have "year_start (y + e * 400) = year_start y + e * 146097"
      "year_start (y + e * 400 + 1) = year_start (y + 1) + e * 146097"
    using year_start_era [of y e] year_start_era [of "y + 1" e] by (simp_all add: algebra_simps)
  ultimately show ?thesis
    using that [of "y + e * 400"] y z unfolding z_def [symmetric]
    by (metis add.commute add_le_cancel_left add_less_cancel_left add_diff_cancel_left)
qed

lemma year_start_mono: "a \<le> b \<Longrightarrow> year_start a \<le> year_start b"
proof (induction rule: int_ge_induct)
  case (step i)
  then show ?case by (simp add: year_length)
qed simp

lemma year_unique:
  assumes "year_start y \<le> z" "z < year_start (y + 1)" "year_start y' \<le> z" "z < year_start (y' + 1)"
  shows "y = y'"
  using assms year_start_mono [of "y + 1" y'] year_start_mono [of "y' + 1" y] by linarith

lemma month_day_table:
  "list_all (\<lambda>doy. let (m, d) = month_day doy
     in month_day (doy + 1) =
          (if d < month_days 1 m then (m, d + 1) else if m < 12 then (m + 1, 1) else (1, 1)) \<and>
        (m = 2 \<longrightarrow> d < 28) \<and> 1 \<le> m \<and> m \<le> 12) [0..363]"
  by code_simp

lemma month_day_ends: "month_day 0 = (3, 1)" "month_day 364 = (2, 28)" "month_day 365 = (2, 29)"
  by code_simp+

lemma next_day_in_year:
  assumes "0 \<le> doy" "doy < 364"
  shows "next_day (ymd y doy) = ymd y (doy + 1)"
proof -
  obtain m d where md: "month_day doy = (m, d)" by fastforce
  have "doy \<in> set [0..363]" using assms by simp
  note inst = bspec [OF month_day_table [unfolded list_all_iff] this]
  have t: "month_day (doy + 1) =
      (if d < month_days 1 m then (m, d + 1) else if m < 12 then (m + 1, 1) else (1, 1))"
      "m = 2 \<longrightarrow> d < 28" "1 \<le> m" "m \<le> 12"
    using inst unfolding md by simp_all
  have "month_days y' m = month_days 1 m \<or> m = 2" for y' by (simp add: month_days_def)
  then show ?thesis using t by (auto simp: ymd_def md month_days_def)
qed

lemma next_day_ymd:
  assumes "year_start y \<le> z" "z < year_start (y + 1)"
  shows "next_day (ymd y (z - year_start y)) =
    (if z + 1 < year_start (y + 1) then ymd y (z + 1 - year_start y) else ymd (y + 1) 0)"
proof -
  define doy where "doy = z - year_start y"
  have doy: "0 \<le> doy" "doy < (if leap (y + 1) then 366 else 365)"
    using assms year_length [of y] by (auto simp: doy_def)
  consider "doy < 364" | "doy = 364" | "doy = 365" "leap (y + 1)" using doy by (fastforce split: if_splits)
  then show ?thesis
  proof cases
    case 1
    then show ?thesis using next_day_in_year [of doy y] doy year_length [of y]
      by (auto simp: doy_def algebra_simps split: if_splits)
  next
    case 2
    then have "z = year_start y + 364" by (simp add: doy_def)
    then show ?thesis
      using year_length [of y] by (simp add: ymd_def month_day_ends month_days_def)
  next
    case 3
    then have "z = year_start y + 365" by (simp add: doy_def)
    then show ?thesis
      using year_length [of y] 3 by (simp add: ymd_def month_day_ends month_days_def)
  qed
qed

lemma civil_from_days_Suc: "civil_from_days (d + 1) = next_day (civil_from_days d)"
proof -
  obtain y where y: "year_start y \<le> d + 719468" "d + 719468 < year_start (y + 1)"
    and c: "civil_from_days d = ymd y (d + 719468 - year_start y)"
    by (rule civil_from_days_ymd)
  obtain y' where y': "year_start y' \<le> d + 1 + 719468" "d + 1 + 719468 < year_start (y' + 1)"
    and c': "civil_from_days (d + 1) = ymd y' (d + 1 + 719468 - year_start y')"
    by (rule civil_from_days_ymd)
  note nd = next_day_ymd [OF y]
  show ?thesis
  proof (cases "d + 719468 + 1 < year_start (y + 1)")
    case True
    then have "y' = y" using y y' by (intro year_unique [of _ "d + 1 + 719468"]) auto
    with True nd c c' show ?thesis by (simp add: algebra_simps)
  next
    case False
    then have e: "d + 1 + 719468 = year_start (y + 1)" using y by simp
    then have "y' = y + 1"
      using y' year_length [of "y + 1"] by (intro year_unique [of _ "d + 1 + 719468"]) auto
    with False nd c c' e show ?thesis by simp
  qed
qed

lemma civil_from_days_0: "civil_from_days 0 = (1970, 1, 1)"
  by code_simp

lemma feb29_year:
  assumes "snd (civil_from_days d) = (2, 29)"
  obtains y where "leap (y + 1)" "d + 719468 = year_start y + 365"
proof -
  obtain y where y: "year_start y \<le> d + 719468" "d + 719468 < year_start (y + 1)"
    and c: "civil_from_days d = ymd y (d + 719468 - year_start y)"
    by (rule civil_from_days_ymd)
  define doy where "doy = d + 719468 - year_start y"
  have md: "month_day doy = (2, 29)"
    using assms c by (auto simp: ymd_def doy_def [symmetric] split: prod.splits)
  have doy: "0 \<le> doy" "doy < (if leap (y + 1) then 366 else 365)"
    using y year_length [of y] by (auto simp: doy_def)
  have "\<not> doy < 364"
  proof
    assume "doy < 364"
    then have "doy \<in> set [0..363]" using doy by simp
    from bspec [OF month_day_table [unfolded list_all_iff] this] show False unfolding md by simp
  qed
  moreover have "doy \<noteq> 364" using md month_day_ends by auto
  ultimately have "leap (y + 1)" "doy = 365" using doy by (auto split: if_splits)
  with that show ?thesis by (simp add: doy_def)
qed

lemma no_feb29:
  assumes "46080 < d" "d < 49001"
  shows "snd (civil_from_days d) \<noteq> (2, 29)"
proof
  assume "snd (civil_from_days d) = (2, 29)"
  then obtain y where y: "leap (y + 1)" "d + 719468 = year_start y + 365" by (rule feb29_year)
  have "\<not> y \<le> 2095"
    using year_start_mono [of y 2095] y(2) assms by (auto simp: year_start_def)
  moreover have "\<not> 2103 \<le> y"
    using year_start_mono [of 2103 y] y(2) assms by (auto simp: year_start_def)
  ultimately have "y \<in> {2096, 2097, 2098, 2099, 2100, 2101, 2102}" by auto
  with y(1) show False by (auto simp: leap_def)
qed

section \<open>Properties\<close>

text \<open>C25: The conversion of a day number to a date is the Gregorian calendar, for every day before and
  after the epoch: day 0 is 1970-01-01, and the date of a day is the successor of the date of
  the day before.\<close>

theorem civil_from_days_gregorian:
  "civil_from_days 0 = (1970, 1, 1) \<and> civil_from_days (d + 1) = next_day (civil_from_days d)"
  using civil_from_days_0 civil_from_days_Suc by simp

end
