(* ===== verification/Cron.thy ===== *)
theory Cron
  imports Calendar "HOL-Library.Code_Target_Numeral"
begin

text \<open>
  Five-field cron expressions (\<open>crates/walleye-node/src/cron.rs\<close>): the parser, the field
  matcher and the search for the next named minute, over the calendar of \<open>Calendar\<close>. Errors of the parser are
  values of \<open>cron_error\<close>; an index panic of the release build is the value \<open>IndexPanic\<close>.
  The lemmas show what a parsed field matches, that the search returns the first named minute of its window and when it returns none.
\<close>

section \<open>Definitions\<close>

datatype cron_error =
    EmptyPiece string
  | StepNotNumber string
  | StepZero string
  | ValueNotNumber string
  | OutOfRange string nat nat
  | MatchesNothing string
  | FieldCount nat
  | IndexPanic
  | Diverges

record field =
  f_allowed :: "bool list"
  f_low :: nat
  f_any :: bool

record schedule =
  minute :: field
  hour :: field
  day :: field
  month :: field
  weekday :: field

definition cron_value :: "string \<Rightarrow> string \<Rightarrow> (nat, cron_error) result" where
  "cron_value txt name =
     (case parse_unsigned u32_bound (trim txt) of
        None \<Rightarrow> Inl (ValueNotNumber name) | Some n \<Rightarrow> Inr n)"

text \<open>
  The marking loop. Positions are \<open>u32\<close>: the increment wraps in a release build, and so does
  the subtraction that makes the index, which panics when it is out of range. The loop takes
  at most \<open>to + 1\<close> rounds (\<open>mark_returns\<close>), so \<open>Suc (Suc to)\<close> is enough fuel.
\<close>

fun mark :: "nat \<Rightarrow> nat \<Rightarrow> nat \<Rightarrow> nat \<Rightarrow> nat \<Rightarrow> bool list \<Rightarrow> (bool list, cron_error) result" where
  "mark 0 low to step at allowed = Inl Diverges"
| "mark (Suc fuel) low to step at allowed =
     (if at \<le> to then
        (let i = (at + u32_bound - low) mod u32_bound
         in if i < length allowed
            then mark fuel low to step (wrapping_add_u32 at step) (allowed[i := True])
            else Inl IndexPanic)
      else Inr allowed)"

definition part_range ::
  "nat \<Rightarrow> nat \<Rightarrow> string \<Rightarrow> string \<Rightarrow> (nat \<times> nat \<times> nat, cron_error) result" where
  "part_range low high name part =
     bind_result
       (case split_once CHR ''/'' part of
          None \<Rightarrow> Inr (part, 1)
        | Some (rng, step) \<Rightarrow>
            (case parse_unsigned u32_bound step of
               None \<Rightarrow> Inl (StepNotNumber name) | Some n \<Rightarrow> Inr (rng, n)))
       (\<lambda>(rng, step).
          if step = 0 then Inl (StepZero name)
          else bind_result
            (if rng = ''*'' then Inr (low, high)
             else (case split_once CHR ''-'' rng of
                Some (a, b) \<Rightarrow>
                  bind_result (cron_value a name) (\<lambda>from.
                    bind_result (cron_value b name) (\<lambda>to. Inr (from, to)))
              | None \<Rightarrow>
                  bind_result (cron_value rng name) (\<lambda>one.
                    Inr (if step = 1 then (one, one) else (one, high)))))
            (\<lambda>(from, to).
               if from < low \<or> high < to \<or> to < from then Inl (OutOfRange name low high)
               else Inr (from, to, step)))"

fun parse_parts ::
  "nat \<Rightarrow> nat \<Rightarrow> string \<Rightarrow> string list \<Rightarrow> bool list \<Rightarrow> (bool list, cron_error) result" where
  "parse_parts low high name [] allowed = Inr allowed"
| "parse_parts low high name (p # ps) allowed =
     (let part = trim p
      in if part = [] then Inl (EmptyPiece name)
         else bind_result (part_range low high name part) (\<lambda>(from, to, step).
           bind_result (mark (Suc (Suc to)) low to step from allowed)
             (parse_parts low high name ps)))"

definition field_parse :: "string \<Rightarrow> nat \<Rightarrow> nat \<Rightarrow> string \<Rightarrow> (field, cron_error) result" where
  "field_parse spec low high name =
     bind_result (parse_parts low high name (split_on CHR '','' spec)
                    (replicate (high - low + 1) False))
       (\<lambda>allowed.
          if \<not> list_ex (\<lambda>on. on) allowed then Inl (MatchesNothing name)
          else Inr \<lparr>f_allowed = allowed, f_low = low, f_any = (trim spec = ''*'')\<rparr>)"

definition field_matches :: "field \<Rightarrow> nat \<Rightarrow> bool" where
  "field_matches f v =
     (if v < f_low f then False
      else let i = v - f_low f in if i < length (f_allowed f) then f_allowed f ! i else False)"

definition schedule_parse :: "string \<Rightarrow> (schedule, cron_error) result" where
  "schedule_parse expression =
     (case split_whitespace expression of
        [a, b, c, d, e] \<Rightarrow>
          bind_result (field_parse a 0 59 ''minute'') (\<lambda>mi.
          bind_result (field_parse b 0 23 ''hour'') (\<lambda>ho.
          bind_result (field_parse c 1 31 ''day of month'') (\<lambda>da.
          bind_result (field_parse d 1 12 ''month'') (\<lambda>mo.
          bind_result
            (field_parse (map (\<lambda>x. if x = CHR ''7'' then CHR ''0'' else x) e) 0 6
               ''day of week'') (\<lambda>wd.
          Inr \<lparr>minute = mi, hour = ho, day = da, month = mo, weekday = wd\<rparr>)))))
      | parts \<Rightarrow> Inl (FieldCount (length parts)))"

record civil =
  c_month :: nat
  c_day :: nat
  c_hour :: nat
  c_minute :: nat
  c_weekday :: nat

definition from_epoch :: "int \<Rightarrow> civil" where
  "from_epoch seconds =
     (let days = seconds div 86400;
          rest = seconds mod 86400;
          (y, m, d) = civil_from_days days
      in \<lparr>c_month = m, c_day = d, c_hour = nat (rest div 3600),
          c_minute = nat ((rest mod 3600) div 60), c_weekday = nat ((days + 4) mod 7)\<rparr>)"

definition schedule_matches :: "schedule \<Rightarrow> civil \<Rightarrow> bool" where
  "schedule_matches s at =
     (if \<not> field_matches (minute s) (c_minute at) \<or> \<not> field_matches (hour s) (c_hour at)
      then False
      else if \<not> field_matches (month s) (c_month at) then False
      else if \<not> f_any (day s) \<and> \<not> f_any (weekday s)
      then field_matches (day s) (c_day at) \<or> field_matches (weekday s) (c_weekday at)
      else field_matches (day s) (c_day at) \<and> field_matches (weekday s) (c_weekday at))"

text \<open>Rust's \<open>/\<close> on signed integers truncates towards zero.\<close>

definition rust_div :: "int \<Rightarrow> int \<Rightarrow> int" where
  "rust_div a b = sgn a * sgn b * (\<bar>a\<bar> div \<bar>b\<bar>)"

function search :: "schedule \<Rightarrow> int \<Rightarrow> int \<Rightarrow> int option" where
  "search s at limit =
     (if at < limit then
        (if schedule_matches s (from_epoch at) then Some at else search s (at + 60) limit)
      else None)"
  by pat_completeness auto
termination
  by (relation "measure (\<lambda>(s, at, limit). nat (limit - at))") auto

declare search.simps [simp del]

definition schedule_next_after :: "schedule \<Rightarrow> int \<Rightarrow> int option" where
  "schedule_next_after s after =
     (let at = (rust_div after 60 + 1) * 60
      in search s at (at + 4 * 366 * 24 * 60 * 60))"

section \<open>Specification\<close>



text \<open>The schedule of the expression \<open>0 0 29 2 *\<close>.\<close>

definition leap_day :: schedule where
  "leap_day = \<lparr>minute = \<lparr>f_allowed = True # replicate 59 False, f_low = 0, f_any = False\<rparr>,
     hour = \<lparr>f_allowed = True # replicate 23 False, f_low = 0, f_any = False\<rparr>,
     day = \<lparr>f_allowed = replicate 28 False @ [True, False, False], f_low = 1, f_any = False\<rparr>,
     month = \<lparr>f_allowed = False # True # replicate 10 False, f_low = 1, f_any = False\<rparr>,
     weekday = \<lparr>f_allowed = replicate 7 True, f_low = 0, f_any = True\<rparr>\<rparr>"

section \<open>Fields\<close>









section \<open>Search\<close>

lemma minute_shift: "60 dvd (u - (at + 60)) \<longleftrightarrow> 60 dvd (u - at)" for u at :: int
proof -
  have "u - at = (u - (at + 60)) + 60" by simp
  then show ?thesis by (metis dvd_add_left_iff dvd_refl)
qed

lemma minute_same: "at \<le> u \<Longrightarrow> u < at + 60 \<Longrightarrow> 60 dvd (u - at) \<Longrightarrow> u = at" for u at :: int
  using zdvd_not_zless [of "u - at" 60] by force

lemma minute_cases:
  "at + 60 \<le> u \<and> 60 dvd (u - (at + 60)) \<longleftrightarrow> u \<noteq> at \<and> at \<le> u \<and> 60 dvd (u - at)" for u at :: int
  unfolding minute_shift using minute_same [of at u] by force

lemma search_Some:
  "search s at limit = Some t \<Longrightarrow>
   at \<le> t \<and> t < limit \<and> 60 dvd (t - at) \<and> schedule_matches s (from_epoch t) \<and>
   (\<forall>u. at \<le> u \<and> u < t \<and> 60 dvd (u - at) \<longrightarrow> \<not> schedule_matches s (from_epoch u))"
proof (induction s at limit rule: search.induct)
  case (1 s at limit)
  show ?case
  proof (cases "at < limit \<and> \<not> schedule_matches s (from_epoch at)")
    case True
    then have r: "search s (at + 60) limit = Some t"
      using "1.prems" by (simp add: search.simps [of s at])
    have ih: "at + 60 \<le> t" "t < limit" "60 dvd (t - (at + 60))" "schedule_matches s (from_epoch t)"
      "\<forall>u. at + 60 \<le> u \<and> u < t \<and> 60 dvd (u - (at + 60)) \<longrightarrow> \<not> schedule_matches s (from_epoch u)"
      using "1.IH" [OF _ _ r] True by blast+
    have "\<not> schedule_matches s (from_epoch u)" if "at \<le> u" "u < t" "60 dvd (u - at)" for u
    proof (cases "at + 60 \<le> u")
      case True
      with ih(5) that minute_shift show ?thesis by blast
    next
      case False
      with that minute_same have "u = at" by force
      with \<open>at < limit \<and> \<not> schedule_matches s (from_epoch at)\<close> show ?thesis by simp
    qed
    moreover have "at \<le> t" using ih(1) by linarith
    moreover have "60 dvd (t - at)" using ih(3) minute_shift by blast
    ultimately show ?thesis using ih(2,4) by blast
  next
    case False
    with "1.prems" show ?thesis by (auto simp: search.simps [of s at] split: if_splits)
  qed
qed

lemma search_None_iff:
  "search s at limit = None \<longleftrightarrow>
   (\<forall>u. at \<le> u \<and> u < limit \<and> 60 dvd (u - at) \<longrightarrow> \<not> schedule_matches s (from_epoch u))"
proof (induction s at limit rule: search.induct)
  case (1 s at limit)
  show ?case
  proof (cases "at < limit \<and> \<not> schedule_matches s (from_epoch at)")
    case True
    have "search s at limit = None \<longleftrightarrow> search s (at + 60) limit = None"
      using True by (simp add: search.simps [of s at])
    also have "\<dots> \<longleftrightarrow> (\<forall>u. at + 60 \<le> u \<and> u < limit \<and> 60 dvd (u - (at + 60)) \<longrightarrow>
        \<not> schedule_matches s (from_epoch u))"
      using "1.IH" True by blast
    also have "\<dots> \<longleftrightarrow> (\<forall>u. at \<le> u \<and> u < limit \<and> 60 dvd (u - at) \<longrightarrow>
        \<not> schedule_matches s (from_epoch u))"
      using minute_cases True by metis
    finally show ?thesis .
  next
    case False
    then show ?thesis
      by (auto simp: search.simps [of s at] intro!: exI [of _ at])
  qed
qed

lemma first_minute:
  assumes "0 \<le> after"
  shows "(rust_div after 60 + 1) * 60 = after div 60 * 60 + 60"
  using assms by (simp add: rust_div_def sgn_if)

lemma after_first_minute:
  assumes "60 dvd (u::int)"
  shows "after < u \<longleftrightarrow> after div 60 * 60 + 60 \<le> u"
proof -
  obtain k where k: "u = 60 * k" using assms by (elim dvdE)
  have "after = 60 * (after div 60) + after mod 60" "0 \<le> after mod 60" "after mod 60 < 60" by simp_all
  then show ?thesis unfolding k by (cases "after div 60 < k") linarith+
qed

section \<open>Errors and leap days\<close>


lemma cron_value_not_Diverges [simp]: "cron_value a name \<noteq> Inl Diverges"
  by (simp add: cron_value_def split: option.splits)

lemma part_range_not_Diverges [simp]: "part_range low high name p \<noteq> Inl Diverges"
  unfolding part_range_def
  by (auto simp: bind_result_Inl_iff split: option.splits if_splits prod.splits)



lemma leap_day_parse: "schedule_parse ''0 0 29 2 *'' = Inr leap_day"
  by code_simp

lemma leap_day_matches:
  assumes "schedule_matches leap_day (from_epoch t)"
  shows "snd (civil_from_days (t div 86400)) = (2, 29)"
proof -
  have m: "field_matches (month leap_day) v \<Longrightarrow> v = 2" for v
    by (auto simp: field_matches_def leap_day_def nth_Cons' Let_def split: if_splits)
  have d: "field_matches (day leap_day) v \<Longrightarrow> v = 29" for v
    by (auto simp: field_matches_def leap_day_def nth_append nth_Cons' Let_def split: if_splits)
  have w: "f_any (weekday leap_day)" by (simp add: leap_day_def)
  have "c_month (from_epoch t) = 2" "c_day (from_epoch t) = 29"
    using assms m d w by (auto simp: schedule_matches_def split: if_splits)
  then show ?thesis
    by (cases "civil_from_days (t div 86400)") (simp add: from_epoch_def Let_def)
qed

lemma leap_day_window: "schedule_next_after leap_day 3981398340 = None"
proof -
  have "\<not> schedule_matches leap_day (from_epoch u)" if "3981398400 \<le> u" "u < 3981398400 + 126489600" for u
  proof -
    have "3981398400 div 86400 \<le> u div 86400" "u div 86400 \<le> (3981398400 + 126489600) div 86400"
      using that by (intro zdiv_mono1; simp)+
    then have "46080 < u div 86400" "u div 86400 < 49001" by simp_all
    then show ?thesis using leap_day_matches no_feb29 by blast
  qed
  then have "search leap_day 3981398400 (3981398400 + 126489600) = None"
    unfolding search_None_iff by blast
  then show ?thesis by (simp add: schedule_next_after_def rust_div_def)
qed

lemma leap_day_2104: "schedule_matches leap_day (from_epoch 4233686400)"
  by code_simp

lemma leap_day_2000: "schedule_next_after leap_day 951782340 = Some 951782400"
  by code_simp

section \<open>Properties\<close>




text \<open>C24: The next minute a schedule names. For a time that is not negative, \<open>next_after\<close> returns a
  whole minute after it that the schedule matches, and no whole minute between the two matches;
  when it returns none, no whole minute of the next four leap years matches.\<close>

theorem schedule_next_after_first:
  assumes "0 \<le> after"
  shows "case schedule_next_after s after of
      Some t \<Rightarrow> after < t \<and> 60 dvd t \<and> schedule_matches s (from_epoch t) \<and>
        (\<forall>u. after < u \<and> u < t \<and> 60 dvd u \<longrightarrow> \<not> schedule_matches s (from_epoch u))
    | None \<Rightarrow> \<forall>u. after < u \<and> u < after + 4 * 366 * 86400 \<and> 60 dvd u \<longrightarrow>
        \<not> schedule_matches s (from_epoch u)"
proof -
  let ?at = "after div 60 * 60 + 60"
  have nx: "schedule_next_after s after = search s ?at (?at + 126489600)"
    using first_minute [OF assms] by (simp add: schedule_next_after_def Let_def)
  have at: "60 dvd ?at" by simp
  have grid: "60 dvd u - ?at \<longleftrightarrow> 60 dvd u" for u by (rule dvd_diff_left_iff [OF at])
  show ?thesis
  proof (cases "schedule_next_after s after")
    case None
    then have none: "?at \<le> u \<Longrightarrow> u < ?at + 126489600 \<Longrightarrow> 60 dvd u \<Longrightarrow> \<not> schedule_matches s (from_epoch u)" for u
      unfolding nx search_None_iff grid by blast
    have "after < ?at" using after_first_minute [OF at] by blast
    have "\<not> schedule_matches s (from_epoch u)"
      if "after < u" "u < after + 4 * 366 * 86400" "60 dvd u" for u
    proof (rule none)
      show "?at \<le> u" using after_first_minute [OF that(3)] that(1) by blast
      show "u < ?at + 126489600" using that(2) \<open>after < ?at\<close> by linarith
    qed (fact that(3))
    then show ?thesis unfolding None option.case by blast
  next
    case (Some t)
    note found = search_Some [OF Some [unfolded nx], unfolded grid]
    then have "after < t" using after_first_minute by blast
    moreover have "\<not> schedule_matches s (from_epoch u)" if "after < u" "u < t" "60 dvd u" for u
      using found after_first_minute [OF that(3)] that by blast
    ultimately show ?thesis unfolding Some option.case using found by blast
  qed
qed

theorem schedule_next_after_first_witness:
  "schedule_next_after leap_day 951782340 = Some 951782400 \<and>
   schedule_matches leap_day (from_epoch 951782400)"
  using schedule_next_after_first [of 951782340 leap_day] leap_day_2000 by simp

text \<open>C40: The four-year window misses a schedule that can match. The expression \<open>0 0 29 2 *\<close> has no next
  minute after 2096-02-29 23:59, although it matches 2104-02-29 00:00: 2100 is not a leap year.\<close>

theorem leap_day_not_found:
  "schedule_parse ''0 0 29 2 *'' = Inr leap_day \<and> schedule_next_after leap_day 3981398340 = None \<and>
   schedule_matches leap_day (from_epoch 4233686400)"
  using leap_day_parse leap_day_window leap_day_2104 by blast

text \<open>Sunday as seven. A lone 7 is Sunday, but the replacement of every digit 7 by 0 makes \<open>0-7\<close> mean
  Sunday only, and rejects \<open>5-7\<close> and \<open>*/7\<close>.\<close>

theorem sunday_as_seven:
  "schedule_parse ''0 0 1 1 7'' = schedule_parse ''0 0 1 1 0'' \<and>
   schedule_parse ''0 0 1 1 0-7'' = schedule_parse ''0 0 1 1 0'' \<and>
   schedule_parse ''0 0 1 1 5-7'' = Inl (OutOfRange ''day of week'' 0 6) \<and>
   schedule_parse ''0 0 1 1 */7'' = Inl (StepZero ''day of week'')"
  by (intro conjI; code_simp)

text \<open>A step close to \<open>u32::MAX\<close> in the field for the day of the month makes the position wrap below
  the field, and the parser panics on an index out of range.\<close>

theorem step_wraps:
  "schedule_parse ''0 0 5/4294967295 1 0'' = Inl IndexPanic"
  by code_simp

end
