(* ===== verification/Alarms.thy ===== *)
theory Alarms
  imports Cron
begin

text \<open>
  Alarms (\<open>crates/walleye-node/src/alarms.rs\<close>): the stored alarm, how a schedule comes round
  again (\<open>next_after\<close>, \<open>catch_up\<close>), the start of a firing (\<open>alarm_begin\<close>) and its report
  (\<open>alarm_complete\<close>). Times are \<open>u64\<close> milliseconds, kept as naturals with the wrapping
  multiplication of a release build written out; a panic is a value of \<open>alarm_panic\<close>.
  \<open>occurrences\<close> is the contract of a schedule that the walk over missed occurrences relies on;
  every \<open>Repeat\<close> provides it up to its \<open>horizon\<close>.
\<close>

section \<open>Definitions\<close>

definition BACKOFF_BASE_MS :: nat where "BACKOFF_BASE_MS = 2000"

definition MAX_BACKOFF_SHIFT :: nat where "MAX_BACKOFF_SHIFT = 6"

definition MAX_ATTEMPTS :: nat where "MAX_ATTEMPTS = 7"

definition MAX_WALK :: nat where "MAX_WALK = 1000000"

datatype alarm_panic = CronPanic | DivideByZero

datatype repeat = Cron string | Every nat

text \<open>The period of \<open>Every\<close>: \<open>seconds.max(&1) * 1000\<close>, which wraps.\<close>

definition every_ms :: "nat \<Rightarrow> nat" where
  "every_ms seconds = wrapping_mul_u64 (max seconds 1) 1000"

fun next_after :: "repeat \<Rightarrow> nat \<Rightarrow> (nat option, alarm_panic) result" where
  "next_after (Cron expression) after_ms =
     (case schedule_parse expression of
        Inl IndexPanic \<Rightarrow> Inl CronPanic
      | Inl _ \<Rightarrow> Inr None
      | Inr schedule \<Rightarrow>
          Inr (map_option (\<lambda>secs. wrapping_mul_u64 (nat (max secs 0)) 1000)
                 (schedule_next_after schedule (int (after_ms div 1000)))))"
| "next_after (Every seconds) after_ms = Inr (checked_add_u64 after_ms (every_ms seconds))"

text \<open>The loop of \<open>catch_up\<close>: \<open>n\<close> is what is left of \<open>MAX_WALK\<close>.\<close>

fun walk :: "(nat \<Rightarrow> (nat option, 'e) result) \<Rightarrow> nat \<Rightarrow> nat \<Rightarrow> nat \<Rightarrow> nat \<Rightarrow> (nat \<times> nat, 'e) result" where
  "walk nxt 0 at skipped now_ms = Inr (at, skipped)"
| "walk nxt (Suc n) at skipped now_ms =
     bind_result (nxt at) (\<lambda>o'. case o' of
        Some u \<Rightarrow> if u \<le> now_ms then walk nxt n u (skipped + 1) now_ms else Inr (at, skipped)
      | None \<Rightarrow> Inr (at, skipped))"

definition catch_up :: "repeat \<Rightarrow> nat \<Rightarrow> nat \<Rightarrow> (nat \<times> nat, alarm_panic) result" where
  "catch_up r from_ms now_ms =
     (if now_ms \<le> from_ms then Inr (from_ms, 0)
      else case r of
        Every seconds \<Rightarrow>
          (let every = every_ms seconds
           in if every = 0 then Inl DivideByZero
              else let steps = (now_ms - from_ms) div every
                   in Inr (from_ms + steps * every, steps))
      | Cron _ \<Rightarrow> walk (next_after r) MAX_WALK from_ms 0 now_ms)"

record alarm =
  at_ms :: nat
  scheduled_ms :: nat
  attempt :: nat
  a_id :: nat
  a_repeat :: "repeat option"
  covers_from_ms :: "nat option"

definition once :: "nat \<Rightarrow> nat \<Rightarrow> alarm" where
  "once at i = \<lparr>at_ms = at, scheduled_ms = at, attempt = 0, a_id = i, a_repeat = None,
     covers_from_ms = None\<rparr>"


definition backoff_ms :: "nat \<Rightarrow> nat" where
  "backoff_ms n = BACKOFF_BASE_MS * 2 ^ min (n - 1) MAX_BACKOFF_SHIFT"

record firing =
  fi_id :: nat
  fi_scheduled_ms :: nat
  fi_attempt :: nat
  fi_missed :: nat

text \<open>The part of \<open>begin\<close> that a schedule runs: the alarm with the occurrence it now stands
  for, and the number of occurrences missed.\<close>

definition begin_repeat :: "repeat \<Rightarrow> alarm \<Rightarrow> nat \<Rightarrow> (alarm \<times> nat, alarm_panic) result" where
  "begin_repeat r a now_ms =
     (let start = (case covers_from_ms a of Some c \<Rightarrow> c | None \<Rightarrow> scheduled_ms a)
      in if attempt a = 0 then
           bind_result (catch_up r (scheduled_ms a) now_ms) (\<lambda>(latest, skipped).
             Inr (a\<lparr>scheduled_ms := latest,
                    covers_from_ms :=
                      Some (min (case covers_from_ms a of Some c \<Rightarrow> c | None \<Rightarrow> start) start)\<rparr>,
                  skipped))
         else case covers_from_ms a of
             Some c \<Rightarrow> bind_result (catch_up r c (scheduled_ms a)) (\<lambda>(_, skipped). Inr (a, skipped))
           | None \<Rightarrow> Inr (a, 0))"

definition alarm_begin :: "alarm \<Rightarrow> nat \<Rightarrow> (alarm \<times> firing option, alarm_panic) result" where
  "alarm_begin a now_ms =
     (if now_ms < at_ms a then Inr (a, None)
      else bind_result
        (case a_repeat a of Some r \<Rightarrow> begin_repeat r a now_ms | None \<Rightarrow> Inr (a, 0))
        (\<lambda>(a1, missed).
           let n = wrapping_add_u32 (attempt a1) 1;
               a2 = a1\<lparr>attempt := n, at_ms := saturating_add_u64 now_ms (backoff_ms n)\<rparr>
           in Inr (a2, Some \<lparr>fi_id = a_id a2, fi_scheduled_ms = scheduled_ms a2,
                            fi_attempt = n, fi_missed = missed\<rparr>)))"

datatype settled = Keep | Remove

definition stale :: "alarm \<Rightarrow> firing \<Rightarrow> bool" where
  "stale a f = (a_id a \<noteq> fi_id f \<or> attempt a \<noteq> fi_attempt f \<or> scheduled_ms a \<noteq> fi_scheduled_ms f)"

definition move_on :: "nat option \<Rightarrow> alarm \<Rightarrow> alarm \<times> settled" where
  "move_on nxt a =
     (case nxt of
        Some n \<Rightarrow> (a\<lparr>at_ms := n, scheduled_ms := n, attempt := 0, covers_from_ms := None\<rparr>, Keep)
      | None \<Rightarrow> (a, Remove))"

definition hand_over :: "nat option \<Rightarrow> nat \<Rightarrow> alarm \<Rightarrow> alarm \<times> settled" where
  "hand_over nxt now_ms a =
     (case nxt of
        Some n \<Rightarrow>
          (a\<lparr>at_ms := max n (min now_ms (at_ms a)),
             scheduled_ms := (case covers_from_ms a of Some c \<Rightarrow> c | None \<Rightarrow> scheduled_ms a),
             attempt := 0, covers_from_ms := None\<rparr>, Keep)
      | None \<Rightarrow> (a, Remove))"

definition alarm_complete ::
  "alarm \<Rightarrow> firing \<Rightarrow> bool \<Rightarrow> nat \<Rightarrow> (alarm \<times> settled, alarm_panic) result" where
  "alarm_complete a f ok now_ms =
     (if stale a f then Inr (a, Keep)
      else bind_result
        (case a_repeat a of Some r \<Rightarrow> next_after r (fi_scheduled_ms f) | None \<Rightarrow> Inr None)
        (\<lambda>nxt. Inr
           (if ok then move_on nxt a
            else if MAX_ATTEMPTS \<le> fi_attempt f then hand_over nxt now_ms a
            else case nxt of
                Some n \<Rightarrow> if n \<le> at_ms a then hand_over nxt now_ms a else (a, Keep)
              | None \<Rightarrow> (a, Keep))))"

section \<open>Specification\<close>

text \<open>The \<open>k\<close>-th occurrence after \<open>t\<close>; every occurrence but the last is below \<open>lim\<close>.\<close>

fun occ :: "(nat \<Rightarrow> (nat option, 'e) result) \<Rightarrow> nat \<Rightarrow> nat \<Rightarrow> nat \<Rightarrow> nat option" where
  "occ nxt lim 0 t = Some t"
| "occ nxt lim (Suc k) t =
     (if t < lim then (case nxt t of Inr (Some u) \<Rightarrow> occ nxt lim k u | _ \<Rightarrow> None) else None)"

text \<open>Four leap years and a minute, in milliseconds: no search of \<open>cron.rs\<close> goes further.\<close>

definition cron_reach_ms :: nat where "cron_reach_ms = 126490000000"

definition horizon :: "repeat \<Rightarrow> nat" where
  "horizon r = (case r of
       Every seconds \<Rightarrow> if max seconds 1 * 1000 < u64_bound then u64_bound else 0
     | Cron e \<Rightarrow> if schedule_parse e = Inl IndexPanic then 0 else u64_bound - cron_reach_ms)"

definition walk_cap :: "repeat \<Rightarrow> nat \<Rightarrow> bool" where
  "walk_cap r k = (case r of Cron _ \<Rightarrow> k \<le> MAX_WALK | Every _ \<Rightarrow> True)"

abbreviation occurrence :: "repeat \<Rightarrow> nat \<Rightarrow> nat \<Rightarrow> nat option" where
  "occurrence r \<equiv> occ (next_after r) (horizon r)"

definition owed :: "alarm \<Rightarrow> nat" where
  "owed a = (case covers_from_ms a of Some c \<Rightarrow> c | None \<Rightarrow> scheduled_ms a)"

definition covered :: "firing list \<Rightarrow> nat" where
  "covered D = sum_list (map (\<lambda>f. fi_missed f + 1) D)"


text \<open>The occurrences that a firing stands for, from the first that is owed.\<close>

definition spans :: "repeat \<Rightarrow> nat \<Rightarrow> nat \<Rightarrow> nat \<Rightarrow> bool" where
  "spans r k c u \<longleftrightarrow> occurrence r k c = Some u \<and> walk_cap r k \<and> u < horizon r"

definition armed :: "repeat \<Rightarrow> nat \<Rightarrow> alarm \<Rightarrow> bool" where
  "armed r i a \<longleftrightarrow> a_repeat a = Some r \<and> a_id a = i \<and>
     (if attempt a = 0 then covers_from_ms a = None \<and> scheduled_ms a \<le> at_ms a
      else \<exists>c k. covers_from_ms a = Some c \<and> spans r k c (scheduled_ms a))"



text \<open>One try at a due alarm whose handler fails.\<close>

definition failed_try :: "alarm \<Rightarrow> (alarm \<times> settled, alarm_panic) result" where
  "failed_try a = bind_result (alarm_begin a (at_ms a)) (\<lambda>(a', f).
     case f of Some f' \<Rightarrow> alarm_complete a' f' False (at_ms a) | None \<Rightarrow> Inr (a', Keep))"

fun failed_tries :: "nat \<Rightarrow> alarm \<Rightarrow> (alarm \<times> settled, alarm_panic) result" where
  "failed_tries 0 a = Inr (a, Keep)"
| "failed_tries (Suc n) a = bind_result (failed_try a) (\<lambda>(a', s).
     case s of Keep \<Rightarrow> failed_tries n a' | Remove \<Rightarrow> Inr (a', Remove))"

definition minutely_alarm :: alarm where
  "minutely_alarm = \<lparr>at_ms = 240000, scheduled_ms = 240000, attempt = 0, a_id = 1,
     a_repeat = Some (Every 60), covers_from_ms = None\<rparr>"


locale occurrences =
  fixes nxt :: "nat \<Rightarrow> (nat option, 'e) result"
    and lim :: nat
  assumes advance: "t < lim \<Longrightarrow> nxt t = Inr (Some u) \<Longrightarrow> t < u"
    and returns: "t < lim \<Longrightarrow> nxt t \<noteq> Inl e"
begin

lemma occ_plus:
  "occ nxt lim (j + k) t = (case occ nxt lim j t of None \<Rightarrow> None | Some u \<Rightarrow> occ nxt lim k u)"
  by (induction j arbitrary: t) (auto split: sum.splits option.splits)

lemma occ_ge: "occ nxt lim k t = Some u \<Longrightarrow> t + k \<le> u"
proof (induction k arbitrary: t)
  case (Suc k)
  then obtain v where "t < lim" "nxt t = Inr (Some v)" "occ nxt lim k v = Some u"
    by (auto split: if_splits sum.splits option.splits)
  then show ?case using advance Suc.IH by fastforce
qed simp

lemma occ_less:
  assumes "occ nxt lim j t = Some u" "occ nxt lim k t = Some v" "j < k"
  shows "u < v"
proof -
  obtain d where k: "k = j + Suc d" using assms(3) less_imp_Suc_add by auto
  show ?thesis using assms(1,2) occ_ge [of "Suc d" u v] unfolding k occ_plus by simp
qed

lemma occ_inj:
  assumes "occ nxt lim j t = Some u" "occ nxt lim k t = Some u"
  shows "j = k"
  using occ_less [OF assms] occ_less [OF assms(2,1)] by (meson less_irrefl linorder_neqE_nat)

lemma walk_spec:
  assumes "at \<le> now" "now < lim"
  obtains u k where "walk nxt n at s now = Inr (u, s + k)" "occ nxt lim k at = Some u"
    "u \<le> now" "k \<le> n" "k = n \<or> nxt u = Inr None \<or> (\<exists>v. nxt u = Inr (Some v) \<and> now < v)"
  using assms
proof (induction n arbitrary: at s thesis)
  case 0
  then show ?case by simp
next
  case (Suc n)
  have "at < lim" using Suc.prems by simp
  then obtain o' where o': "nxt at = Inr o'" using returns by (cases "nxt at") auto
  show ?case
  proof (cases "\<exists>u. o' = Some u \<and> u \<le> now")
    case True
    then obtain u where u: "o' = Some u" "u \<le> now" by blast
    show ?thesis
    proof (rule Suc.IH [of u "s + 1"])
      fix w k
      assume "walk nxt n u (s + 1) now = Inr (w, s + 1 + k)" "occ nxt lim k u = Some w" "w \<le> now"
        "k \<le> n" "k = n \<or> nxt w = Inr None \<or> (\<exists>v. nxt w = Inr (Some v) \<and> now < v)"
      then show thesis
        using o' u \<open>at < lim\<close> by (intro Suc.prems(1) [of w "Suc k"]) auto
    qed (use u Suc.prems in auto)
  next
    case False
    then show ?thesis
      using o' Suc.prems by (intro Suc.prems(1) [of at 0]) (cases o'; auto)+
  qed
qed

text \<open>An occurrence up to \<open>now\<close> is not after the one a walk stops at.\<close>

lemma walk_latest:
  assumes "occ nxt lim k at = Some u" "k = n \<or> nxt u = Inr None \<or> (\<exists>v. nxt u = Inr (Some v) \<and> now < v)"
    "occ nxt lim j at = Some w" "w \<le> now" "j \<le> n"
  shows "w \<le> u"
proof (cases "j \<le> k")
  case True
  then show ?thesis using occ_less [OF assms(3,1)] assms(1,3) by (cases "j = k") auto
next
  case False
  then obtain d where j: "j = k + Suc d" using less_imp_Suc_add by (metis add_Suc_right not_le)
  from assms(3) obtain v where "nxt u = Inr (Some v)" "occ nxt lim d v = Some w"
    unfolding j occ_plus using assms(1) by (auto split: if_splits sum.splits option.splits)
  with assms(2,4,5) False occ_ge show ?thesis by fastforce
qed

end

lemma next_after_Every_advance:
  assumes "t < horizon (Every s)" "next_after (Every s) t = Inr (Some u)"
  shows "t < u"
proof -
  have "max s 1 * 1000 < u64_bound" using assms(1) by (auto simp: horizon_def split: if_splits)
  then have "every_ms s = max s 1 * 1000" by (simp add: every_ms_def wrapping_mul_u64_def)
  with assms(2) show ?thesis by (auto simp: checked_add_u64_def split: if_splits)
qed

lemma search_bound: "search s at limit = Some t \<Longrightarrow> at \<le> t \<and> t < limit"
  using search_Some by blast

lemma schedule_next_after_bound:
  assumes "schedule_next_after s after = Some t" "0 \<le> after"
  shows "after < t" "t < after + 126489660"
proof -
  have at: "(rust_div after 60 + 1) * 60 = after div 60 * 60 + 60" by (rule first_minute [OF assms(2)])
  have "after = after div 60 * 60 + after mod 60" "0 \<le> after mod 60" "after mod 60 < 60" by simp_all
  with assms(1) search_bound [of s "after div 60 * 60 + 60"] show "after < t" "t < after + 126489660"
    unfolding schedule_next_after_def at Let_def by force+
qed

lemma next_after_Cron_cases:
  assumes "next_after (Cron e) t = Inr (Some u)"
  obtains s secs where "schedule_parse e = Inr s"
    "schedule_next_after s (int (t div 1000)) = Some secs"
    "u = wrapping_mul_u64 (nat (max secs 0)) 1000"
proof (cases "schedule_parse e")
  case (Inl x)
  with assms show ?thesis by (cases x) simp_all
next
  case (Inr s)
  with assms that show ?thesis by (auto simp: map_option_eq_Some)
qed

lemma next_after_Cron_advance:
  assumes "t < horizon (Cron e)" "next_after (Cron e) t = Inr (Some u)"
  shows "t < u"
proof -
  obtain s secs where p: "schedule_parse e = Inr s"
    and n: "schedule_next_after s (int (t div 1000)) = Some secs"
    and u: "u = wrapping_mul_u64 (nat (max secs 0)) 1000"
    using assms(2) by (rule next_after_Cron_cases)
  have b: "int (t div 1000) < secs" "secs < int (t div 1000) + 126489660"
    using schedule_next_after_bound [OF n] by auto
  define k where "k = nat secs"
  have k: "secs = int k" "t div 1000 < k" "k < t div 1000 + 126489660"
    using b by (simp_all add: k_def)
  have "t + cron_reach_ms < u64_bound" using assms(1) by (simp add: horizon_def p)
  moreover have "k * 1000 < t + cron_reach_ms"
    using k(3) unfolding cron_reach_ms_def by linarith
  ultimately have "u = k * 1000" by (simp add: u k(1) wrapping_mul_u64_def)
  then show ?thesis using k(2) by linarith
qed

lemma next_after_returns:
  assumes "t < horizon r"
  shows "next_after r t \<noteq> Inl e"
proof (cases r)
  case (Cron x)
  have np: "schedule_parse x \<noteq> Inl IndexPanic"
    using assms unfolding Cron horizon_def repeat.case by (metis not_less_zero)
  show ?thesis
  proof (cases "schedule_parse x")
    case (Inl err)
    with np show ?thesis unfolding Cron by (cases err) simp_all
  next
    case (Inr s)
    then show ?thesis unfolding Cron by simp
  qed
qed simp

lemma next_after_advance:
  assumes "t < horizon r" "next_after r t = Inr (Some u)"
  shows "t < u"
proof (cases r)
  case (Cron e)
  show ?thesis using next_after_Cron_advance assms unfolding Cron by blast
next
  case (Every s)
  show ?thesis using next_after_Every_advance assms unfolding Every by blast
qed

interpretation repeat: occurrences "next_after r" "horizon r" for r
  by unfold_locales (erule (1) next_after_advance, erule next_after_returns)














lemma covered_append [simp]: "covered (D @ [f]) = covered D + (fi_missed f + 1)"
  by (simp add: covered_def)

lemma covered_Nil [simp]: "covered [] = 0"
  by (simp add: covered_def)



lemma backoff_bounds: "2000 \<le> backoff_ms n" "backoff_ms n \<le> 128000"
proof -
  have "(2::nat) ^ min (n - 1) 6 \<le> 2 ^ 6" by (intro power_increasing) auto
  then show "2000 \<le> backoff_ms n" "backoff_ms n \<le> 128000"
    by (simp_all add: backoff_ms_def BACKOFF_BASE_MS_def MAX_BACKOFF_SHIFT_def)
qed


lemma failed_try_once:
  assumes "a_repeat a = None" "attempt a < 7"
  shows "failed_try a =
    Inr (a\<lparr>attempt := attempt a + 1, at_ms := saturating_add_u64 (at_ms a) (backoff_ms (attempt a + 1))\<rparr>,
      if attempt a < 6 then Keep else Remove)"
proof -
  have "wrapping_add_u32 (attempt a) 1 = attempt a + 1"
    using assms(2) by (simp add: wrapping_add_u32_def u32_bound_def)
  then show ?thesis
    using assms by (auto simp: failed_try_def alarm_begin_def alarm_complete_def stale_def
        hand_over_def MAX_ATTEMPTS_def Let_def)
qed

lemma failed_tries_once:
  assumes "k + n \<le> 6" "t + 254000 \<le> u64_max"
  shows "failed_tries n ((once t i)\<lparr>attempt := k, at_ms := t + 2000 * (2 ^ k - 1)\<rparr>) =
    Inr ((once t i)\<lparr>attempt := k + n, at_ms := t + 2000 * (2 ^ (k + n) - 1)\<rparr>, Keep)"
  using assms(1)
proof (induction n arbitrary: k)
  case (Suc n)
  let ?a = "\<lambda>k. (once t i)\<lparr>attempt := k, at_ms := t + 2000 * (2 ^ k - 1)\<rparr>"
  obtain m where m: "(2::nat) ^ k = Suc m" by (metis Suc_pred zero_less_numeral zero_less_power)
  have "(2::nat) ^ (k + 1) \<le> 2 ^ 6" using Suc.prems by (intro power_increasing) auto
  then have "t + 2000 * (2 ^ k - 1) + 2000 * 2 ^ k \<le> u64_max"
    using assms(2) by simp
  moreover have "backoff_ms (k + 1) = 2000 * 2 ^ k"
    using Suc.prems by (simp add: backoff_ms_def BACKOFF_BASE_MS_def MAX_BACKOFF_SHIFT_def)
  ultimately have "saturating_add_u64 (t + 2000 * (2 ^ k - 1)) (backoff_ms (k + 1)) =
      t + 2000 * (2 ^ (k + 1) - 1)"
    by (simp add: saturating_add_u64_def m)
  then have "failed_try (?a k) = Inr (?a (k + 1), Keep)"
    using Suc.prems by (subst failed_try_once) (simp_all add: once_def)
  with Suc.IH [of "k + 1"] Suc.prems show ?case by simp
qed simp

lemma failed_tries_plus:
  "failed_tries (m + n) a = bind_result (failed_tries m a) (\<lambda>(a', s).
     case s of Keep \<Rightarrow> failed_tries n a' | Remove \<Rightarrow> Inr (a', Remove))"
proof (induction m arbitrary: a)
  case (Suc m)
  then show ?case by (cases "failed_try a") (auto split: settled.splits)
qed simp

section \<open>Properties\<close>








text \<open>C29: A one-shot alarm whose handler always fails is tried seven times and then removed, the
  \<open>k\<close>-th retry \<open>2 ^ k\<close> seconds after the try before it.\<close>

theorem one_shot_gives_up:
  assumes "t + 254000 \<le> u64_max" "n \<le> 6"
  shows "failed_tries n (once t i) =
      Inr ((once t i)\<lparr>attempt := n, at_ms := t + 2000 * (2 ^ n - 1)\<rparr>, Keep) \<and>
    (\<exists>a. failed_tries 7 (once t i) = Inr (a, Remove))"
proof -
  have s: "(once t i)\<lparr>attempt := 0, at_ms := t + 2000 * (2 ^ 0 - 1)\<rparr> = once t i" by (simp add: once_def)
  have n: "failed_tries n (once t i) =
      Inr ((once t i)\<lparr>attempt := n, at_ms := t + 2000 * (2 ^ n - 1)\<rparr>, Keep)" if "n \<le> 6" for n
    using failed_tries_once [of 0 n t i] that assms(1) unfolding s by simp
  have "failed_tries (6 + 1) (once t i) =
      failed_tries 1 ((once t i)\<lparr>attempt := 6, at_ms := t + 2000 * (2 ^ 6 - 1)\<rparr>)"
    unfolding failed_tries_plus using n [of 6] by simp
  then show ?thesis using n [OF assms(2)] by (simp add: failed_try_once once_def)
qed

theorem one_shot_gives_up_witness: "\<exists>a. failed_tries 7 (once 1000 5) = Inr (a, Remove)"
  using one_shot_gives_up [of 1000 0 5] by (simp add: rust_int)

text \<open>C23: A retry never delays the next occurrence: after a failed report the alarm is due no
  later than the occurrence after the one that failed, or than now when that has passed.\<close>

theorem retry_never_delays:
  assumes "armed r i a" "\<not> stale a f" "next_after r (scheduled_ms a) = Inr (Some n)"
    "alarm_complete a f False now = Inr (a', s)"
  shows "s = Keep \<and> owed a' = owed a \<and> at_ms a' \<le> max n now"
proof -
  have "a_repeat a = Some r" "fi_scheduled_ms f = scheduled_ms a"
    using assms(1,2) by (auto simp: armed_def stale_def)
  with assms(2-4) show ?thesis
    by (auto simp: alarm_complete_def hand_over_def owed_def split: if_splits)
qed

theorem retry_never_delays_witness:
  "\<exists>a'. alarm_complete (minutely_alarm\<lparr>attempt := 1, covers_from_ms := Some 240000, at_ms := 310000\<rparr>)
      \<lparr>fi_id = 1, fi_scheduled_ms = 240000, fi_attempt = 1, fi_missed = 0\<rparr> False 308500 = Inr (a', Keep) \<and>
    at_ms a' \<le> 308500"
proof -
  let ?a = "minutely_alarm\<lparr>attempt := 1, covers_from_ms := Some 240000, at_ms := 310000\<rparr>"
  let ?f = "\<lparr>fi_id = 1, fi_scheduled_ms = 240000, fi_attempt = 1, fi_missed = 0\<rparr>"
  have "spans (Every 60) 0 240000 240000" by (simp add: spans_def walk_cap_def horizon_def rust_int)
  then have "armed (Every 60) 1 ?a" "\<not> stale ?a ?f"
    by (auto simp: armed_def minutely_alarm_def stale_def)
  moreover have n: "next_after (Every 60) (scheduled_ms ?a) = Inr (Some 300000)"
    by (simp add: minutely_alarm_def every_ms_def wrapping_mul_u64_def checked_add_u64_def rust_int)
  moreover have "\<exists>a' s. alarm_complete ?a ?f False 308500 = Inr (a', s)"
    using n by (simp add: alarm_complete_def minutely_alarm_def stale_def hand_over_def
        MAX_ATTEMPTS_def every_ms_def wrapping_mul_u64_def checked_add_u64_def rust_int)
  ultimately show ?thesis
    using retry_never_delays [of "Every 60" 1 ?a ?f 300000 308500] by fastforce
qed

text \<open>A period of \<open>2 ^ 61\<close> seconds is accepted as any other number of seconds, but its
  milliseconds wrap to zero: the schedule never advances and catching up divides by zero.\<close>

theorem every_wraps_to_zero:
  "next_after (Every 2305843009213693952) t = Inr (checked_add_u64 t 0) \<and>
   catch_up (Every 2305843009213693952) 0 1 = Inl DivideByZero"
  by (simp add: catch_up_def every_ms_def wrapping_mul_u64_def rust_int)

end
