(* ===== verification/Ownership.thy ===== *)
theory Ownership
  imports Alarms
begin

text \<open>
  Table ownership (\<open>crates/walleye-node/src/ownership.rs\<close>), the part of one process: its lease
  session, what it holds, what it has seen of its peers, and the handlers, cut at every call to the
  bucket. A handler is a sequence of sections, each one definition over \<open>own_state\<close> (the state behind
  the mutex), with the answers of the bucket as arguments; \<open>Ownership_Protocol\<close> puts them
  together. Instants and durations are milliseconds of a monotonic clock, passed in as \<open>now\<close>;
  \<open>fresh\<close> is the session name a stand-down would take (\<open>session_name\<close> draws it from a random
  identifier). Objects of the bucket appear after JSON decoding. Counters are natural numbers. Wake-ups
  of waiting tasks and log lines are left out.
\<close>

section \<open>Definitions\<close>

subsection \<open>Configuration and records\<close>

record lease_config =
  ttl_ms :: nat
  skew_ms :: nat
  sample_ms :: nat

definition lease_default :: lease_config where
  "lease_default = \<lparr>ttl_ms = 10000, skew_ms = 2000, sample_ms = 2000\<rparr>"

definition lease_validate :: "lease_config \<Rightarrow> (unit, string) result" where
  "lease_validate c =
     (if ttl_ms c < 300 then Inl ''lease ttl_ms must be at least 300''
      else if skew_ms c = 0 \<or> ttl_ms c div 3 \<le> skew_ms c
      then Inl ''lease skew_ms must be positive and below a third of ttl_ms''
      else if sample_ms c = 0 \<or> ttl_ms c < sample_ms c
      then Inl ''lease sample_ms must be positive and no more than ttl_ms''
      else Inr ())"

definition renew_every :: "lease_config \<Rightarrow> nat" where
  "renew_every c = ttl_ms c div 3"

text \<open>How long a peer must see one version of a lease before it is dead.\<close>

definition verdict :: "lease_config \<Rightarrow> nat" where
  "verdict c = ttl_ms c + skew_ms c"

record lease_record =
  lr_node :: string
  lr_addr :: string
  lr_renewal :: nat
  lr_ttl_ms :: nat
  lr_renewed_at_ms :: nat
  lr_draining :: bool

record owner_record =
  ow_node :: string
  ow_epoch :: nat
  ow_alarms :: "(string, alarm) bt"
  ow_next_seq :: "nat option"

datatype 'a alarm_update = Applied 'a | Skipped | NotOwner

record peer =
  peer_node :: string
  peer_addr :: string

datatype route = Local nat | Remote peer nat | Unowned

datatype liveness = Live peer nat | Lapsed | Gone

datatype refusal = Owned peer nat | NotNow nat

record lease_session =
  s_node :: string
  s_renewal :: nat
  s_anchor :: "nat option"
  s_draining :: bool
  s_retired :: bool

record held_key =
  h_seq :: nat
  h_epoch :: nat
  h_alarms :: "(string, alarm) bt"

text \<open>The version of an object identifies one write of it. It is the instant at which the write took
  effect and a number; the code only ever compares two versions for equality.\<close>

type_synonym version = "nat \<times> nat"

record seen_lease =
  sn_version :: version
  sn_first_seen :: nat
  sn_lease :: "lease_record option"

record own_state =
  session :: lease_session
  held :: "(string, held_key) bt"
  seen :: "(string, seen_lease) bt"
  owners :: "(string, nat \<times> owner_record) bt"
  dead :: "string list"
  lost :: "string list"
  abandoned :: "string list"
  key_placement :: "(string, peer) bt"
  handed_seq :: "(string, nat) bt"
  fair_share :: "nat option"
  started :: nat

text \<open>The configured node of a session: its name without the suffix after the last dot.\<close>

definition slot :: "string \<Rightarrow> string" where
  "slot s = (case rsplit_once CHR ''.'' s of Some (node, _) \<Rightarrow> node | None \<Rightarrow> s)"

definition new_state :: "string \<Rightarrow> nat \<Rightarrow> own_state" where
  "new_state name now =
     \<lparr>session = \<lparr>s_node = name, s_renewal = 0, s_anchor = None, s_draining = False, s_retired = False\<rparr>,
      held = [], seen = [], owners = [], dead = [], lost = [], abandoned = [], key_placement = [],
      handed_seq = [], fair_share = None, started = now\<rparr>"

subsection \<open>Authority\<close>

definition stand_down_locked :: "string \<Rightarrow> own_state \<Rightarrow> own_state" where
  "stand_down_locked fresh st =
     (let old = s_node (session st)
      in st\<lparr>session := (session st)\<lparr>s_node := fresh, s_renewal := 0, s_anchor := None\<rparr>,
            held := [],
            lost := lost st @ map fst (held st),
            abandoned := abandoned st @ [old],
            dead := old # dead st\<rparr>)"

definition authoritative_locked :: "lease_config \<Rightarrow> string \<Rightarrow> nat \<Rightarrow> own_state \<Rightarrow> own_state \<times> bool" where
  "authoritative_locked c fresh now st =
     (if s_retired (session st) then (st, False)
      else case s_anchor (session st) of
          None \<Rightarrow> (st, False)
        | Some a \<Rightarrow> if now - a < ttl_ms c then (st, True) else (stand_down_locked fresh st, False))"

definition take_lost :: "own_state \<Rightarrow> own_state \<times> string list" where
  "take_lost st = (st\<lparr>lost := []\<rparr>, lost st)"

definition holds :: "lease_config \<Rightarrow> string \<Rightarrow> nat \<Rightarrow> string \<Rightarrow> own_state \<Rightarrow> own_state \<times> nat option" where
  "holds c fresh now table st =
     (case authoritative_locked c fresh now st of
        (st', False) \<Rightarrow> (st', None)
      | (st', True) \<Rightarrow> (st', map_option h_epoch (bt_get (held st') table)))"

definition confirm :: "lease_config \<Rightarrow> string \<Rightarrow> nat \<Rightarrow> string \<Rightarrow> nat \<Rightarrow> own_state \<Rightarrow> own_state \<times> bool" where
  "confirm c fresh now table epoch st =
     (case holds c fresh now table st of (st', e) \<Rightarrow> (st', e = Some epoch))"

definition take_handed_seq :: "string \<Rightarrow> own_state \<Rightarrow> own_state \<times> nat option" where
  "take_handed_seq table st = (st\<lparr>handed_seq := bt_remove table (handed_seq st)\<rparr>, bt_get (handed_seq st) table)"

definition held_alarms :: "lease_config \<Rightarrow> string \<Rightarrow> nat \<Rightarrow> own_state \<Rightarrow> own_state \<times> (string \<times> string \<times> alarm) list" where
  "held_alarms c fresh now st =
     (case authoritative_locked c fresh now st of
        (st', False) \<Rightarrow> (st', [])
      | (st', True) \<Rightarrow> (st', concat (map (\<lambda>(key, h). map (\<lambda>(name, alarm). (key, name, alarm)) (h_alarms h)) (held st'))))"

definition settled_in :: "lease_config \<Rightarrow> nat \<Rightarrow> own_state \<Rightarrow> bool" where
  "settled_in c now st \<longleftrightarrow> verdict c \<le> now - started st"

subsection \<open>Renewing the lease\<close>

text \<open>A renewal takes the section \<open>renew_begin\<close>, deletes the leases it returns, puts the lease and
  ends with \<open>renew_finish\<close>, where \<open>issued\<close> is the instant at which it began.\<close>

datatype put_outcome = PutOk | PutError | PutLate

definition renew_begin ::
  "lease_config \<Rightarrow> string \<Rightarrow> string \<Rightarrow> nat \<Rightarrow> nat \<Rightarrow> own_state \<Rightarrow> own_state \<times> (lease_record \<times> string list) option" where
  "renew_begin c addr fresh now wall st =
     (if s_retired (session st) then (st, None)
      else
        let st1 = fst (authoritative_locked c fresh now st);
            s = (session st1)\<lparr>s_renewal := s_renewal (session st1) + 1\<rparr>
        in (st1\<lparr>session := s, abandoned := []\<rparr>,
            Some (\<lparr>lr_node = s_node s, lr_addr = addr, lr_renewal = s_renewal s, lr_ttl_ms = ttl_ms c,
                   lr_renewed_at_ms = wall, lr_draining = s_draining s\<rparr>, abandoned st1)))"

definition renew_finish :: "lease_config \<Rightarrow> nat \<Rightarrow> string \<Rightarrow> put_outcome \<Rightarrow> own_state \<Rightarrow> own_state \<times> bool" where
  "renew_finish c issued node written st =
     (if written = PutOk \<and> s_node (session st) = node \<and> \<not> s_retired (session st)
         \<and> (case s_anchor (session st) of None \<Rightarrow> True | Some a \<Rightarrow> issued - a < ttl_ms c)
      then (st\<lparr>session := (session st)\<lparr>s_anchor := Some issued\<rparr>\<rparr>, True)
      else (st, False))"

subsection \<open>Sampling the bucket\<close>

definition sample_changed :: "(string, version) bt \<Rightarrow> own_state \<Rightarrow> string list" where
  "sample_changed present st =
     map fst (filter (\<lambda>(node, version).
       case bt_get (seen st) node of
         None \<Rightarrow> True
       | Some s \<Rightarrow> sn_version s \<noteq> version \<or> sn_lease s = None) present)"

definition note_seen ::
  "string \<Rightarrow> version \<Rightarrow> nat \<Rightarrow> lease_record option \<Rightarrow> (string, seen_lease) bt \<Rightarrow> (string, seen_lease) bt" where
  "note_seen node version first lease m =
     (case bt_get m node of
        Some s \<Rightarrow>
          if sn_version s = version
          then (if sn_lease s = None then bt_insert node (s\<lparr>sn_lease := lease\<rparr>) m else m)
          else bt_insert node \<lparr>sn_version = version, sn_first_seen = first, sn_lease = lease\<rparr> m
      | None \<Rightarrow> bt_insert node \<lparr>sn_version = version, sn_first_seen = first, sn_lease = lease\<rparr> m)"

definition sample_leases ::
  "lease_config \<Rightarrow> nat \<Rightarrow> nat \<Rightarrow> (string, version) bt \<Rightarrow> (string, lease_record option) bt \<Rightarrow> own_state \<Rightarrow>
   own_state \<times> string list" where
  "sample_leases c asked listed_at present bodies st =
     (let kept = bt_retain (bt_has present) (seen st);
          noted = foldl (\<lambda>m (node, version).
            note_seen node version listed_at (case bt_get bodies node of Some b \<Rightarrow> b | None \<Rightarrow> None) m) kept present;
          mine = s_node (session st)
      in (st\<lparr>seen := noted\<rparr>,
          map fst (filter (\<lambda>(node, s). node \<noteq> mine \<and> verdict c \<le> asked - sn_first_seen s) noted)))"

definition newest_versions :: "(string \<times> nat) list \<Rightarrow> (string, nat) bt" where
  "newest_versions listed =
     foldl (\<lambda>m (table, seq). bt_insert table (max (case bt_get m table of Some s \<Rightarrow> s | None \<Rightarrow> 0) seq) m) [] listed"

definition sample_stale :: "(string, nat) bt \<Rightarrow> own_state \<Rightarrow> (string \<times> nat) list" where
  "sample_stale newest st =
     filter (\<lambda>(table, seq). case bt_get (owners st) table of None \<Rightarrow> True | Some (s, _) \<Rightarrow> s \<noteq> seq) newest"

definition remember_owner :: "string \<Rightarrow> nat \<Rightarrow> owner_record \<Rightarrow> own_state \<Rightarrow> own_state" where
  "remember_owner table seq r st = st\<lparr>owners := bt_insert table (seq, r) (owners st)\<rparr>"

definition forget_owner :: "string \<Rightarrow> own_state \<Rightarrow> own_state" where
  "forget_owner table st = st\<lparr>owners := bt_remove table (owners st)\<rparr>"

definition sample_retain :: "(string, nat) bt \<Rightarrow> own_state \<Rightarrow> own_state" where
  "sample_retain newest st = st\<lparr>owners := bt_retain (bt_has newest) (owners st)\<rparr>"

subsection \<open>Versions of a table's record\<close>

text \<open>The newest of the versions a listing shows, and 0 for none.\<close>

definition latest_seq :: "nat list \<Rightarrow> nat" where
  "latest_seq listed = foldr max listed 0"

text \<open>A write of version \<open>seq\<close> counts once a listing shows it as the newest; then the versions that
  are more than one behind are deleted.\<close>

definition write_counts :: "nat list \<Rightarrow> nat \<Rightarrow> bool" where
  "write_counts listed seq \<longleftrightarrow> listed \<noteq> [] \<and> latest_seq listed = seq"

definition collected :: "nat list \<Rightarrow> nat \<Rightarrow> nat list" where
  "collected listed seq = filter (\<lambda>v. v + 1 < seq) listed"

subsection \<open>Liveness of a peer\<close>

text \<open>The sections of \<open>liveness\<close>: what is known before the bucket is read, what is noted of the
  answer, and the verdict. \<open>look_start\<close> answers whether the lease has to be read.\<close>

definition look_start :: "string \<Rightarrow> bool \<Rightarrow> own_state \<Rightarrow> liveness + bool" where
  "look_start node fresh_read st =
     (if node \<in> set (dead st) then Inl Lapsed
      else Inr (fresh_read \<or> \<not> (case bt_get (seen st) node of Some s \<Rightarrow> sn_lease s \<noteq> None | None \<Rightarrow> False)))"

definition look_note ::
  "string \<Rightarrow> nat \<Rightarrow> nat \<Rightarrow> nat \<Rightarrow> (version \<times> lease_record option) option \<Rightarrow> own_state \<Rightarrow> own_state \<times> (liveness + nat)" where
  "look_note node now asked instant got st =
     (case got of
        None \<Rightarrow> (st\<lparr>seen := bt_remove node (seen st)\<rparr>, Inl Gone)
      | Some (version, lease) \<Rightarrow>
          (st\<lparr>seen := note_seen node version instant lease (seen st)\<rparr>,
           Inr (if (case bt_get (seen st) node of Some s \<Rightarrow> sn_version s = version | None \<Rightarrow> False)
                then asked else now)))"

definition look_judge :: "lease_config \<Rightarrow> string \<Rightarrow> nat \<Rightarrow> own_state \<Rightarrow> liveness" where
  "look_judge c node now st =
     (case bt_get (seen st) node of
        None \<Rightarrow> Gone
      | Some s \<Rightarrow>
          let elapsed = now - sn_first_seen s
          in if verdict c \<le> elapsed then Lapsed
             else Live \<lparr>peer_node = node,
                        peer_addr = (case sn_lease s of Some l \<Rightarrow> lr_addr l | None \<Rightarrow> [])\<rparr>
                    (verdict c - elapsed))"

definition lease_verdict :: "liveness \<Rightarrow> (peer \<times> nat) option" where
  "lease_verdict l = (case l of Live p v \<Rightarrow> Some (p, v) | _ \<Rightarrow> None)"

definition accepting :: "string \<Rightarrow> liveness \<Rightarrow> own_state \<Rightarrow> nat option" where
  "accepting node l st =
     (case l of
        Live _ verdict_in \<Rightarrow>
          if (case bt_get (seen st) node of
                Some s \<Rightarrow> (case sn_lease s of Some lr \<Rightarrow> lr_draining lr | None \<Rightarrow> False)
              | None \<Rightarrow> False)
          then None else Some verdict_in
      | _ \<Rightarrow> None)"

subsection \<open>Claiming, changing and releasing a key\<close>

definition claim_retry :: "lease_config \<Rightarrow> nat" where
  "claim_retry c = min (sample_ms c) 1000"

text \<open>A claim needs a verdict on the owner the record names, unless it names nobody or this session.\<close>

definition claim_asks :: "string \<Rightarrow> owner_record option \<Rightarrow> string option" where
  "claim_asks me r =
     (case r of
        None \<Rightarrow> None
      | Some q \<Rightarrow> if ow_node q \<noteq> [] \<and> ow_node q \<noteq> me then Some (ow_node q) else None)"

definition claim_ready :: "lease_config \<Rightarrow> string \<Rightarrow> nat \<Rightarrow> own_state \<Rightarrow> own_state \<times> bool" where
  "claim_ready c fresh now st =
     (case authoritative_locked c fresh now st of
        (st', ok) \<Rightarrow> (st', ok \<and> \<not> s_draining (session st')))"

definition claim_record :: "string \<Rightarrow> owner_record option \<Rightarrow> owner_record" where
  "claim_record me r =
     \<lparr>ow_node = me,
      ow_epoch = (case r of Some q \<Rightarrow> ow_epoch q | None \<Rightarrow> 0),
      ow_alarms = (case r of Some q \<Rightarrow> ow_alarms q | None \<Rightarrow> []),
      ow_next_seq = None\<rparr>"

definition claim_finish ::
  "lease_config \<Rightarrow> string \<Rightarrow> nat \<Rightarrow> owner_record option \<Rightarrow> string \<Rightarrow> bool \<Rightarrow> own_state \<Rightarrow> own_state \<times> (nat, refusal) result" where
  "claim_finish c table seq prior me counted st =
     (if \<not> counted \<or> s_node (session st) \<noteq> me then (st, Inl (NotNow (claim_retry c)))
      else
        let r = claim_record me prior
        in (st\<lparr>held := bt_insert table \<lparr>h_seq = seq, h_epoch = ow_epoch r, h_alarms = ow_alarms r\<rparr> (held st),
               handed_seq :=
                 (case prior of
                    Some q \<Rightarrow>
                      (case (if ow_node q = [] then ow_next_seq q else None) of
                         Some next_seq \<Rightarrow> bt_insert table next_seq (handed_seq st)
                       | None \<Rightarrow> bt_remove table (handed_seq st))
                  | None \<Rightarrow> bt_remove table (handed_seq st))\<rparr>,
            Inr (ow_epoch r)))"

text \<open>What a change of a held key starts from: the key as it is held, and the session.\<close>

definition held_now :: "lease_config \<Rightarrow> string \<Rightarrow> nat \<Rightarrow> string \<Rightarrow> own_state \<Rightarrow> own_state \<times> (held_key \<times> string) option" where
  "held_now c fresh now key st =
     (case authoritative_locked c fresh now st of
        (st', False) \<Rightarrow> (st', None)
      | (st', True) \<Rightarrow> (st', map_option (\<lambda>h. (h, s_node (session st'))) (bt_get (held st') key)))"

definition epoch_record :: "string \<Rightarrow> nat \<Rightarrow> held_key \<Rightarrow> owner_record" where
  "epoch_record me epoch h = \<lparr>ow_node = me, ow_epoch = epoch, ow_alarms = h_alarms h, ow_next_seq = None\<rparr>"

definition epoch_finish :: "string \<Rightarrow> nat \<Rightarrow> held_key \<Rightarrow> string \<Rightarrow> bool \<Rightarrow> own_state \<Rightarrow> own_state \<times> bool" where
  "epoch_finish table epoch h me counted st =
     (if \<not> counted \<or> s_node (session st) \<noteq> me then (st\<lparr>held := bt_remove table (held st)\<rparr>, False)
      else (st\<lparr>held := bt_insert table \<lparr>h_seq = h_seq h + 1, h_epoch = epoch, h_alarms = h_alarms h\<rparr> (held st)\<rparr>, True))"

definition release_start :: "string \<Rightarrow> own_state \<Rightarrow> own_state \<times> held_key option" where
  "release_start table st = (st\<lparr>held := bt_remove table (held st)\<rparr>, bt_get (held st) table)"

definition release_record :: "nat option \<Rightarrow> held_key \<Rightarrow> owner_record" where
  "release_record next_seq h = \<lparr>ow_node = [], ow_epoch = h_epoch h, ow_alarms = h_alarms h, ow_next_seq = next_seq\<rparr>"

definition alarms_record :: "string \<Rightarrow> (string, alarm) bt \<Rightarrow> held_key \<Rightarrow> owner_record" where
  "alarms_record me alarms h = \<lparr>ow_node = me, ow_epoch = h_epoch h, ow_alarms = alarms, ow_next_seq = None\<rparr>"

definition alarms_finish ::
  "string \<Rightarrow> (string, alarm) bt \<Rightarrow> 'a \<Rightarrow> held_key \<Rightarrow> string \<Rightarrow> bool \<Rightarrow> own_state \<Rightarrow> own_state \<times> 'a alarm_update" where
  "alarms_finish key alarms out h me counted st =
     (if \<not> counted \<or> s_node (session st) \<noteq> me
      then (st\<lparr>held := bt_remove key (held st), lost := lost st @ [key]\<rparr>, NotOwner)
      else (st\<lparr>held := bt_insert key \<lparr>h_seq = h_seq h + 1, h_epoch = h_epoch h, h_alarms = alarms\<rparr> (held st)\<rparr>, Applied out))"

definition drain_start :: "own_state \<Rightarrow> own_state" where
  "drain_start st = st\<lparr>session := (session st)\<lparr>s_draining := True\<rparr>\<rparr>"

definition retire_start :: "own_state \<Rightarrow> own_state \<times> string" where
  "retire_start st =
     (let node = s_node (session st)
      in (st\<lparr>session := (session st)\<lparr>s_retired := True, s_anchor := None\<rparr>, dead := node # dead st\<rparr>, node))"

definition resolve_cached :: "string \<Rightarrow> bool \<Rightarrow> own_state \<Rightarrow> owner_record option" where
  "resolve_cached table fresh_read st =
     (case bt_get (owners st) table of Some (_, r) \<Rightarrow> if fresh_read then None else Some r | None \<Rightarrow> None)"

text \<open>The route once the record is known; \<open>Inr\<close> is the node whose liveness decides.\<close>

definition resolve_record ::
  "lease_config \<Rightarrow> string \<Rightarrow> nat \<Rightarrow> string \<Rightarrow> owner_record option \<Rightarrow> own_state \<Rightarrow> own_state \<times> (route + string)" where
  "resolve_record c fresh now table r st =
     (case r of
        None \<Rightarrow> (st, Inl Unowned)
      | Some q \<Rightarrow>
          if ow_node q = [] then (st, Inl Unowned)
          else if ow_node q = s_node (session st)
          then (case holds c fresh now table st of
                  (st', Some e) \<Rightarrow> (st', Inl (Local e))
                | (st', None) \<Rightarrow> (st', Inl Unowned))
          else (st, Inr (ow_node q)))"

definition resolve_verdict :: "liveness \<Rightarrow> route" where
  "resolve_verdict l = (case lease_verdict l of Some (p, v) \<Rightarrow> Remote p v | None \<Rightarrow> Unowned)"

subsection \<open>Placement of keys\<close>

text \<open>The hash \<open>xxh3_64\<close> is a parameter \<open>H\<close>.\<close>

definition score :: "(string \<Rightarrow> nat) \<Rightarrow> string \<Rightarrow> string \<Rightarrow> nat" where
  "score H table node = H (table @ [CHR 0x00] @ node)"

definition ranked :: "(string \<Rightarrow> nat) \<Rightarrow> string \<Rightarrow> string list \<Rightarrow> string list" where
  "ranked H key nodes = rev (sort_key (\<lambda>node. (score H key node, node)) nodes)"

definition div_ceil :: "nat \<Rightarrow> nat \<Rightarrow> nat" where
  "div_ceil a b = (a + b - 1) div b"

text \<open>The loop of \<open>place\<close>; \<open>None\<close> is the panic of its \<open>expect\<close>.\<close>

fun place_keys ::
  "(string \<Rightarrow> nat) \<Rightarrow> nat \<Rightarrow> string list \<Rightarrow> (string, nat) bt \<Rightarrow> (string, string) bt \<Rightarrow> string list \<Rightarrow> (string, string) bt option" where
  "place_keys H cap nodes load placed [] = Some placed"
| "place_keys H cap nodes load placed (key # keys) =
     (case find (\<lambda>node. the (bt_get load node) < cap) (ranked H key nodes) of
        None \<Rightarrow> None
      | Some chosen \<Rightarrow>
          place_keys H cap nodes (bt_insert chosen (the (bt_get load chosen) + 1) load)
            (bt_insert key chosen placed) keys)"

definition place :: "(string \<Rightarrow> nat) \<Rightarrow> string list \<Rightarrow> string list \<Rightarrow> (string, string) bt option" where
  "place H keys nodes =
     (if nodes = [] then Some []
      else
        let ks = remdups_adj (sort_key (\<lambda>key. (H key, key)) keys)
        in place_keys H (div_ceil (length ks) (length nodes)) nodes
             (foldl (\<lambda>m n. bt_insert n 0 m) [] nodes) [] ks)"

definition live_peers :: "lease_config \<Rightarrow> string \<Rightarrow> string \<Rightarrow> nat \<Rightarrow> own_state \<Rightarrow> own_state \<times> peer list" where
  "live_peers c addr fresh now st =
     (case authoritative_locked c fresh now st of
        (st', ok) \<Rightarrow>
          let me = s_node (session st');
              mine = (if ok \<and> \<not> s_draining (session st') then [\<lparr>peer_node = me, peer_addr = addr\<rparr>] else []);
              others = concat (map (\<lambda>(node, s).
                case sn_lease s of
                  None \<Rightarrow> []
                | Some lr \<Rightarrow>
                    if node = me \<or> node \<in> set (dead st') \<or> lr_draining lr \<or> verdict c \<le> now - sn_first_seen s
                    then [] else [\<lparr>peer_node = node, peer_addr = lr_addr lr\<rparr>]) (seen st'))
          in (st', sort_key peer_node (mine @ others)))"

text \<open>\<open>max_by_key\<close> keeps the last of several greatest elements.\<close>

fun max_by_key :: "('a \<Rightarrow> nat) \<Rightarrow> 'a list \<Rightarrow> 'a option" where
  "max_by_key f [] = None"
| "max_by_key f (x # xs) = Some (foldl (\<lambda>best y. if f best \<le> f y then y else best) x xs)"

fun min_by_key :: "('a \<Rightarrow> nat) \<Rightarrow> 'a list \<Rightarrow> 'a option" where
  "min_by_key f [] = None"
| "min_by_key f (x # xs) = Some (foldl (\<lambda>best y. if f y < f best then y else best) x xs)"

definition preferred ::
  "(string \<Rightarrow> nat) \<Rightarrow> lease_config \<Rightarrow> string \<Rightarrow> string \<Rightarrow> nat \<Rightarrow> string \<Rightarrow> own_state \<Rightarrow> own_state \<times> peer option" where
  "preferred H c addr fresh now table st =
     (case live_peers c addr fresh now st of
        (st', live) \<Rightarrow>
          (st', case bt_get (key_placement st') table of
                  Some placed \<Rightarrow>
                    if placed \<in> set live then Some placed else max_by_key (\<lambda>p. score H table (peer_node p)) live
                | None \<Rightarrow> max_by_key (\<lambda>p. score H table (peer_node p)) live))"

definition plan ::
  "(string \<Rightarrow> nat) \<Rightarrow> lease_config \<Rightarrow> string \<Rightarrow> string \<Rightarrow> nat \<Rightarrow> string list \<Rightarrow> own_state \<Rightarrow> own_state option" where
  "plan H c addr fresh now keys st =
     (case live_peers c addr fresh now st of
        (st', live) \<Rightarrow>
          let nodes = map peer_node live;
              by_node = foldl (\<lambda>m p. bt_insert (peer_node p) p m) [] live
          in map_option (\<lambda>placed.
               st'\<lparr>key_placement := concat (map (\<lambda>(key, node).
                     case bt_get by_node node of Some p \<Rightarrow> [(key, p)] | None \<Rightarrow> []) placed),
                   fair_share := (if nodes = [] then None else Some (div_ceil (length keys) (max (length nodes) 1)))\<rparr>)
             (place H keys nodes))"

definition surplus :: "(string \<Rightarrow> nat) \<Rightarrow> string list \<Rightarrow> own_state \<Rightarrow> string option" where
  "surplus H known st =
     (let me = s_node (session st);
          mine = filter (\<lambda>key. key \<in> set known) (map fst (held st))
      in if (case fair_share st of Some n \<Rightarrow> length mine \<le> n | None \<Rightarrow> True) then None
         else min_by_key (\<lambda>key. score H key me)
           (filter (\<lambda>key. case bt_get (key_placement st) key of
                      Some p \<Rightarrow> peer_node p \<noteq> me \<and> slot (peer_node p) \<noteq> slot me
                    | None \<Rightarrow> False) mine))"

definition orphan :: "lease_config \<Rightarrow> nat \<Rightarrow> string \<Rightarrow> own_state \<Rightarrow> bool" where
  "orphan c now table st \<longleftrightarrow> \<not> bt_has (held st) table \<and>
     (case bt_get (owners st) table of
        None \<Rightarrow> True
      | Some (_, r) \<Rightarrow>
          ow_node r = [] \<or> ow_node r \<in> set (dead st) \<or>
          (case bt_get (seen st) (ow_node r) of None \<Rightarrow> True | Some s \<Rightarrow> verdict c \<le> now - sn_first_seen s))"

fun orphaned_from ::
  "(string \<Rightarrow> nat) \<Rightarrow> lease_config \<Rightarrow> string \<Rightarrow> string \<Rightarrow> nat \<Rightarrow> string \<Rightarrow> string list \<Rightarrow> own_state \<Rightarrow> own_state \<times> string list" where
  "orphaned_from H c addr fresh now me [] st = (st, [])"
| "orphaned_from H c addr fresh now me (table # tables) st =
     (if orphan c now table st
      then (case preferred H c addr fresh now table st of
              (st1, p) \<Rightarrow>
                (case orphaned_from H c addr fresh now me tables st1 of
                   (st2, out) \<Rightarrow>
                     (st2, (case p of Some q \<Rightarrow> if peer_node q = me then [table] else [] | None \<Rightarrow> []) @ out)))
      else orphaned_from H c addr fresh now me tables st)"

definition orphaned ::
  "(string \<Rightarrow> nat) \<Rightarrow> lease_config \<Rightarrow> string \<Rightarrow> string \<Rightarrow> nat \<Rightarrow> string list \<Rightarrow> own_state \<Rightarrow> own_state \<times> string list" where
  "orphaned H c addr fresh now tables st = orphaned_from H c addr fresh now (s_node (session st)) tables st"

definition predecessors :: "lease_config \<Rightarrow> string \<Rightarrow> string \<Rightarrow> nat \<Rightarrow> own_state \<Rightarrow> own_state \<times> string list" where
  "predecessors c addr fresh now st =
     (let me = s_node (session st)
      in case live_peers c addr fresh now st of
           (st', live) \<Rightarrow> (st', filter (\<lambda>node. node \<noteq> me \<and> slot node = slot me) (map peer_node live)))"

definition held_by_predecessor ::
  "lease_config \<Rightarrow> string \<Rightarrow> string \<Rightarrow> nat \<Rightarrow> string list \<Rightarrow> own_state \<Rightarrow> own_state \<times> string list" where
  "held_by_predecessor c addr fresh now tables st =
     (case predecessors c addr fresh now st of
        (st', live) \<Rightarrow>
          (st', filter (\<lambda>table. \<not> bt_has (held st') table \<and>
             (case bt_get (owners st') table of Some (_, r) \<Rightarrow> ow_node r \<in> set live | None \<Rightarrow> False)) tables))"

section \<open>Placement\<close>

lemma sort_key_unique:
  assumes "inj f" "distinct xs" "distinct ys" "set xs = set ys"
  shows "sort_key f xs = sort_key f ys"
proof -
  have "sorted (map f (sort_key f xs))" "sorted (map f (sort_key f ys))" by simp_all
  moreover have "distinct (map f (sort_key f xs))" "distinct (map f (sort_key f ys))"
    using assms by (auto simp: distinct_map inj_on_def)
  moreover have "set (map f (sort_key f xs)) = set (map f (sort_key f ys))" using assms by simp
  ultimately have "map f (sort_key f xs) = map f (sort_key f ys)" by (intro sorted_distinct_set_unique) auto
  then show ?thesis using assms(1) by (simp add: inj_map_eq_map)
qed

lemma distinct_remdups_adj_sorted: "sorted xs \<Longrightarrow> distinct (remdups_adj xs)"
  by (induction xs rule: remdups_adj.induct) (auto simp: order.antisym)

text \<open>The order in which keys are placed does not depend on how they were given.\<close>

lemma ordered_keys:
  fixes f :: "string \<Rightarrow> nat \<times> string"
  assumes "inj f"
  shows "set (remdups_adj (sort_key f keys)) = set keys" "distinct (remdups_adj (sort_key f keys))"
    "set keys = set keys' \<Longrightarrow> remdups_adj (sort_key f keys) = remdups_adj (sort_key f keys')"
proof -
  have m: "map f (remdups_adj xs) = remdups_adj (map f xs)" for xs
    using remdups_adj_map_injective [OF assms] by simp
  have d: "distinct (map f (remdups_adj (sort_key f ks)))" for ks unfolding m by (rule distinct_remdups_adj_sorted) simp
  then show "distinct (remdups_adj (sort_key f keys))" by (simp add: distinct_map)
  show s: "set (remdups_adj (sort_key f keys)) = set keys" for keys by simp
  have "sorted (map f (remdups_adj (sort_key f ks)))" for ks unfolding m by (simp add: sorted_remdups_adj)
  moreover assume "set keys = set keys'"
  ultimately have "map f (remdups_adj (sort_key f keys)) = map f (remdups_adj (sort_key f keys'))"
    using d s by (intro sorted_distinct_set_unique) auto
  then show "remdups_adj (sort_key f keys) = remdups_adj (sort_key f keys')" using assms by (simp add: inj_map_eq_map)
qed

lemma inj_tagged: "inj (\<lambda>x::string. (g x :: nat, x))"
  by (auto simp: inj_def)

lemma ranked_unique: "distinct xs \<Longrightarrow> distinct ys \<Longrightarrow> set xs = set ys \<Longrightarrow> ranked H key xs = ranked H key ys"
  unfolding ranked_def by (rule arg_cong [of _ _ rev], rule sort_key_unique [OF inj_tagged])

lemma place_keys_unique:
  assumes "distinct xs" "distinct ys" "set xs = set ys" "\<And>n. bt_get load n = bt_get load' n"
  shows "place_keys H cap xs load placed keys = place_keys H cap ys load' placed keys"
  using assms(4)
proof (induction keys arbitrary: load load' placed)
  case (Cons key keys)
  have "find (\<lambda>node. the (bt_get load node) < cap) (ranked H key xs) = find (\<lambda>node. the (bt_get load' node) < cap) (ranked H key ys)"
    using ranked_unique [OF assms(1-3)] Cons.prems by simp
  then show ?case using Cons.IH Cons.prems by (simp add: bt_simps split: option.splits)
qed simp

lemma find_member: "find P xs = Some x \<Longrightarrow> x \<in> set xs \<and> P x"
  by (induction xs) (auto split: if_splits)

text \<open>As long as the shares add up, the loop finds a node for every key.\<close>

lemma place_keys_fair:
  assumes "distinct nodes" "distinct keys" "set keys \<inter> dom (bt_get placed) = {}"
    and load: "\<And>n. n \<in> set nodes \<Longrightarrow> bt_get load n = Some (card {k. bt_get placed k = Some n})"
    and cap: "\<And>n. card {k. bt_get placed k = Some n} \<le> cap"
    and room: "(\<Sum>n \<in> set nodes. card {k. bt_get placed k = Some n}) + length keys \<le> cap * length nodes"
    and ran: "ran (bt_get placed) \<subseteq> set nodes"
  shows "\<exists>m. place_keys H cap nodes load placed keys = Some m \<and> dom (bt_get m) = dom (bt_get placed) \<union> set keys \<and>
    ran (bt_get m) \<subseteq> set nodes \<and> (\<forall>n. card {k. bt_get m k = Some n} \<le> cap)"
  using assms(2-)
proof (induction keys arbitrary: load placed)
  case (Cons key keys)
  let ?c = "\<lambda>p n. card {k. bt_get p k = Some n}"
  obtain n where n: "find (\<lambda>node. the (bt_get load node) < cap) (ranked H key nodes) = Some n"
  proof (cases "find (\<lambda>node. the (bt_get load node) < cap) (ranked H key nodes)")
    case None
    then have "cap \<le> ?c placed n" if "n \<in> set nodes" for n
      using that Cons.prems(3) by (force simp: find_None_iff ranked_def)
    then have "cap * length nodes \<le> (\<Sum>n \<in> set nodes. ?c placed n)"
      using sum_mono [of "set nodes" "\<lambda>_. cap" "?c placed"] distinct_card [OF assms(1)] by (simp add: mult.commute)
    then show ?thesis using Cons.prems(5) by simp
  qed (use that in blast)
  from find_member [OF n] have nn: "n \<in> set nodes" "?c placed n < cap"
    using Cons.prems(3) [of n] by (auto simp: ranked_def)
  let ?p = "bt_insert key n placed" and ?l = "bt_insert n (the (bt_get load n) + 1) load"
  have key: "bt_get placed key = None" using Cons.prems(2) by auto
  have fin: "finite {k. bt_get placed k = Some x}" for x
    by (rule finite_subset [OF _ finite_dom_map_of [of placed]]) auto
  have "{k. bt_get ?p k = Some x} = (if x = n then insert key {k. bt_get placed k = Some x} else {k. bt_get placed k = Some x})" for x
    using key by (auto simp: bt_simps)
  then have c: "?c ?p x = (if x = n then Suc (?c placed n) else ?c placed x)" for x
    using key fin by (simp add: card_insert_if)
  have "\<exists>m. place_keys H cap nodes ?l ?p keys = Some m \<and> dom (bt_get m) = dom (bt_get ?p) \<union> set keys \<and>
      ran (bt_get m) \<subseteq> set nodes \<and> (\<forall>n. ?c m n \<le> cap)"
  proof (rule Cons.IH)
    show "set keys \<inter> dom (bt_get ?p) = {}" using Cons.prems(1,2) by (auto simp: bt_simps split: if_splits)
    show "bt_get ?l x = Some (?c ?p x)" if "x \<in> set nodes" for x
      unfolding c using Cons.prems(3) that nn by (auto simp: bt_simps)
    show "?c ?p x \<le> cap" for x using Cons.prems(4) nn by (auto simp: c)
    have "(\<Sum>x \<in> set nodes. ?c ?p x) = Suc (\<Sum>x \<in> set nodes. ?c placed x)"
      using nn(1) by (simp add: c sum.remove)
    then show "(\<Sum>x \<in> set nodes. ?c ?p x) + length keys \<le> cap * length nodes" using Cons.prems(5) by simp
    show "ran (bt_get ?p) \<subseteq> set nodes" using Cons.prems(6) nn(1) key by (auto simp: bt_simps ran_def split: if_splits)
  qed (use Cons.prems(1) in simp)
  then show ?case using n by (auto simp: bt_simps)
qed (use assms(7) in auto)

lemma zero_load: "bt_get (foldl (\<lambda>m n. bt_insert n 0 m) m0 nodes) n = (if n \<in> set nodes then Some 0 else bt_get m0 n)"
  by (induction nodes arbitrary: m0) (auto simp: bt_simps)

lemma div_ceil_room: "0 < b \<Longrightarrow> a \<le> div_ceil a b * b"
proof -
  assume "0 < b"
  then have "a + b - 1 < ((a + b - 1) div b) * b + b" by (metis add.commute dividend_less_times_div mult.commute)
  then show ?thesis using \<open>0 < b\<close> by (simp add: div_ceil_def)
qed

text \<open>C21: Placement of keys. For distinct nodes \<open>place\<close> never panics and gives every key exactly one
  node; no node gets more than its fair share, the number of keys over the number of nodes rounded up;
  and the answer does not depend on the order in which keys and nodes are listed or on repeated keys,
  so that every process that sees the same keys and nodes places them alike.\<close>

theorem place_is_fair:
  assumes "distinct nodes" "nodes \<noteq> []"
  shows "\<exists>m. place H keys nodes = Some m \<and> dom (bt_get m) = set keys \<and> ran (bt_get m) \<subseteq> set nodes \<and>
    (\<forall>n. card {k. bt_get m k = Some n} \<le> div_ceil (card (set keys)) (length nodes)) \<and>
    (\<forall>keys' nodes'. set keys' = set keys \<longrightarrow> distinct nodes' \<longrightarrow> set nodes' = set nodes \<longrightarrow> place H keys' nodes' = Some m)"
proof -
  let ?f = "\<lambda>key. (H key, key)" and ?load = "\<lambda>nodes. foldl (\<lambda>m n. bt_insert n 0 m) [] nodes"
  let ?ks = "\<lambda>keys. remdups_adj (sort_key ?f keys)"
  have len: "length (?ks keys) = card (set keys)" using distinct_card [OF ordered_keys(2) [OF inj_tagged, of H keys]] ordered_keys(1) [OF inj_tagged, of H keys] by simp
  let ?cap = "div_ceil (length (?ks keys)) (length nodes)"
  have p: "place H keys nodes = place_keys H ?cap nodes (?load nodes) [] (?ks keys)" using assms(2) by (simp add: place_def Let_def)
  have "\<exists>m. place_keys H ?cap nodes (?load nodes) [] (?ks keys) = Some m \<and> dom (bt_get m) = dom (bt_get ([] :: (string, string) bt)) \<union> set (?ks keys) \<and>
      ran (bt_get m) \<subseteq> set nodes \<and> (\<forall>n. card {k. bt_get m k = Some n} \<le> ?cap)"
  proof (rule place_keys_fair [OF assms(1)])
    show "distinct (?ks keys)" by (rule ordered_keys(2) [OF inj_tagged])
    show "(\<Sum>n \<in> set nodes. card {k. bt_get ([] :: (string, string) bt) k = Some n}) + length (?ks keys) \<le> ?cap * length nodes"
      using div_ceil_room [of "length nodes" "length (?ks keys)"] assms(2) by simp
  qed (simp_all add: zero_load)
  then obtain m where m: "place H keys nodes = Some m" "dom (bt_get m) = set keys" "ran (bt_get m) \<subseteq> set nodes"
      "\<forall>n. card {k. bt_get m k = Some n} \<le> ?cap"
    using p ordered_keys(1) [OF inj_tagged, of H keys] by auto
  have "place H keys' nodes' = Some m" if "set keys' = set keys" "distinct nodes'" "set nodes' = set nodes" for keys' nodes'
  proof -
    have l: "length nodes' = length nodes" using that assms(1) distinct_card by metis
    have k: "?ks keys' = ?ks keys" by (rule ordered_keys(3) [OF inj_tagged that(1)])
    have "place H keys' nodes' = place_keys H ?cap nodes' (?load nodes') [] (?ks keys)"
      using assms(2) that(3) by (auto simp: place_def Let_def k l)
    also have "\<dots> = place_keys H ?cap nodes (?load nodes) [] (?ks keys)"
      by (rule place_keys_unique [OF that(2) assms(1) that(3)]) (simp add: zero_load that(3))
    finally show ?thesis using p m(1) by simp
  qed
  then show ?thesis using m by (simp add: len)
qed

theorem place_is_fair_witness:
  "\<exists>m. place length [''u'', ''t'', ''u''] [''a'', ''b''] = Some m \<and> dom (bt_get m) = {''t'', ''u''} \<and>
     place length [''t'', ''u''] [''b'', ''a''] = Some m"
proof -
  have "distinct [''a'', ''b'']" "[''a'', ''b''] \<noteq> []" by simp_all
  from place_is_fair [OF this, of length "[''u'', ''t'', ''u'']"] obtain m
    where m: "place length [''u'', ''t'', ''u''] [''a'', ''b''] = Some m" "dom (bt_get m) = set [''u'', ''t'', ''u'']"
      "\<forall>keys' nodes'. set keys' = set [''u'', ''t'', ''u''] \<longrightarrow> distinct nodes' \<longrightarrow> set nodes' = set [''a'', ''b''] \<longrightarrow>
         place length keys' nodes' = Some m" by blast
  have "place length [''t'', ''u''] [''b'', ''a''] = Some m"
    by (rule m(3) [rule_format]) auto
  moreover have "dom (bt_get m) = {''t'', ''u''}" unfolding m(2) by auto
  ultimately show ?thesis using m(1) by blast
qed

end
