(* ===== verification/Ownership_Protocol.thy ===== *)
theory Ownership_Protocol
  imports Ownership
begin

text \<open>
  The ownership protocol (\<open>crates/walleye-node/src/ownership.rs\<close>): any number of processes that run
  the handlers of \<open>Ownership\<close> concurrently against one bucket. A world is the clock, the bucket and the
  processes; an event is one call to the bucket or one section under a process's mutex (a section that
  only enters the answer of a call into the cache of records is part of the call), so that the
  handlers of one process and of different processes interleave at every such point. All processes
  measure durations alike, which is what the monotonic clocks of the code assume of each other.
  The theorem is mutual exclusion: at no instant do two processes hold one key. It needs three
  assumptions on the environment, the fields of \<open>env\<close>; for each of them a run shows that
  without it two processes can hold one key.
\<close>

section \<open>The bucket\<close>

text \<open>Objects of \<open>_walleye/nodes\<close> and \<open>_walleye/own\<close>. A put of a lease replaces it and makes a new
  version; a put of a record creates it and fails when it exists (\<open>PutMode::Create\<close>).\<close>

record bucket =
  nodes :: "(string, version \<times> lease_record) bt"
  own :: "(string \<times> nat, owner_record) bt"
  writes :: nat

definition put_lease :: "nat \<Rightarrow> lease_record \<Rightarrow> bucket \<Rightarrow> bucket" where
  "put_lease now l b = b\<lparr>nodes := bt_insert (lr_node l) ((now, writes b), l) (nodes b), writes := writes b + 1\<rparr>"

definition delete_lease :: "string \<Rightarrow> bucket \<Rightarrow> bucket" where
  "delete_lease n b = b\<lparr>nodes := bt_remove n (nodes b)\<rparr>"

definition list_versions :: "string \<Rightarrow> bucket \<Rightarrow> nat list" where
  "list_versions t b = map (\<lambda>e. snd (fst e)) (filter (\<lambda>e. fst (fst e) = t) (own b))"

definition put_record :: "string \<Rightarrow> nat \<Rightarrow> owner_record \<Rightarrow> bucket \<Rightarrow> bucket option" where
  "put_record t s r b = (if bt_has (own b) (t, s) then None else Some (b\<lparr>own := bt_insert (t, s) r (own b)\<rparr>))"

definition delete_record :: "string \<Rightarrow> nat \<Rightarrow> bucket \<Rightarrow> bucket" where
  "delete_record t s b = b\<lparr>own := bt_remove (t, s) (own b)\<rparr>"

section \<open>Handlers in flight\<close>

record renewal =
  rn_issued :: nat
  rn_lease :: lease_record
  rn_delete :: "string list"
  rn_landed :: "nat option"

datatype look =
    LookGet nat nat
  | LookGot nat nat "(version \<times> lease_record option) option"
  | LookJudge nat

datatype sampler =
    SampleList nat
  | SampleListed nat "(string, version) bt"
  | SampleBodies nat nat "(string, version) bt" "string list" "(string, lease_record option) bt"
  | SampleDelete "string list"
  | SampleNewest "(string, nat) bt"
  | SampleRecords "(string, nat) bt" "(string \<times> nat) list"

text \<open>Why a version of a record is written.\<close>

datatype change =
    Claiming "owner_record option"
  | SettingEpoch nat held_key
  | Releasing
  | ChangingAlarms "(string, alarm) bt" held_key

text \<open>The task that has the \<open>writing\<close> lock of a key: \<open>claim\<close> from \<open>read_latest\<close> on (\<open>Reading\<close> and
  \<open>Getting\<close> with the rounds left), \<open>write_version\<close> (\<open>Putting\<close> to \<open>Deleting\<close>), and the section
  after it.\<close>

datatype writer =
    Reading nat
  | Getting nat nat
  | Asking nat owner_record string
  | Looking nat owner_record string look
  | Ready nat "owner_record option" string
  | Putting change nat owner_record string
  | Listing change nat owner_record string
  | Deleting change nat owner_record string "nat list"
  | Finishing change nat owner_record string bool

record process =
  p_state :: own_state
  p_renewals :: "renewal list"
  p_looks :: "(string \<times> look) list"
  p_samplers :: "sampler list"
  p_writers :: "(string, writer) bt"
  p_retiring :: "string list"

record world =
  clock :: nat
  bucket :: bucket
  procs :: "(nat, process) bt"
  names :: "string list"
  late :: "lease_record list"

text \<open>What is assumed of the environment: a renewal that is reported written took effect within the
  skew of its issue; no session that has not counted a renewal yet has a lease old enough to be
  called dead when a sample is taken; nothing comes between the two sections of one \<open>liveness\<close>.\<close>

record env =
  timely :: bool
  prompt_start :: bool
  undisturbed :: bool

definition drop_nth :: "nat \<Rightarrow> 'a list \<Rightarrow> 'a list" where
  "drop_nth i xs = take i xs @ drop (Suc i) xs"

definition free_name :: "string \<Rightarrow> world \<Rightarrow> bool" where
  "free_name n w \<longleftrightarrow> n \<noteq> [] \<and> n \<notin> set (names w)"

text \<open>An action of process \<open>p\<close> on its own state and the bucket at the present instant. An action that
  may stand the session down is given a name nobody has used.\<close>

type_synonym action = "nat \<Rightarrow> bucket \<Rightarrow> process \<Rightarrow> (bucket \<times> process) option"

definition act :: "nat \<Rightarrow> action \<Rightarrow> world \<Rightarrow> world option" where
  "act p f w =
     (case bt_get (procs w) p of
        None \<Rightarrow> None
      | Some pr \<Rightarrow>
          (case f (clock w) (bucket w) pr of
             None \<Rightarrow> None
           | Some (b, pr') \<Rightarrow> Some (w\<lparr>bucket := b, procs := bt_insert p pr' (procs w)\<rparr>)))"

definition act_named :: "nat \<Rightarrow> string \<Rightarrow> action \<Rightarrow> world \<Rightarrow> world option" where
  "act_named p fresh f w =
     (if free_name fresh w then map_option (\<lambda>w'. w'\<lparr>names := fresh # names w'\<rparr>) (act p f w) else None)"

definition local_section :: "(nat \<Rightarrow> own_state \<Rightarrow> own_state) \<Rightarrow> action" where
  "local_section f now b pr = Some (b, pr\<lparr>p_state := f now (p_state pr)\<rparr>)"

definition check_authority :: "lease_config \<Rightarrow> string \<Rightarrow> action" where
  "check_authority c fresh = local_section (\<lambda>now st. fst (authoritative_locked c fresh now st))"

subsection \<open>Renewal\<close>

definition do_renew_begin :: "lease_config \<Rightarrow> string \<Rightarrow> string \<Rightarrow> nat \<Rightarrow> action" where
  "do_renew_begin c addr fresh wall now b pr =
     (case renew_begin c addr fresh now wall (p_state pr) of
        (st, None) \<Rightarrow> Some (b, pr\<lparr>p_state := st\<rparr>)
      | (st, Some (l, old)) \<Rightarrow>
          Some (b, pr\<lparr>p_state := st,
            p_renewals := p_renewals pr @ [\<lparr>rn_issued = now, rn_lease = l, rn_delete = old, rn_landed = None\<rparr>]\<rparr>))"

definition do_renew_delete :: "nat \<Rightarrow> action" where
  "do_renew_delete i now b pr =
     (if i < length (p_renewals pr)
      then (let r = p_renewals pr ! i
            in case rn_delete r of
                 [] \<Rightarrow> None
               | n # ns \<Rightarrow> Some (delete_lease n b, pr\<lparr>p_renewals := (p_renewals pr)[i := r\<lparr>rn_delete := ns\<rparr>]\<rparr>))
      else None)"

definition do_renew_put :: "nat \<Rightarrow> action" where
  "do_renew_put i now b pr =
     (if i < length (p_renewals pr)
      then (let r = p_renewals pr ! i
            in if rn_delete r = [] \<and> rn_landed r = None
               then Some (put_lease now (rn_lease r) b, pr\<lparr>p_renewals := (p_renewals pr)[i := r\<lparr>rn_landed := Some now\<rparr>]\<rparr>)
               else None)
      else None)"

text \<open>The put is reported written only after it took effect. A put that is given up on may still take
  effect later.\<close>

definition do_renew_finish :: "lease_config \<Rightarrow> env \<Rightarrow> nat \<Rightarrow> put_outcome \<Rightarrow> action" where
  "do_renew_finish c e i written now b pr =
     (if i < length (p_renewals pr)
      then (let r = p_renewals pr ! i
            in if rn_delete r = [] \<and>
                  (written = PutOk \<longrightarrow>
                     (case rn_landed r of None \<Rightarrow> False | Some l \<Rightarrow> timely e \<longrightarrow> l \<le> rn_issued r + skew_ms c))
               then Some (b, pr\<lparr>p_state := fst (renew_finish c (rn_issued r) (lr_node (rn_lease r)) written (p_state pr)),
                                p_renewals := drop_nth i (p_renewals pr)\<rparr>)
               else None)
      else None)"

definition given_up :: "nat \<Rightarrow> process \<Rightarrow> lease_record list" where
  "given_up i pr =
     (if i < length (p_renewals pr) \<and> rn_landed (p_renewals pr ! i) = None then [rn_lease (p_renewals pr ! i)] else [])"

subsection \<open>Sampling\<close>

definition replace_sampler :: "nat \<Rightarrow> sampler list \<Rightarrow> process \<Rightarrow> process" where
  "replace_sampler i new pr = pr\<lparr>p_samplers := take i (p_samplers pr) @ new @ drop (Suc i) (p_samplers pr)\<rparr>"

definition do_sample_begin :: action where
  "do_sample_begin now b pr = Some (b, pr\<lparr>p_samplers := p_samplers pr @ [SampleList now]\<rparr>)"

text \<open>The next call or section of a sample. \<open>ok\<close> says whether a get or delete whose failure is ignored
  succeeded.\<close>

fun sample_next :: "lease_config \<Rightarrow> bool \<Rightarrow> nat \<Rightarrow> bucket \<Rightarrow> own_state \<Rightarrow> sampler \<Rightarrow> bucket \<times> own_state \<times> sampler list" where
  "sample_next c ok now b st (SampleList asked) =
     (b, st, [SampleListed asked (map (\<lambda>(n, v, l). (n, v)) (nodes b))])"
| "sample_next c ok now b st (SampleListed asked present) =
     (b, st, [SampleBodies asked now present (sample_changed present st) []])"
| "sample_next c ok now b st (SampleBodies asked listed_at present (n # todo) bodies) =
     (b, st, [SampleBodies asked listed_at present todo
       (case bt_get (nodes b) n of
          Some (v, l) \<Rightarrow> if ok then bt_insert n (Some l) bodies else bodies
        | None \<Rightarrow> bodies)])"
| "sample_next c ok now b st (SampleBodies asked listed_at present [] bodies) =
     (case sample_leases c asked listed_at present bodies st of (st', expired) \<Rightarrow> (b, st', [SampleDelete expired]))"
| "sample_next c ok now b st (SampleDelete (n # ns)) = (if ok then delete_lease n b else b, st, [SampleDelete ns])"
| "sample_next c ok now b st (SampleDelete []) = (b, st, [SampleNewest (newest_versions (map fst (own b)))])"
| "sample_next c ok now b st (SampleNewest newest) = (b, st, [SampleRecords newest (sample_stale newest st)])"
| "sample_next c ok now b st (SampleRecords newest ((t, s) # todo)) =
     (b, (case bt_get (own b) (t, s) of Some r \<Rightarrow> remember_owner t s r st | None \<Rightarrow> st), [SampleRecords newest todo])"
| "sample_next c ok now b st (SampleRecords newest []) = (b, sample_retain newest st, [])"

definition do_sample :: "lease_config \<Rightarrow> nat \<Rightarrow> bool \<Rightarrow> action" where
  "do_sample c i ok now b pr =
     (if i < length (p_samplers pr)
      then (case sample_next c ok now b (p_state pr) (p_samplers pr ! i) of
              (b', st, new) \<Rightarrow> Some (b', (replace_sampler i new pr)\<lparr>p_state := st\<rparr>))
      else None)"

definition do_sample_error :: "nat \<Rightarrow> action" where
  "do_sample_error i now b pr = Some (b, replace_sampler i [] pr)"

subsection \<open>Looking at a lease\<close>

text \<open>The next call or section of \<open>liveness\<close>: its answer, or what is left to do.\<close>

fun look_next :: "lease_config \<Rightarrow> env \<Rightarrow> nat \<Rightarrow> bucket \<Rightarrow> string \<Rightarrow> own_state \<Rightarrow> look \<Rightarrow> own_state \<times> (liveness + look)" where
  "look_next c e now b n st (LookGet t0 asked) =
     (st, Inr (LookGot t0 asked (map_option (\<lambda>(v, l). (v, Some l)) (bt_get (nodes b) n))))"
| "look_next c e now b n st (LookGot t0 asked got) =
     (case look_note n t0 asked now got st of
        (st', Inl l) \<Rightarrow> (st', Inl l)
      | (st', Inr t) \<Rightarrow> (st', if undisturbed e then Inl (look_judge c n t st') else Inr (LookJudge t)))"
| "look_next c e now b n st (LookJudge t) = (st, Inl (look_judge c n t st))"

definition replace_look :: "nat \<Rightarrow> (string \<times> look) list \<Rightarrow> process \<Rightarrow> process" where
  "replace_look i new pr = pr\<lparr>p_looks := take i (p_looks pr) @ new @ drop (Suc i) (p_looks pr)\<rparr>"

text \<open>\<open>liveness\<close> as called by \<open>resolve\<close> and \<open>accepting\<close>, whose answers go to callers outside the
  protocol.\<close>

definition do_look_begin :: "string \<Rightarrow> bool \<Rightarrow> action" where
  "do_look_begin n fresh_read now b pr =
     (case look_start n fresh_read (p_state pr) of
        Inl _ \<Rightarrow> Some (b, pr)
      | Inr get \<Rightarrow> Some (b, pr\<lparr>p_looks := p_looks pr @ [(n, if get then LookGet now now else LookJudge now)]\<rparr>))"

definition do_look :: "lease_config \<Rightarrow> env \<Rightarrow> nat \<Rightarrow> action" where
  "do_look c e i now b pr =
     (if i < length (p_looks pr)
      then (case p_looks pr ! i of (n, lk) \<Rightarrow>
              (case look_next c e now b n (p_state pr) lk of
                 (st, Inl _) \<Rightarrow> Some (b, (replace_look i [] pr)\<lparr>p_state := st\<rparr>)
               | (st, Inr lk') \<Rightarrow> Some (b, (replace_look i [(n, lk')] pr)\<lparr>p_state := st\<rparr>)))
      else None)"

definition do_look_error :: "nat \<Rightarrow> action" where
  "do_look_error i now b pr = Some (b, replace_look i [] pr)"

subsection \<open>Writing a record\<close>

definition set_writer :: "string \<Rightarrow> writer option \<Rightarrow> process \<Rightarrow> process" where
  "set_writer t wr pr =
     pr\<lparr>p_writers := (case wr of Some x \<Rightarrow> bt_insert t x (p_writers pr) | None \<Rightarrow> bt_remove t (p_writers pr))\<rparr>"

text \<open>The first section of each handler, once it has the lock of the key.\<close>

definition do_claim :: "lease_config \<Rightarrow> string \<Rightarrow> string \<Rightarrow> action" where
  "do_claim c fresh t now b pr =
     (if bt_has (p_writers pr) t then None
      else case holds c fresh now t (p_state pr) of
          (st, Some _) \<Rightarrow> Some (b, pr\<lparr>p_state := st\<rparr>)
        | (st, None) \<Rightarrow> Some (b, set_writer t (Some (Reading 4)) (pr\<lparr>p_state := st\<rparr>)))"

definition do_set_epoch :: "lease_config \<Rightarrow> string \<Rightarrow> string \<Rightarrow> nat \<Rightarrow> action" where
  "do_set_epoch c fresh t epoch now b pr =
     (if bt_has (p_writers pr) t then None
      else case held_now c fresh now t (p_state pr) of
          (st, None) \<Rightarrow> Some (b, pr\<lparr>p_state := st\<rparr>)
        | (st, Some (h, me)) \<Rightarrow>
            if h_epoch h = epoch then Some (b, pr\<lparr>p_state := st\<rparr>)
            else Some (b, set_writer t (Some (Putting (SettingEpoch epoch h) (h_seq h + 1) (epoch_record me epoch h) me))
                            (pr\<lparr>p_state := st\<rparr>)))"

definition do_release :: "string \<Rightarrow> nat option \<Rightarrow> action" where
  "do_release t next_seq now b pr =
     (if bt_has (p_writers pr) t then None
      else case release_start t (p_state pr) of
          (st, None) \<Rightarrow> Some (b, pr\<lparr>p_state := st\<rparr>)
        | (st, Some h) \<Rightarrow>
            Some (b, set_writer t (Some (Putting Releasing (h_seq h + 1) (release_record next_seq h) (s_node (session st))))
                       (pr\<lparr>p_state := st\<rparr>)))"

definition do_update_alarms ::
  "lease_config \<Rightarrow> string \<Rightarrow> string \<Rightarrow> ((string, alarm) bt \<Rightarrow> (string, alarm) bt option) \<Rightarrow> action" where
  "do_update_alarms c fresh t change now b pr =
     (if bt_has (p_writers pr) t then None
      else case held_now c fresh now t (p_state pr) of
          (st, None) \<Rightarrow> Some (b, pr\<lparr>p_state := st\<rparr>)
        | (st, Some (h, me)) \<Rightarrow>
            (case change (h_alarms h) of
               None \<Rightarrow> Some (b, pr\<lparr>p_state := st\<rparr>)
             | Some al \<Rightarrow>
                 Some (b, set_writer t (Some (Putting (ChangingAlarms al h) (h_seq h + 1) (alarms_record me al h) me))
                            (pr\<lparr>p_state := st\<rparr>))))"

text \<open>The last section.\<close>

fun write_finish :: "lease_config \<Rightarrow> string \<Rightarrow> change \<Rightarrow> nat \<Rightarrow> string \<Rightarrow> bool \<Rightarrow> own_state \<Rightarrow> own_state" where
  "write_finish c t (Claiming prior) s me counted st = fst (claim_finish c t s prior me counted st)"
| "write_finish c t (SettingEpoch epoch h) s me counted st = fst (epoch_finish t epoch h me counted st)"
| "write_finish c t Releasing s me counted st = st"
| "write_finish c t (ChangingAlarms al h) s me counted st = fst (alarms_finish t al () h me counted st)"

text \<open>The next call or section of the task that has the lock of \<open>t\<close>, apart from the authority check of
  \<open>claim\<close>. A claim ends where the owner is live and where the record kept moving.\<close>

fun write_next ::
  "lease_config \<Rightarrow> env \<Rightarrow> bool \<Rightarrow> nat \<Rightarrow> bucket \<Rightarrow> string \<Rightarrow> own_state \<Rightarrow> writer \<Rightarrow> (bucket \<times> own_state \<times> writer option) option" where
  "write_next c e ok now b t st (Reading 0) = Some (b, st, None)"
| "write_next c e ok now b t st (Reading (Suc k)) =
     (let s = latest_seq (list_versions t b)
      in Some (if s = 0 then (b, forget_owner t st, Some (Ready 0 None (s_node (session st))))
               else (b, st, Some (Getting k s))))"
| "write_next c e ok now b t st (Getting k s) =
     Some (case bt_get (own b) (t, s) of
        None \<Rightarrow> (b, st, Some (Reading k))
      | Some r \<Rightarrow>
          let me = s_node (session st)
          in (b, remember_owner t s r st,
              Some (if claim_asks me (Some r) = None then Ready s (Some r) me else Asking s r me)))"
| "write_next c e ok now b t st (Asking s r me) =
     Some (b, st, Some (case look_start (ow_node r) True st of
        Inl _ \<Rightarrow> Ready s (Some r) me
      | Inr _ \<Rightarrow> Looking s r me (LookGet now now)))"
| "write_next c e ok now b t st (Looking s r me lk) =
     Some (case look_next c e now b (ow_node r) st lk of
        (st', Inl l) \<Rightarrow> (b, st', if lease_verdict l = None then Some (Ready s (Some r) me) else None)
      | (st', Inr lk') \<Rightarrow> (b, st', Some (Looking s r me lk')))"
| "write_next c e ok now b t st (Ready s r me) = None"
| "write_next c e ok now b t st (Putting ch s r me) =
     Some (case put_record t s r b of
        None \<Rightarrow> (b, st, Some (Finishing ch s r me False))
      | Some b' \<Rightarrow> (b', st, Some (Listing ch s r me)))"
| "write_next c e ok now b t st (Listing ch s r me) =
     (let vs = list_versions t b
      in Some (b, st, Some (if write_counts vs s then Deleting ch s r me (collected vs s) else Finishing ch s r me False)))"
| "write_next c e ok now b t st (Deleting ch s r me (v # vs)) =
     Some (if ok then delete_record t v b else b, st, Some (Deleting ch s r me vs))"
| "write_next c e ok now b t st (Deleting ch s r me []) =
     Some (b, remember_owner t s r st, Some (Finishing ch s r me True))"
| "write_next c e ok now b t st (Finishing ch s r me counted) =
     Some (b, write_finish c t ch s me counted st, None)"

definition do_write :: "lease_config \<Rightarrow> env \<Rightarrow> string \<Rightarrow> bool \<Rightarrow> action" where
  "do_write c e t ok now b pr =
     (case bt_get (p_writers pr) t of
        None \<Rightarrow> None
      | Some wr \<Rightarrow>
          (case write_next c e ok now b t (p_state pr) wr of
             None \<Rightarrow> None
           | Some (b', st, wr') \<Rightarrow> Some (b', set_writer t wr' (pr\<lparr>p_state := st\<rparr>))))"

definition do_claim_ready :: "lease_config \<Rightarrow> string \<Rightarrow> string \<Rightarrow> action" where
  "do_claim_ready c fresh t now b pr =
     (case bt_get (p_writers pr) t of
        Some (Ready s r me) \<Rightarrow>
          (case claim_ready c fresh now (p_state pr) of
             (st, ok) \<Rightarrow>
               Some (b, set_writer t (if ok then Some (Putting (Claiming r) (s + 1) (claim_record me r) me) else None)
                          (pr\<lparr>p_state := st\<rparr>)))
      | _ \<Rightarrow> None)"

text \<open>A call to the bucket that fails, or a handler that is dropped while it waits for one. A put that
  took effect although its caller got an error is an error at \<open>Listing\<close>.\<close>

fun waits :: "writer \<Rightarrow> bool" where
  "waits (Reading _) = True"
| "waits (Getting _ _) = True"
| "waits (Looking _ _ _ _) = True"
| "waits (Putting _ _ _ _) = True"
| "waits (Listing _ _ _ _) = True"
| "waits (Deleting _ _ _ _ _) = True"
| "waits _ = False"

definition do_write_error :: "string \<Rightarrow> action" where
  "do_write_error t now b pr =
     (case bt_get (p_writers pr) t of
        Some wr \<Rightarrow> if waits wr then Some (b, set_writer t None pr) else None
      | None \<Rightarrow> None)"

subsection \<open>Handlers that touch no ownership\<close>

definition do_take_lost :: action where
  "do_take_lost = local_section (\<lambda>now st. fst (take_lost st))"

definition do_take_handed_seq :: "string \<Rightarrow> action" where
  "do_take_handed_seq t = local_section (\<lambda>now st. fst (take_handed_seq t st))"

definition do_plan :: "(string \<Rightarrow> nat) \<Rightarrow> lease_config \<Rightarrow> string \<Rightarrow> string \<Rightarrow> string list \<Rightarrow> action" where
  "do_plan H c addr fresh keys now b pr =
     map_option (\<lambda>st. (b, pr\<lparr>p_state := st\<rparr>)) (plan H c addr fresh now keys (p_state pr))"

text \<open>The calls of \<open>read_latest\<close> and \<open>read_version\<close> that \<open>resolve\<close> makes, with what they enter into the
  cache of records. Any version may be read at any time.\<close>

definition do_list_versions :: "string \<Rightarrow> action" where
  "do_list_versions t now b pr =
     Some (b, if latest_seq (list_versions t b) = 0 then pr\<lparr>p_state := forget_owner t (p_state pr)\<rparr> else pr)"

definition do_read_version :: "string \<Rightarrow> nat \<Rightarrow> action" where
  "do_read_version t s now b pr =
     Some (b, case bt_get (own b) (t, s) of
                Some r \<Rightarrow> pr\<lparr>p_state := remember_owner t s r (p_state pr)\<rparr>
              | None \<Rightarrow> pr)"

subsection \<open>Stopping\<close>

definition do_retire :: action where
  "do_retire now b pr =
     (case retire_start (p_state pr) of (st, n) \<Rightarrow> Some (b, pr\<lparr>p_state := st, p_retiring := n # p_retiring pr\<rparr>))"

definition do_retire_delete :: action where
  "do_retire_delete now b pr =
     (case p_retiring pr of [] \<Rightarrow> None | n # ns \<Rightarrow> Some (delete_lease n b, pr\<lparr>p_retiring := ns\<rparr>))"

section \<open>Events and runs\<close>

definition new_process :: "string \<Rightarrow> nat \<Rightarrow> process" where
  "new_process n now =
     \<lparr>p_state = new_state n now, p_renewals = [], p_looks = [], p_samplers = [], p_writers = [], p_retiring = []\<rparr>"

text \<open>\<open>n\<close> is the session process \<open>pr\<close> acts for.\<close>

definition current :: "process \<Rightarrow> string \<Rightarrow> bool" where
  "current pr n \<longleftrightarrow> s_node (session (p_state pr)) = n \<and> \<not> s_retired (session (p_state pr))"

definition starts_promptly :: "lease_config \<Rightarrow> world \<Rightarrow> bool" where
  "starts_promptly c w \<longleftrightarrow>
     list_all (\<lambda>(n, v, l). list_all (\<lambda>(p, pr).
        current pr n \<and> s_anchor (session (p_state pr)) = None \<longrightarrow> clock w < fst v + verdict c) (procs w)) (nodes (bucket w))"

definition is_listing :: "nat \<Rightarrow> process \<Rightarrow> bool" where
  "is_listing i pr \<longleftrightarrow> i < length (p_samplers pr) \<and> (case p_samplers pr ! i of SampleList _ \<Rightarrow> True | _ \<Rightarrow> False)"

datatype event =
    Tick nat
  | Start nat string
  | Check nat string
  | RenewBegin nat string string nat
  | RenewDelete nat nat
  | RenewPut nat nat
  | RenewFinish nat nat put_outcome
  | LateLand nat
  | SampleBegin nat
  | Sample nat nat bool
  | SampleError nat nat
  | LookBegin nat string bool
  | Look nat nat
  | LookError nat nat
  | Claim nat string string
  | SetEpoch nat string string nat
  | Release nat string "nat option"
  | UpdateAlarms nat string string "(string, alarm) bt \<Rightarrow> (string, alarm) bt option"
  | ClaimReady nat string string
  | Write nat string bool
  | WriteError nat string
  | Drain nat
  | Retire nat
  | RetireDelete nat
  | TakeLost nat
  | TakeHandedSeq nat string
  | Plan nat string "string \<Rightarrow> nat" string "string list"
  | ListVersions nat string
  | ReadVersion nat string nat

definition own_event :: "lease_config \<Rightarrow> env \<Rightarrow> event \<Rightarrow> world \<Rightarrow> world option" where
  "own_event c e ev w =
     (case ev of
        Tick d \<Rightarrow> Some (w\<lparr>clock := clock w + d\<rparr>)
      | Start p n \<Rightarrow>
          if free_name n w \<and> \<not> bt_has (procs w) p
          then Some (w\<lparr>procs := bt_insert p (new_process n (clock w)) (procs w), names := n # names w\<rparr>) else None
      | Check p fresh \<Rightarrow> act_named p fresh (check_authority c fresh) w
      | RenewBegin p fresh addr wall \<Rightarrow> act_named p fresh (do_renew_begin c addr fresh wall) w
      | RenewDelete p i \<Rightarrow> act p (do_renew_delete i) w
      | RenewPut p i \<Rightarrow> act p (do_renew_put i) w
      | RenewFinish p i written \<Rightarrow>
          map_option (\<lambda>w'. w'\<lparr>late := late w' @ (case bt_get (procs w) p of Some pr \<Rightarrow> given_up i pr | None \<Rightarrow> [])\<rparr>)
            (act p (do_renew_finish c e i written) w)
      | LateLand i \<Rightarrow>
          if i < length (late w)
          then Some (w\<lparr>bucket := put_lease (clock w) (late w ! i) (bucket w), late := drop_nth i (late w)\<rparr>) else None
      | SampleBegin p \<Rightarrow> act p do_sample_begin w
      | Sample p i ok \<Rightarrow>
          if prompt_start e \<and> (case bt_get (procs w) p of Some pr \<Rightarrow> is_listing i pr | None \<Rightarrow> False) \<and> \<not> starts_promptly c w then None
          else act p (do_sample c i ok) w
      | SampleError p i \<Rightarrow> act p (do_sample_error i) w
      | LookBegin p n fresh_read \<Rightarrow> act p (do_look_begin n fresh_read) w
      | Look p i \<Rightarrow> act p (do_look c e i) w
      | LookError p i \<Rightarrow> act p (do_look_error i) w
      | Claim p fresh t \<Rightarrow> act_named p fresh (do_claim c fresh t) w
      | SetEpoch p fresh t epoch \<Rightarrow> act_named p fresh (do_set_epoch c fresh t epoch) w
      | Release p t next_seq \<Rightarrow> act p (do_release t next_seq) w
      | UpdateAlarms p fresh t change \<Rightarrow> act_named p fresh (do_update_alarms c fresh t change) w
      | ClaimReady p fresh t \<Rightarrow> act_named p fresh (do_claim_ready c fresh t) w
      | Write p t ok \<Rightarrow> act p (do_write c e t ok) w
      | WriteError p t \<Rightarrow> act p (do_write_error t) w
      | Drain p \<Rightarrow> act p (local_section (\<lambda>now. drain_start)) w
      | Retire p \<Rightarrow> act p do_retire w
      | RetireDelete p \<Rightarrow> act p do_retire_delete w
      | TakeLost p \<Rightarrow> act p do_take_lost w
      | TakeHandedSeq p t \<Rightarrow> act p (do_take_handed_seq t) w
      | Plan p fresh H addr keys \<Rightarrow> act_named p fresh (do_plan H c addr fresh keys) w
      | ListVersions p t \<Rightarrow> act p (do_list_versions t) w
      | ReadVersion p t s \<Rightarrow> act p (do_read_version t s) w)"

definition empty_world :: world where
  "empty_world = \<lparr>clock = 0, bucket = \<lparr>nodes = [], own = [], writes = 0\<rparr>, procs = [], names = [], late = []\<rparr>"

fun own_run :: "lease_config \<Rightarrow> env \<Rightarrow> event list \<Rightarrow> world \<Rightarrow> world option" where
  "own_run c e [] w = Some w"
| "own_run c e (ev # evs) w = (case own_event c e ev w of None \<Rightarrow> None | Some w' \<Rightarrow> own_run c e evs w')"

definition holds_key :: "lease_config \<Rightarrow> world \<Rightarrow> nat \<Rightarrow> string \<Rightarrow> nat option" where
  "holds_key c w p t =
     (case bt_get (procs w) p of None \<Rightarrow> None | Some pr \<Rightarrow> snd (holds c [] (clock w) t (p_state pr)))"

end
