(* ===== verification/Ownership_Invariant.thy ===== *)
theory Ownership_Invariant
  imports Ownership_Protocol
begin

text \<open>
  The invariant of the ownership protocol and that every event keeps it. A session is \<open>spent\<close> when
  nothing it counted or has in flight can make it act again; \<open>verdict_spent\<close> and \<open>gone_spent\<close> say
  that what the code takes for a dead session is spent, \<open>put_inv\<close> that a new version of a
  record only displaces a session that is spent, gave the key up or is the writer's own. Worlds
  only get later (\<open>later\<close>): what is spent stays spent. One lemma per event, then the run.
\<close>

section \<open>Specification\<close>

abbreviation sess :: "process \<Rightarrow> lease_session" where
  "sess pr \<equiv> session (p_state pr)"

text \<open>A renewal that may still be counted. \<open>over_in\<close>: the session of \<open>pr\<close> counted nothing issued
  after \<open>L\<close>, its authority from up to \<open>L\<close> has run out, and what is in flight cannot extend it.\<close>

definition countable :: "lease_config \<Rightarrow> nat \<Rightarrow> renewal \<Rightarrow> bool" where
  "countable c now r \<longleftrightarrow> (case rn_landed r of None \<Rightarrow> now | Some l \<Rightarrow> l) \<le> rn_issued r + skew_ms c"

definition over_in :: "lease_config \<Rightarrow> nat \<Rightarrow> nat \<Rightarrow> process \<Rightarrow> string \<Rightarrow> bool" where
  "over_in c now L pr n \<longleftrightarrow> (\<exists>a. s_anchor (sess pr) = Some a \<and> a \<le> L) \<and> L + ttl_ms c \<le> now \<and>
     (\<forall>r \<in> set (p_renewals pr). lr_node (rn_lease r) = n \<longrightarrow> countable c now r \<longrightarrow>
        rn_issued r \<le> L \<or> L + ttl_ms c \<le> rn_issued r)"

text \<open>Nobody will ever act for session \<open>n\<close> again.\<close>

definition spent :: "lease_config \<Rightarrow> world \<Rightarrow> string \<Rightarrow> bool" where
  "spent c w n \<longleftrightarrow> n \<in> set (names w) \<and>
     (\<forall>p pr. bt_get (procs w) p = Some pr \<longrightarrow> current pr n \<longrightarrow> (\<exists>L. over_in c (clock w) L pr n))"

definition anchored :: "world \<Rightarrow> string \<Rightarrow> bool" where
  "anchored w n \<longleftrightarrow> n \<in> set (names w) \<and>
     (\<forall>p pr. bt_get (procs w) p = Some pr \<longrightarrow> current pr n \<longrightarrow> s_anchor (sess pr) \<noteq> None)"

definition nobody :: "world \<Rightarrow> string \<Rightarrow> bool" where
  "nobody w n \<longleftrightarrow> n \<in> set (names w) \<and> (\<forall>p pr. bt_get (procs w) p = Some pr \<longrightarrow> s_node (sess pr) \<noteq> n)"

definition newest :: "bucket \<Rightarrow> string \<Rightarrow> nat" where
  "newest b t = latest_seq (list_versions t b)"

definition newest_owner :: "bucket \<Rightarrow> string \<Rightarrow> string" where
  "newest_owner b t = (case bt_get (own b) (t, newest b t) of Some r \<Rightarrow> ow_node r | None \<Rightarrow> [])"

definition look_inv :: "lease_config \<Rightarrow> world \<Rightarrow> look \<Rightarrow> bool" where
  "look_inv c w lk \<longleftrightarrow>
     (case lk of
        LookGet t0 asked \<Rightarrow> t0 \<le> asked \<and> asked \<le> clock w
      | LookGot t0 asked got \<Rightarrow> t0 \<le> asked \<and> asked \<le> clock w \<and> (\<forall>v l. got = Some (v, l) \<longrightarrow> fst v \<le> clock w)
      | LookJudge t0 \<Rightarrow> t0 \<le> clock w)"

text \<open>What a claim has learnt of the owner \<open>n\<close>.\<close>

definition claim_look :: "lease_config \<Rightarrow> world \<Rightarrow> string \<Rightarrow> look \<Rightarrow> bool" where
  "claim_look c w n lk \<longleftrightarrow>
     (case lk of
        LookGet _ _ \<Rightarrow> True
      | LookGot _ asked got \<Rightarrow>
          (case got of None \<Rightarrow> spent c w n | Some (v, _) \<Rightarrow> fst v + verdict c \<le> asked \<longrightarrow> spent c w n)
      | LookJudge _ \<Rightarrow> False)"

definition listed_inv :: "lease_config \<Rightarrow> world \<Rightarrow> nat \<Rightarrow> nat \<Rightarrow> (string, version) bt \<Rightarrow> bool" where
  "listed_inv c w asked at present \<longleftrightarrow> asked \<le> at \<and> at \<le> clock w \<and> distinct (map fst present) \<and>
     (\<forall>(n, v) \<in> set present. fst v \<le> at \<and> (fst v + verdict c \<le> asked \<longrightarrow> spent c w n))"

definition sampler_inv :: "lease_config \<Rightarrow> world \<Rightarrow> sampler \<Rightarrow> bool" where
  "sampler_inv c w sa \<longleftrightarrow>
     (case sa of
        SampleList asked \<Rightarrow> asked \<le> clock w
      | SampleListed asked present \<Rightarrow> listed_inv c w asked (clock w) present
      | SampleBodies asked at present _ _ \<Rightarrow> listed_inv c w asked at present
      | SampleDelete ns \<Rightarrow> (\<forall>n \<in> set ns. spent c w n)
      | _ \<Rightarrow> True)"

definition base_inv :: "lease_config \<Rightarrow> world \<Rightarrow> process \<Rightarrow> bool" where
  "base_inv c w pr \<longleftrightarrow>
     s_node (sess pr) \<in> set (names w) \<and>
     (\<forall>a. s_anchor (sess pr) = Some a \<longrightarrow> a \<le> clock w) \<and>
     (s_anchor (sess pr) = None \<longrightarrow> \<not> s_retired (sess pr) \<longrightarrow> held (p_state pr) = []) \<and>
     bt_wf (seen (p_state pr)) \<and>
     (\<forall>n s. bt_get (seen (p_state pr)) n = Some s \<longrightarrow> fst (sn_version s) \<le> sn_first_seen s) \<and>
     (\<forall>r \<in> set (p_renewals pr). rn_issued r \<le> clock w \<and> lr_node (rn_lease r) \<in> set (names w) \<and>
        (\<forall>n \<in> set (rn_delete r). spent c w n)) \<and>
     (\<forall>n \<in> set (dead (p_state pr)) \<union> set (abandoned (p_state pr)) \<union> set (p_retiring pr). spent c w n) \<and>
     (\<forall>(n, lk) \<in> set (p_looks pr). look_inv c w lk) \<and>
     (\<forall>sa \<in> set (p_samplers pr). sampler_inv c w sa)"

text \<open>The lease of a session that may still act is in the bucket, and it is no older than what the
  session counted or may count.\<close>

definition stamps :: "process \<Rightarrow> nat set" where
  "stamps pr = {a. s_anchor (sess pr) = Some a} \<union>
     {rn_issued r |r. r \<in> set (p_renewals pr) \<and> lr_node (rn_lease r) = s_node (sess pr) \<and> rn_landed r \<noteq> None}"

definition lease_inv :: "lease_config \<Rightarrow> world \<Rightarrow> process \<Rightarrow> bool" where
  "lease_inv c w pr \<longleftrightarrow> (let n = s_node (sess pr) in
     current pr n \<longrightarrow> spent c w n \<or>
     (\<forall>x \<in> stamps pr. \<exists>l k b. bt_get (nodes (bucket w)) n = Some ((l, k), b) \<and> x \<le> l))"

definition yields :: "lease_config \<Rightarrow> world \<Rightarrow> string \<Rightarrow> string \<Rightarrow> bool" where
  "yields c w me n \<longleftrightarrow> n = [] \<or> n = me \<or> spent c w n"

definition me_ok :: "world \<Rightarrow> process \<Rightarrow> string \<Rightarrow> string \<Rightarrow> bool" where
  "me_ok w pr t me \<longleftrightarrow> me \<in> set (names w) \<and>
     (me = s_node (sess pr) \<or> nobody w me \<and> bt_get (held (p_state pr)) t = None)"

definition read_ok :: "world \<Rightarrow> string \<Rightarrow> nat \<Rightarrow> owner_record option \<Rightarrow> bool" where
  "read_ok w t s ro \<longleftrightarrow> s \<le> newest (bucket w) t \<and>
     (newest (bucket w) t = s \<longrightarrow> bt_get (own (bucket w)) (t, s) = ro) \<and>
     (\<forall>r. ro = Some r \<longrightarrow> ow_node r \<noteq> [] \<longrightarrow> anchored w (ow_node r))"

definition matches :: "owner_record \<Rightarrow> string \<Rightarrow> held_key \<Rightarrow> bool" where
  "matches r me h \<longleftrightarrow> ow_node r = me \<and> ow_epoch r = h_epoch h \<and> ow_alarms r = h_alarms h"

text \<open>What is written, for each reason to write.\<close>

definition change_ok :: "process \<Rightarrow> string \<Rightarrow> change \<Rightarrow> nat \<Rightarrow> owner_record \<Rightarrow> string \<Rightarrow> bool" where
  "change_ok pr t ch s r me \<longleftrightarrow>
     (case ch of
        Claiming prior \<Rightarrow> r = claim_record me prior
      | SettingEpoch epoch h \<Rightarrow> r = epoch_record me epoch h \<and> s = h_seq h + 1
      | Releasing \<Rightarrow> ow_node r = [] \<and> bt_get (held (p_state pr)) t = None
      | ChangingAlarms al h \<Rightarrow> r = alarms_record me al h \<and> s = h_seq h + 1)"

definition starts_from :: "bucket \<Rightarrow> string \<Rightarrow> change \<Rightarrow> nat \<Rightarrow> string \<Rightarrow> bool" where
  "starts_from b t ch s me \<longleftrightarrow>
     (case ch of
        SettingEpoch _ h \<Rightarrow> (\<exists>r. bt_get (own b) (t, s) = Some r \<and> matches r me h)
      | ChangingAlarms _ h \<Rightarrow> (\<exists>r. bt_get (own b) (t, s) = Some r \<and> matches r me h)
      | _ \<Rightarrow> True)"

definition write_ok :: "world \<Rightarrow> process \<Rightarrow> string \<Rightarrow> change \<Rightarrow> nat \<Rightarrow> owner_record \<Rightarrow> string \<Rightarrow> bool" where
  "write_ok w pr t ch s r me \<longleftrightarrow> 0 < s \<and> me_ok w pr t me \<and> anchored w me \<and> change_ok pr t ch s r me"

definition written :: "lease_config \<Rightarrow> world \<Rightarrow> string \<Rightarrow> change \<Rightarrow> nat \<Rightarrow> owner_record \<Rightarrow> string \<Rightarrow> bool" where
  "written c w t ch s r me \<longleftrightarrow> s \<le> newest (bucket w) t \<and>
     (newest (bucket w) t = s \<longrightarrow> bt_get (own (bucket w)) (t, s) = Some r) \<and>
     (ch \<noteq> Releasing \<longrightarrow> spent c w me \<or> newest_owner (bucket w) t = me)"

definition writer_inv :: "lease_config \<Rightarrow> world \<Rightarrow> process \<Rightarrow> string \<Rightarrow> writer \<Rightarrow> bool" where
  "writer_inv c w pr t wr \<longleftrightarrow>
     (case wr of
        Reading _ \<Rightarrow> True
      | Getting _ s \<Rightarrow> 0 < s \<and> s \<le> newest (bucket w) t
      | Asking s r me \<Rightarrow> read_ok w t s (Some r) \<and> me_ok w pr t me \<and> ow_node r \<noteq> []
      | Looking s r me lk \<Rightarrow>
          read_ok w t s (Some r) \<and> me_ok w pr t me \<and> ow_node r \<noteq> [] \<and> look_inv c w lk \<and> claim_look c w (ow_node r) lk
      | Ready s ro me \<Rightarrow> read_ok w t s ro \<and> me_ok w pr t me \<and> (\<forall>r. ro = Some r \<longrightarrow> yields c w me (ow_node r))
      | Putting ch s r me \<Rightarrow> write_ok w pr t ch s r me \<and> s \<le> Suc (newest (bucket w) t) \<and>
          (s = Suc (newest (bucket w) t) \<longrightarrow>
             yields c w me (newest_owner (bucket w) t) \<and> starts_from (bucket w) t ch (newest (bucket w) t) me)
      | Listing ch s r me \<Rightarrow> write_ok w pr t ch s r me \<and> s \<le> newest (bucket w) t \<and>
          (newest (bucket w) t = s \<longrightarrow> bt_get (own (bucket w)) (t, s) = Some r)
      | Deleting ch s r me vs \<Rightarrow> write_ok w pr t ch s r me \<and> written c w t ch s r me \<and> (\<forall>v \<in> set vs. v < s)
      | Finishing ch s r me counted \<Rightarrow> write_ok w pr t ch s r me \<and> (counted \<longrightarrow> written c w t ch s r me))"

definition held_inv :: "lease_config \<Rightarrow> world \<Rightarrow> process \<Rightarrow> string \<Rightarrow> held_key \<Rightarrow> bool" where
  "held_inv c w pr t h \<longleftrightarrow> (let me = s_node (sess pr) in
     h_seq h \<le> newest (bucket w) t \<and>
     (newest (bucket w) t = h_seq h \<longrightarrow> (\<exists>r. bt_get (own (bucket w)) (t, h_seq h) = Some r \<and> matches r me h)) \<and>
     (current pr me \<longrightarrow> spent c w me \<or> newest_owner (bucket w) t = me))"

definition key_inv :: "lease_config \<Rightarrow> world \<Rightarrow> process \<Rightarrow> bool" where
  "key_inv c w pr \<longleftrightarrow>
     (\<forall>t wr. bt_get (p_writers pr) t = Some wr \<longrightarrow> writer_inv c w pr t wr) \<and>
     (\<forall>t h. bt_get (held (p_state pr)) t = Some h \<longrightarrow> held_inv c w pr t h)"

definition bucket_inv :: "world \<Rightarrow> bool" where
  "bucket_inv w \<longleftrightarrow> bt_wf (nodes (bucket w)) \<and>
     (\<forall>n v l. bt_get (nodes (bucket w)) n = Some (v, l) \<longrightarrow> n \<in> set (names w) \<and> fst v \<le> clock w) \<and>
     (\<forall>l \<in> set (late w). lr_node l \<in> set (names w)) \<and>
     (\<forall>t s r. bt_get (own (bucket w)) (t, s) = Some r \<longrightarrow> 0 < s \<and> (ow_node r \<noteq> [] \<longrightarrow> anchored w (ow_node r)))"

definition names_inv :: "world \<Rightarrow> bool" where
  "names_inv w \<longleftrightarrow> [] \<notin> set (names w) \<and>
     (\<forall>p q pr qr. bt_get (procs w) p = Some pr \<longrightarrow> bt_get (procs w) q = Some qr \<longrightarrow>
        s_node (sess pr) = s_node (sess qr) \<longrightarrow> p = q)"

definition world_inv :: "lease_config \<Rightarrow> world \<Rightarrow> bool" where
  "world_inv c w \<longleftrightarrow> names_inv w \<and> bucket_inv w \<and>
     (\<forall>p pr. bt_get (procs w) p = Some pr \<longrightarrow> base_inv c w pr \<and> lease_inv c w pr \<and> key_inv c w pr)"

text \<open>A later world: what was spent, anchored or nobody's stays so.\<close>

definition later :: "lease_config \<Rightarrow> world \<Rightarrow> world \<Rightarrow> bool" where
  "later c w w' \<longleftrightarrow> clock w \<le> clock w' \<and> set (names w) \<subseteq> set (names w') \<and>
     (\<forall>n. spent c w n \<longrightarrow> spent c w' n) \<and> (\<forall>n. anchored w n \<longrightarrow> anchored w' n) \<and> (\<forall>n. nobody w n \<longrightarrow> nobody w' n)"

text \<open>What an action may do to the session of its process.\<close>

definition calm :: "lease_config \<Rightarrow> world \<Rightarrow> process \<Rightarrow> process \<Rightarrow> bool" where
  "calm c w pr pr' \<longleftrightarrow>
     (s_node (sess pr') = s_node (sess pr) \<or> s_node (sess pr') \<notin> set (names w)) \<and>
     (\<forall>n \<in> set (names w). current pr' n \<longrightarrow> current pr n \<and>
        (s_anchor (sess pr) \<noteq> None \<longrightarrow> s_anchor (sess pr') \<noteq> None) \<and>
        (\<forall>L. over_in c (clock w) L pr n \<longrightarrow> (\<exists>L'. over_in c (clock w) L' pr' n)))"

text \<open>What an action may do to the records: the newest version of a key stays or has a successor.\<close>

definition records_kept :: "bucket \<Rightarrow> bucket \<Rightarrow> bool" where
  "records_kept b b' \<longleftrightarrow>
     (\<forall>t. newest b t \<le> newest b' t \<and>
        (newest b' t = newest b t \<longrightarrow> bt_get (own b') (t, newest b t) = bt_get (own b) (t, newest b t)))"

definition displaced :: "lease_config \<Rightarrow> world \<Rightarrow> world \<Rightarrow> string \<Rightarrow> string \<Rightarrow> bool" where
  "displaced c w w' t n \<longleftrightarrow>
     (newest (bucket w') t \<noteq> newest (bucket w) t \<longrightarrow> newest_owner (bucket w) t = n \<longrightarrow> spent c w' n)"

definition nodes_kept :: "lease_config \<Rightarrow> world \<Rightarrow> bucket \<Rightarrow> bool" where
  "nodes_kept c w b' \<longleftrightarrow>
     (\<forall>n l k x. bt_get (nodes (bucket w)) n = Some ((l, k), x) \<longrightarrow>
        spent c w n \<or> (\<exists>l' k' x'. bt_get (nodes b') n = Some ((l', k'), x') \<and> l \<le> l'))"

definition env_ok :: "env \<Rightarrow> bool" where
  "env_ok e \<longleftrightarrow> timely e \<and> prompt_start e \<and> undisturbed e"

section \<open>Versions of a key\<close>

lemma latest_seq_Max: "latest_seq xs = Max (insert 0 (set xs))"
proof (induction xs)
  case (Cons a xs)
  have "insert 0 (set (a # xs)) = insert a (insert 0 (set xs))" by auto
  then have "Max (insert 0 (set (a # xs))) = max a (Max (insert 0 (set xs)))" by (simp del: insert_commute)
  then show ?case using Cons by (simp add: latest_seq_def)
qed (simp add: latest_seq_def)

lemma set_list_versions: "set (list_versions t b) = {s. bt_get (own b) (t, s) \<noteq> None}"
proof -
  have "set (list_versions t b) = {s. (t, s) \<in> fst ` set (own b)}"
    by (force simp: list_versions_def)
  then show ?thesis by (simp add: map_of_eq_None_iff)
qed

lemma top_ge: "bt_get (own b) (t, s) \<noteq> None \<Longrightarrow> s \<le> newest b t"
proof -
  assume "bt_get (own b) (t, s) \<noteq> None"
  then have "s \<in> insert 0 (set (list_versions t b))" by (simp add: set_list_versions)
  then show "s \<le> newest b t" unfolding newest_def latest_seq_Max by (intro Max_ge) auto
qed

lemma top_held: "0 < newest b t \<Longrightarrow> bt_get (own b) (t, newest b t) \<noteq> None"
proof -
  assume "0 < newest b t"
  moreover have "newest b t \<in> insert 0 (set (list_versions t b))"
    unfolding newest_def latest_seq_Max by (intro Max_in) auto
  ultimately show ?thesis by (auto simp: set_list_versions)
qed

lemma top_eqI:
  assumes "\<And>s. bt_get (own b') (t, s) \<noteq> None \<Longrightarrow> s \<le> k" "k = 0 \<or> bt_get (own b') (t, k) \<noteq> None"
  shows "newest b' t = k"
  using assms top_ge [of b' t k] top_held [of b' t] by (metis gr0I le_antisym le_zero_eq)

lemma top_put:
  assumes "put_record t s r b = Some b'"
  shows "newest b' u = (if u = t then max (newest b t) s else newest b u)"
    "bt_get (own b') = (bt_get (own b))((t, s) \<mapsto> r)" "nodes b' = nodes b" "bt_get (own b) (t, s) = None"
proof -
  show o: "bt_get (own b') = (bt_get (own b))((t, s) \<mapsto> r)" and "nodes b' = nodes b" "bt_get (own b) (t, s) = None"
    using assms by (auto simp: put_record_def bt_simps split: if_splits)
  show "newest b' u = (if u = t then max (newest b t) s else newest b u)"
  proof (rule top_eqI)
    show "x \<le> (if u = t then max (newest b t) s else newest b u)" if "bt_get (own b') (u, x) \<noteq> None" for x
      using that top_ge [of b u x] by (auto simp: o max_def split: if_splits dest: top_ge)
    show "(if u = t then max (newest b t) s else newest b u) = 0 \<or>
        bt_get (own b') (u, if u = t then max (newest b t) s else newest b u) \<noteq> None"
      using top_held [of b u] by (auto simp: o max_def)
  qed
qed

lemma top_delete:
  assumes "s < newest b t"
  shows "newest (delete_record t s b) u = newest b u"
proof (rule top_eqI)
  have o: "bt_get (own (delete_record t s b)) = (bt_get (own b))((t, s) := None)"
    by (auto simp: delete_record_def bt_simps fun_eq_iff)
  show "x \<le> newest b u" if "bt_get (own (delete_record t s b)) (u, x) \<noteq> None" for x
    using that top_ge [of b u x] by (auto simp: o split: if_splits)
  show "newest b u = 0 \<or> bt_get (own (delete_record t s b)) (u, newest b u) \<noteq> None"
    using top_held [of b u] assms by (auto simp: o)
qed

lemma records_kept_refl: "own b' = own b \<Longrightarrow> records_kept b b'"
  by (simp add: records_kept_def newest_def list_versions_def)

lemma records_kept_put: "put_record t s r b = Some b' \<Longrightarrow> 0 < s \<Longrightarrow> records_kept b b'"
  using top_put [of t s r b b'] top_held [of b t] by (auto simp: records_kept_def max_def split: if_splits)

lemma records_kept_delete: "s < newest b t \<Longrightarrow> records_kept b (delete_record t s b)"
  using top_delete [of s b t] by (auto simp: records_kept_def delete_record_def bt_simps)

lemma top_owner_kept:
  "records_kept b b' \<Longrightarrow> newest b' t = newest b t \<Longrightarrow> newest_owner b' t = newest_owner b t"
  by (auto simp: records_kept_def newest_owner_def)

section \<open>Later worlds\<close>

lemma later_act:
  assumes p: "bt_get (procs w) p = Some pr" and calm: "calm c w pr pr'"
    and w': "procs w' = bt_insert p pr' (procs w)" "clock w' = clock w" "set (names w) \<subseteq> set (names w')"
  shows "later c w w'"
proof -
  have get: "bt_get (procs w') q = (if q = p then Some pr' else bt_get (procs w) q)" for q
    by (simp add: w' bt_simps)
  have keep: "current qr' n \<Longrightarrow> bt_get (procs w') q = Some qr' \<Longrightarrow> n \<in> set (names w) \<Longrightarrow>
      \<exists>qr. bt_get (procs w) q = Some qr \<and> current qr n \<and> (s_anchor (sess qr) \<noteq> None \<longrightarrow> s_anchor (sess qr') \<noteq> None) \<and>
        (\<forall>L. over_in c (clock w) L qr n \<longrightarrow> (\<exists>L'. over_in c (clock w) L' qr' n))" for q qr' n
    using p calm by (cases "q = p") (auto simp: get calm_def)
  have 1: "spent c w' n" if "spent c w n" for n
    using that keep [of _ n] w' unfolding spent_def by (metis subsetD)
  have 2: "anchored w' n" if "anchored w n" for n
    using that keep [of _ n] w' unfolding anchored_def by (metis subsetD)
  have 3: "nobody w' n" if "nobody w n" for n
  proof -
    have n: "n \<in> set (names w)" "s_node (sess pr) \<noteq> n" using that p by (auto simp: nobody_def)
    then have "s_node (sess pr') \<noteq> n" using calm unfolding calm_def by metis
    then show ?thesis using that n w'(3) by (auto simp: nobody_def get)
  qed
  show ?thesis using 1 2 3 w' by (simp add: later_def)
qed

lemma over_in_tick: "over_in c now L pr n \<Longrightarrow> over_in c (now + d) L pr n"
  unfolding over_in_def countable_def by (auto split: option.splits)

lemma later_tick: "later c w (w\<lparr>clock := clock w + d\<rparr>)"
proof -
  have "spent c (w\<lparr>clock := clock w + d\<rparr>) n" if "spent c w n" for n
    using that over_in_tick [of c "clock w"] unfolding spent_def by simp metis
  then show ?thesis by (simp add: later_def anchored_def nobody_def)
qed

lemma later_same:
  assumes "procs w' = procs w" "clock w' = clock w" "names w' = names w"
  shows "later c w w'"
  using assms by (simp add: later_def spent_def anchored_def nobody_def)

lemma later_spent: "later c w w' \<Longrightarrow> spent c w n \<Longrightarrow> spent c w' n"
  and later_anchored: "later c w w' \<Longrightarrow> anchored w n \<Longrightarrow> anchored w' n"
  and later_nobody: "later c w w' \<Longrightarrow> nobody w n \<Longrightarrow> nobody w' n"
  and later_clock: "later c w w' \<Longrightarrow> clock w \<le> clock w'"
  and later_names: "later c w w' \<Longrightarrow> n \<in> set (names w) \<Longrightarrow> n \<in> set (names w')"
  by (auto simp: later_def)

lemma nobody_spent: "nobody w n \<Longrightarrow> spent c w n"
  by (auto simp: nobody_def spent_def current_def)

section \<open>The invariant in later worlds\<close>

lemma look_inv_later: "look_inv c w lk \<Longrightarrow> later c w w' \<Longrightarrow> look_inv c w' lk"
  using later_clock [of c w w'] by (fastforce simp: look_inv_def split: look.splits)

lemma claim_look_later: "claim_look c w n lk \<Longrightarrow> later c w w' \<Longrightarrow> claim_look c w' n lk"
  using later_spent [of c w w' n] by (auto simp: claim_look_def split: look.splits option.splits)

lemma listed_inv_later:
  "listed_inv c w asked at present \<Longrightarrow> later c w w' \<Longrightarrow> listed_inv c w' asked at present"
  using later_clock [of c w w'] later_spent [of c w w'] by (fastforce simp: listed_inv_def)

lemma sampler_inv_later:
  assumes "sampler_inv c w sa" "later c w w'"
  shows "sampler_inv c w' sa"
proof (cases sa)
  case (SampleListed asked present)
  then have "listed_inv c w' asked (clock w) present" using assms listed_inv_later by (simp add: sampler_inv_def)
  then show ?thesis using SampleListed later_clock [OF assms(2)] by (fastforce simp: sampler_inv_def listed_inv_def)
qed (use assms later_clock [OF assms(2)] later_spent [OF assms(2)] listed_inv_later in \<open>auto simp: sampler_inv_def\<close>)

lemma base_inv_later:
  assumes "base_inv c w pr" "later c w w'"
  shows "base_inv c w' pr"
proof -
  have c: "clock w \<le> clock w'" by (rule later_clock [OF assms(2)])
  note l = later_spent [OF assms(2)] later_names [OF assms(2)]
  show ?thesis unfolding base_inv_def
  proof (intro conjI)
    show "\<forall>a. s_anchor (sess pr) = Some a \<longrightarrow> a \<le> clock w'" using assms(1) c by (auto simp: base_inv_def)
    show "\<forall>r \<in> set (p_renewals pr). rn_issued r \<le> clock w' \<and> lr_node (rn_lease r) \<in> set (names w') \<and>
        (\<forall>n \<in> set (rn_delete r). spent c w' n)"
      using assms(1) c l by (fastforce simp: base_inv_def)
    show "\<forall>(n, lk) \<in> set (p_looks pr). look_inv c w' lk"
      using assms(1) look_inv_later [OF _ assms(2)] by (fastforce simp: base_inv_def)
    show "\<forall>sa \<in> set (p_samplers pr). sampler_inv c w' sa"
      using assms(1) sampler_inv_later [OF _ assms(2)] by (simp add: base_inv_def)
  qed (use assms(1) l in \<open>auto simp: base_inv_def\<close>)
qed

lemma lease_inv_later:
  assumes "lease_inv c w pr" "later c w w'"
    "\<And>l k b. spent c w' (s_node (sess pr)) \<or> (bt_get (nodes (bucket w)) (s_node (sess pr)) = Some ((l, k), b) \<longrightarrow>
       (\<exists>l' k' b'. bt_get (nodes (bucket w')) (s_node (sess pr)) = Some ((l', k'), b') \<and> l \<le> l'))"
  shows "lease_inv c w' pr"
  using assms later_spent [OF assms(2), of "s_node (sess pr)"] unfolding lease_inv_def Let_def by (meson order_trans)

lemma yields_later: "yields c w me n \<Longrightarrow> later c w w' \<Longrightarrow> yields c w' me n"
  using later_spent [of c w w' n] by (auto simp: yields_def)

lemma me_ok_later: "me_ok w pr t me \<Longrightarrow> later c w w' \<Longrightarrow> me_ok w' pr t me"
  using later_nobody [of c w w' me] later_names [of c w w' me] by (auto simp: me_ok_def)

lemma newest_later:
  assumes "s \<le> newest (bucket w) t \<and> (newest (bucket w) t = s \<longrightarrow> bt_get (own (bucket w)) (t, s) = x)"
    "records_kept (bucket w) (bucket w')"
  shows "s \<le> newest (bucket w') t \<and> (newest (bucket w') t = s \<longrightarrow> bt_get (own (bucket w')) (t, s) = x)"
proof -
  have k: "newest (bucket w) t \<le> newest (bucket w') t"
    "newest (bucket w') t = newest (bucket w) t \<longrightarrow>
       bt_get (own (bucket w')) (t, newest (bucket w) t) = bt_get (own (bucket w)) (t, newest (bucket w) t)"
    using assms(2) by (simp_all add: records_kept_def)
  then have "newest (bucket w') t = s \<longrightarrow> newest (bucket w) t = s" using assms(1) by linarith
  then show ?thesis using assms(1) k by auto
qed

lemma read_ok_later:
  assumes "read_ok w t s ro" "later c w w'" "records_kept (bucket w) (bucket w')"
  shows "read_ok w' t s ro"
  using newest_later [OF _ assms(3), of s t ro] assms(1) later_anchored [OF assms(2)] by (simp add: read_ok_def)

lemma write_ok_later: "write_ok w pr t ch s r me \<Longrightarrow> later c w w' \<Longrightarrow> write_ok w' pr t ch s r me"
  using later_anchored [of c w w' me] me_ok_later [of w pr t me c w'] by (auto simp: write_ok_def)

lemma owner_later:
  assumes "spent c w me \<or> newest_owner (bucket w) t = me" "later c w w'" "records_kept (bucket w) (bucket w')"
    "displaced c w w' t me"
  shows "spent c w' me \<or> newest_owner (bucket w') t = me"
proof (cases "newest (bucket w') t = newest (bucket w) t")
  case True
  then show ?thesis using assms(1) later_spent [OF assms(2)] top_owner_kept [OF assms(3) True] by auto
next
  case False
  then show ?thesis using assms(1,4) later_spent [OF assms(2)] unfolding displaced_def by blast
qed

lemma me_displaced:
  assumes "me_ok w pr t me" "displaced c w w' t (s_node (sess pr))" "later c w w'"
  shows "displaced c w w' t me"
proof (cases "me = s_node (sess pr)")
  case False
  then have "spent c w' me" using assms nobody_spent [of w' me c] later_nobody [OF assms(3), of me] by (simp add: me_ok_def)
  then show ?thesis by (simp add: displaced_def)
qed (use assms in simp)

lemma written_later:
  assumes "written c w t ch s r me" "later c w w'" "records_kept (bucket w) (bucket w')" "displaced c w w' t me"
  shows "written c w' t ch s r me"
  using assms(1) newest_later [OF _ assms(3), of s t "Some r"] owner_later [OF _ assms(2-4)] unfolding written_def by blast

lemma writer_inv_later:
  assumes inv: "writer_inv c w pr t wr" and l: "later c w w'" and k: "records_kept (bucket w) (bucket w')"
    and d: "displaced c w w' t (s_node (sess pr))"
  shows "writer_inv c w' pr t wr"
proof -
  note step = read_ok_later [OF _ l k] me_ok_later [OF _ l] write_ok_later [OF _ l] yields_later [OF _ l]
    look_inv_later [OF _ l] claim_look_later [OF _ l]
  show ?thesis
  proof (cases wr)
    case (Getting n s)
    then show ?thesis using inv k by (auto simp: writer_inv_def records_kept_def intro: order_trans)
  next
    case (Ready s ro me)
    then show ?thesis using inv step by (simp add: writer_inv_def)
  next
    case (Putting ch s r me)
    have "newest (bucket w) t \<le> newest (bucket w') t" using k by (simp add: records_kept_def)
    moreover have "newest_owner (bucket w') t = newest_owner (bucket w) t"
      "starts_from (bucket w') t ch (newest (bucket w') t) me = starts_from (bucket w) t ch (newest (bucket w) t) me"
      if "newest (bucket w') t = newest (bucket w) t"
      using top_owner_kept [OF k that] k that by (auto simp: records_kept_def starts_from_def split: change.splits)
    ultimately show ?thesis using inv step Putting by (auto simp: writer_inv_def)
  next
    case (Listing ch s r me)
    then show ?thesis using inv step newest_later [OF _ k, of s t "Some r"] by (auto simp: writer_inv_def)
  next
    case (Deleting ch s r me vs)
    then have "displaced c w w' t me" using inv me_displaced [OF _ d l] by (auto simp: writer_inv_def write_ok_def)
    then show ?thesis using inv step written_later [OF _ l k] Deleting by (auto simp: writer_inv_def)
  next
    case (Finishing ch s r me counted)
    then have "displaced c w w' t me" using inv me_displaced [OF _ d l] by (auto simp: writer_inv_def write_ok_def)
    then show ?thesis using inv step written_later [OF _ l k] Finishing by (auto simp: writer_inv_def)
  qed (use inv step in \<open>auto simp: writer_inv_def\<close>)
qed

lemma held_inv_later:
  assumes inv: "held_inv c w pr t h" and l: "later c w w'" and k: "records_kept (bucket w) (bucket w')"
    and d: "displaced c w w' t (s_node (sess pr))"
  shows "held_inv c w' pr t h"
proof -
  let ?x = "bt_get (own (bucket w)) (t, h_seq h)"
  have "h_seq h \<le> newest (bucket w') t \<and> (newest (bucket w') t = h_seq h \<longrightarrow> bt_get (own (bucket w')) (t, h_seq h) = ?x)"
    using newest_later [OF _ k, of "h_seq h" t ?x] inv by (simp add: held_inv_def Let_def)
  moreover have "newest (bucket w') t = h_seq h \<Longrightarrow> newest (bucket w) t = h_seq h"
    using inv k unfolding held_inv_def Let_def records_kept_def by (metis order_antisym)
  ultimately show ?thesis using inv owner_later [OF _ l k d] by (auto simp: held_inv_def Let_def)
qed

lemma key_inv_later:
  assumes "key_inv c w pr" "later c w w'" "records_kept (bucket w) (bucket w')" "\<And>t. displaced c w w' t (s_node (sess pr))"
  shows "key_inv c w' pr"
  using assms(1) writer_inv_later [OF _ assms(2-4)] held_inv_later [OF _ assms(2-4)] by (auto simp: key_inv_def)

section \<open>Updates of one process\<close>

lemma world_invD:
  assumes "world_inv c w"
  shows "names_inv w" "bucket_inv w"
    "bt_get (procs w) p = Some pr \<Longrightarrow> base_inv c w pr"
    "bt_get (procs w) p = Some pr \<Longrightarrow> lease_inv c w pr"
    "bt_get (procs w) p = Some pr \<Longrightarrow> key_inv c w pr"
  using assms by (auto simp: world_inv_def)

lemma bucket_inv_later:
  assumes "bucket_inv w" "later c w w'" "bucket w' = bucket w" "late w' = late w"
  shows "bucket_inv w'"
  using assms later_names [OF assms(2)] later_clock [OF assms(2)] later_anchored [OF assms(2)]
  unfolding bucket_inv_def by (auto, meson order_trans)

lemma displaced_same: "own (bucket w') = own (bucket w) \<Longrightarrow> displaced c w w' t n"
  by (simp add: displaced_def newest_def list_versions_def)

text \<open>The invariant after an action of process \<open>p\<close>.\<close>

lemma act_inv:
  assumes inv: "world_inv c w" and p: "bt_get (procs w) p = Some pr" and calm: "calm c w pr pr'"
    and w': "procs w' = bt_insert p pr' (procs w)" "clock w' = clock w"
      "names w' = names w \<or> (\<exists>f. names w' = f # names w \<and> free_name f w)"
    and k: "records_kept (bucket w) (bucket w')" and b: "bucket_inv w'"
    and pr': "base_inv c w' pr'" "lease_inv c w' pr'" "key_inv c w' pr'"
    and others: "\<And>q qr t. q \<noteq> p \<Longrightarrow> bt_get (procs w) q = Some qr \<Longrightarrow> displaced c w w' t (s_node (sess qr))"
      "\<And>q qr l i b. q \<noteq> p \<Longrightarrow> bt_get (procs w) q = Some qr \<Longrightarrow> spent c w' (s_node (sess qr)) \<or>
         (bt_get (nodes (bucket w)) (s_node (sess qr)) = Some ((l, i), b) \<longrightarrow>
           (\<exists>l' i' b'. bt_get (nodes (bucket w')) (s_node (sess qr)) = Some ((l', i'), b') \<and> l \<le> l'))"
  shows "world_inv c w'"
proof -
  have ns: "set (names w) \<subseteq> set (names w')" "[] \<notin> set (names w')"
    using w'(3) world_invD(1) [OF inv] by (auto simp: names_inv_def free_name_def)
  have l: "later c w w'" by (rule later_act [OF p calm w'(1,2) ns(1)])
  have get: "bt_get (procs w') q = (if q = p then Some pr' else bt_get (procs w) q)" for q
    by (simp add: w' bt_simps)
  have "base_inv c w' qr \<and> lease_inv c w' qr \<and> key_inv c w' qr" if "bt_get (procs w') q = Some qr" for q qr
  proof (cases "q = p")
    case False
    then have q: "bt_get (procs w) q = Some qr" using that by (simp add: get)
    show ?thesis
      using base_inv_later [OF world_invD(3) [OF inv q] l] lease_inv_later [OF world_invD(4) [OF inv q] l others(2) [OF False q]]
        key_inv_later [OF world_invD(5) [OF inv q] l k others(1) [OF False q]] by blast
  qed (use that pr' get in simp)
  moreover have "names_inv w'"
  proof -
    have old: "s_node (sess qr) \<in> set (names w)" if "bt_get (procs w) q = Some qr" for q qr
      using world_invD(3) [OF inv that] by (simp add: base_inv_def)
    have "q = r" if "bt_get (procs w) q = Some qr" "bt_get (procs w) r = Some rr" "s_node (sess qr) = s_node (sess rr)" for q r qr rr
      using world_invD(1) [OF inv] that by (auto simp: names_inv_def)
    then have "s_node (sess qr) \<noteq> s_node (sess pr')" if "q \<noteq> p" "bt_get (procs w) q = Some qr" for q qr
      using that old [OF that(2)] calm p unfolding calm_def by metis
    then show ?thesis using world_invD(1) [OF inv] ns(2) unfolding names_inv_def get by (metis option.inject)
  qed
  ultimately show ?thesis using b by (simp add: world_inv_def)
qed

lemma calm_same:
  assumes "s_node (sess pr') = s_node (sess pr)" "s_anchor (sess pr') = s_anchor (sess pr)"
    "s_retired (sess pr') = s_retired (sess pr)"
    "\<And>r'. r' \<in> set (p_renewals pr') \<Longrightarrow> \<exists>r \<in> set (p_renewals pr). rn_lease r' = rn_lease r \<and> rn_issued r' = rn_issued r \<and> rn_landed r' = rn_landed r"
  shows "calm c w pr pr'"
proof -
  have "over_in c now L pr' n" if "over_in c now L pr n" for now L n
    using that assms(2) assms(4) unfolding over_in_def countable_def by metis
  then show ?thesis using assms by (auto simp: calm_def current_def)
qed

text \<open>An update that leaves the session and its renewals alone only has to keep the parts that
  concern the process, in the old world.\<close>

lemma quiet_update:
  assumes inv: "world_inv c w" and p: "bt_get (procs w) p = Some pr"
    and same: "s_node (sess pr') = s_node (sess pr)" "s_anchor (sess pr') = s_anchor (sess pr)"
      "s_retired (sess pr') = s_retired (sess pr)" "p_renewals pr' = p_renewals pr"
    and pr': "base_inv c w pr'" "key_inv c w pr'"
  shows "world_inv c (w\<lparr>procs := bt_insert p pr' (procs w)\<rparr>)" (is "world_inv c ?w")
proof -
  have calm: "calm c w pr pr'" by (rule calm_same) (use same in auto)
  have l: "later c w ?w" by (rule later_act [OF p calm]) auto
  have "lease_inv c w pr'"
    using world_invD(4) [OF inv p] same by (simp add: lease_inv_def stamps_def current_def)
  from lease_inv_later [OF this l] have li: "lease_inv c ?w pr'" by simp
  show ?thesis
  proof (rule act_inv [OF inv p calm])
    show "bucket_inv ?w" by (rule bucket_inv_later [OF world_invD(2) [OF inv] l]) auto
    show "base_inv c ?w pr'" by (rule base_inv_later [OF pr'(1) l])
    show "key_inv c ?w pr'" by (rule key_inv_later [OF pr'(2) l]) (auto simp: records_kept_refl displaced_same)
  qed (auto simp: li records_kept_refl displaced_same)
qed

lemma bt_insert_twice: "bt_insert k v (bt_insert k v' m) = bt_insert k v m"
  by (induction k v m rule: bt_insert.induct) auto

lemma later_name: "free_name f w \<Longrightarrow> later c w (w\<lparr>names := f # names w\<rparr>)"
  by (auto simp: later_def spent_def anchored_def nobody_def)

lemma name_inv:
  assumes "world_inv c w" "free_name f w"
  shows "world_inv c (w\<lparr>names := f # names w\<rparr>)" (is "world_inv c ?w")
proof -
  have l: "later c w ?w" by (rule later_name [OF assms(2)])
  have "base_inv c ?w pr \<and> lease_inv c ?w pr \<and> key_inv c ?w pr" if "bt_get (procs w) p = Some pr" for p pr
    using base_inv_later [OF world_invD(3) [OF assms(1) that] l] lease_inv_later [OF world_invD(4) [OF assms(1) that] l]
      key_inv_later [OF world_invD(5) [OF assms(1) that] l] by (simp add: records_kept_refl displaced_same)
  moreover have "names_inv ?w" using assms by (auto simp: world_inv_def names_inv_def free_name_def)
  moreover have "bucket_inv ?w" by (rule bucket_inv_later [OF world_invD(2) [OF assms(1)] l]) auto
  ultimately show ?thesis by (simp add: world_inv_def)
qed

lemma auth_cases:
  assumes "authoritative_locked c fresh now st = (st', ok)"
  shows "(st' = st \<and> ok = (\<not> s_retired (session st) \<and> (\<exists>a. s_anchor (session st) = Some a \<and> now - a < ttl_ms c)) \<and>
      (\<not> s_retired (session st) \<longrightarrow> (\<forall>a. s_anchor (session st) = Some a \<longrightarrow> now - a < ttl_ms c))) \<or>
    (\<not> ok \<and> st' = stand_down_locked fresh st)"
  using assms by (auto simp: authoritative_locked_def split: if_splits option.splits)

section \<open>Standing down\<close>

lemma me_ok_move:
  assumes "me_ok w pr t me" "s_node (sess pr) = s_node (sess pr') \<or> nobody w (s_node (sess pr))" "held (p_state pr') = []"
  shows "me_ok w pr' t me"
  using assms by (auto simp: me_ok_def)

lemma writer_inv_move:
  assumes "writer_inv c w pr t wr" "\<And>me. me_ok w pr t me \<Longrightarrow> me_ok w pr' t me"
    "bt_get (held (p_state pr)) t = None \<Longrightarrow> bt_get (held (p_state pr')) t = None"
  shows "writer_inv c w pr' t wr"
  using assms by (auto simp: writer_inv_def write_ok_def change_ok_def split: writer.splits change.splits)

lemma stand_down_fields:
  "session (stand_down_locked f st) = (session st)\<lparr>s_node := f, s_renewal := 0, s_anchor := None\<rparr>"
  "held (stand_down_locked f st) = []" "seen (stand_down_locked f st) = seen st"
  "abandoned (stand_down_locked f st) = abandoned st @ [s_node (session st)]"
  "dead (stand_down_locked f st) = s_node (session st) # dead st"
  by (simp_all add: stand_down_locked_def Let_def)

lemma stand_down_inv:
  assumes inv: "world_inv c w" and p: "bt_get (procs w) p = Some pr" and f: "free_name f w"
  shows "world_inv c (w\<lparr>procs := bt_insert p (pr\<lparr>p_state := stand_down_locked f (p_state pr)\<rparr>) (procs w), names := f # names w\<rparr>)"
    (is "world_inv c ?w")
proof -
  let ?pr = "pr\<lparr>p_state := stand_down_locked f (p_state pr)\<rparr>" and ?old = "s_node (sess pr)"
  have f': "f \<notin> set (names w)" using f by (simp add: free_name_def)
  have calm: "calm c w pr ?pr" using f' by (auto simp: calm_def current_def stand_down_fields)
  have l: "later c w ?w" by (rule later_act [OF p calm]) auto
  have base: "base_inv c w pr" by (rule world_invD(3) [OF inv p])
  have old: "?old \<in> set (names w)" using base by (simp add: base_inv_def)
  have nb: "nobody ?w ?old"
    using world_invD(1) [OF inv] p old f' unfolding nobody_def names_inv_def by (auto simp: bt_simps stand_down_fields)
  have b: "base_inv c ?w pr" by (rule base_inv_later [OF base l])
  have ds: "displaced c w ?w t n" for t n by (rule displaced_same) simp
  show ?thesis
  proof (rule act_inv [OF inv p calm])
    show "bucket_inv ?w" by (rule bucket_inv_later [OF world_invD(2) [OF inv] l]) auto
    show "base_inv c ?w ?pr" using b nobody_spent [OF nb] by (simp add: base_inv_def stand_down_fields)
    have "lr_node (rn_lease r) \<noteq> f" if "r \<in> set (p_renewals pr)" for r
      using base that f' by (auto simp: base_inv_def)
    then have "stamps ?pr = {}" by (auto simp: stamps_def stand_down_fields)
    then show "lease_inv c ?w ?pr" by (simp add: lease_inv_def)
    have kw: "key_inv c ?w pr" by (rule key_inv_later [OF world_invD(5) [OF inv p] l]) (simp_all add: records_kept_refl ds)
    have "writer_inv c ?w ?pr t wr" if "bt_get (p_writers pr) t = Some wr" for t wr
    proof (rule writer_inv_move)
      show "writer_inv c ?w pr t wr" using kw that by (simp add: key_inv_def)
      show "me_ok ?w ?pr t me" if "me_ok ?w pr t me" for me
        by (rule me_ok_move [OF that]) (use nb in \<open>simp_all add: stand_down_fields\<close>)
    qed (simp add: stand_down_fields)
    then show "key_inv c ?w ?pr" by (simp add: key_inv_def stand_down_fields)
  qed (auto simp: records_kept_refl ds f)
qed

lemma auth_inv:
  assumes inv: "world_inv c w" and p: "bt_get (procs w) p = Some pr" and f: "free_name f w"
    and a: "authoritative_locked c f (clock w) (p_state pr) = (st', ok)"
  shows "world_inv c (w\<lparr>procs := bt_insert p (pr\<lparr>p_state := st'\<rparr>) (procs w), names := f # names w\<rparr>)"
proof (cases "st' = p_state pr")
  case True
  then have "pr\<lparr>p_state := st'\<rparr> = pr" by simp
  moreover have "world_inv c (w\<lparr>procs := bt_insert p pr (procs w)\<rparr>)"
    by (rule quiet_update [OF inv p]) (use world_invD [OF inv] p in auto)
  moreover have "free_name f (w\<lparr>procs := bt_insert p pr (procs w)\<rparr>)" using f by (simp add: free_name_def)
  ultimately show ?thesis using name_inv by fastforce
qed (use auth_cases [OF a] stand_down_inv [OF inv p f] in simp)

section \<open>Renewals\<close>

lemma start_inv:
  assumes inv: "world_inv c w" and f: "free_name n w" and p: "\<not> bt_has (procs w) p"
  shows "world_inv c (w\<lparr>procs := bt_insert p (new_process n (clock w)) (procs w), names := n # names w\<rparr>)"
    (is "world_inv c ?w")
proof -
  let ?new = "new_process n (clock w)"
  have n: "n \<notin> set (names w)" "n \<noteq> []" using f by (auto simp: free_name_def)
  have get: "bt_get (procs ?w) q = (if q = p then Some ?new else bt_get (procs w) q)" for q by (simp add: bt_simps)
  have s: "sess ?new = \<lparr>s_node = n, s_renewal = 0, s_anchor = None, s_draining = False, s_retired = False\<rparr>"
    by (simp add: new_process_def new_state_def)
  have l: "later c w ?w" unfolding later_def
  proof (intro conjI allI impI)
    show "spent c ?w m" if "spent c w m" for m
      using that n unfolding spent_def get by (auto simp: s current_def)
    show "anchored ?w m" if "anchored w m" for m
      using that n unfolding anchored_def get by (auto simp: s current_def)
    show "nobody ?w m" if "nobody w m" for m
      using that n unfolding nobody_def get by (auto simp: s)
  qed auto
  have ds: "displaced c w ?w t m" for t m by (rule displaced_same) simp
  have "base_inv c ?w qr \<and> lease_inv c ?w qr \<and> key_inv c ?w qr" if "bt_get (procs w) q = Some qr" for q qr
    using base_inv_later [OF world_invD(3) [OF inv that] l] lease_inv_later [OF world_invD(4) [OF inv that] l]
      key_inv_later [OF world_invD(5) [OF inv that] l] by (simp add: records_kept_refl ds)
  moreover have "base_inv c ?w ?new \<and> lease_inv c ?w ?new \<and> key_inv c ?w ?new"
    by (simp add: base_inv_def lease_inv_def key_inv_def stamps_def new_process_def new_state_def)
  moreover have "names_inv ?w"
  proof -
    have "s_node (sess qr) \<noteq> n" if "bt_get (procs w) q = Some qr" for q qr
      using world_invD(3) [OF inv that] n by (auto simp: base_inv_def)
    then show ?thesis using world_invD(1) [OF inv] n unfolding names_inv_def get by (auto simp: s)
  qed
  moreover have "bucket_inv ?w" by (rule bucket_inv_later [OF world_invD(2) [OF inv] l]) auto
  ultimately show ?thesis unfolding world_inv_def get by simp
qed

lemma tick_inv:
  assumes inv: "world_inv c w"
  shows "world_inv c (w\<lparr>clock := clock w + d\<rparr>)" (is "world_inv c ?w")
proof -
  have l: "later c w ?w" by (rule later_tick)
  have ds: "displaced c w ?w t m" for t m by (rule displaced_same) simp
  have "base_inv c ?w qr \<and> lease_inv c ?w qr \<and> key_inv c ?w qr" if "bt_get (procs w) q = Some qr" for q qr
    using base_inv_later [OF world_invD(3) [OF inv that] l] lease_inv_later [OF world_invD(4) [OF inv that] l]
      key_inv_later [OF world_invD(5) [OF inv that] l] by (simp add: records_kept_refl ds)
  moreover have "names_inv ?w" using world_invD(1) [OF inv] by (simp add: names_inv_def)
  moreover have "bucket_inv ?w" by (rule bucket_inv_later [OF world_invD(2) [OF inv] l]) auto
  ultimately show ?thesis by (simp add: world_inv_def)
qed

lemma put_lease_fields:
  "own (put_lease now l b) = own b"
  "bt_get (nodes (put_lease now l b)) n = (if n = lr_node l then Some ((now, writes b), l) else bt_get (nodes b) n)"
  "bt_wf (nodes b) \<Longrightarrow> bt_wf (nodes (put_lease now l b))"
  by (simp_all add: put_lease_def bt_simps)

lemma put_bucket_inv:
  assumes "bucket_inv w" "later c w w'" "clock w' = clock w" "bucket w' = put_lease (clock w) l (bucket w)"
    "set (late w') \<subseteq> set (late w)" "lr_node l \<in> set (names w)"
  shows "bucket_inv w'"
  using assms later_names [OF assms(2)] later_anchored [OF assms(2)]
  unfolding bucket_inv_def by (auto simp: put_lease_fields split: if_splits)

lemma act_nodes:
  assumes inv: "world_inv c w" and p: "bt_get (procs w) p = Some pr" and calm: "calm c w pr pr'"
    and b: "own b' = own (bucket w)" "nodes_kept c w b'"
      "bucket_inv (w\<lparr>bucket := b', procs := bt_insert p pr' (procs w)\<rparr>)" (is "bucket_inv ?w")
    and pr': "base_inv c w pr'" "lease_inv c (w\<lparr>bucket := b', procs := bt_insert p pr' (procs w)\<rparr>) pr'" "key_inv c w pr'"
  shows "world_inv c (w\<lparr>bucket := b', procs := bt_insert p pr' (procs w)\<rparr>)"
proof -
  have l: "later c w ?w" by (rule later_act [OF p calm]) auto
  have ds: "displaced c w ?w t m" for t m by (rule displaced_same) (simp add: b)
  have k: "records_kept (bucket w) (bucket ?w)" by (rule records_kept_refl) (simp add: b)
  show ?thesis
  proof (rule act_inv [OF inv p calm])
    show "key_inv c ?w pr'" by (rule key_inv_later [OF pr'(3) l k ds])
    show "base_inv c ?w pr'" by (rule base_inv_later [OF pr'(1) l])
    show "spent c ?w (s_node (sess qr)) \<or>
       (bt_get (nodes (bucket w)) (s_node (sess qr)) = Some ((m, i), x) \<longrightarrow>
        (\<exists>l' i' b'. bt_get (nodes (bucket ?w)) (s_node (sess qr)) = Some ((l', i'), b') \<and> m \<le> l'))" for qr m i x
      using b(2) [unfolded nodes_kept_def, rule_format, of "s_node (sess qr)" m i x] later_spent [OF l, of "s_node (sess qr)"]
      by auto
  qed (use b(3) pr'(2) k ds in simp_all)
qed

lemma nodes_kept_put:
  assumes "bucket_inv w"
  shows "nodes_kept c w (put_lease (clock w) l (bucket w))"
  using assms unfolding nodes_kept_def bucket_inv_def by (auto simp: put_lease_fields)

lemma delete_lease_fields:
  "own (delete_lease n b) = own b"
  "bt_get (nodes (delete_lease n b)) m = (if m = n then None else bt_get (nodes b) m)"
  "bt_wf (nodes b) \<Longrightarrow> bt_wf (nodes (delete_lease n b))"
  by (simp_all add: delete_lease_def bt_simps)

lemma nodes_kept_delete: "spent c w n \<Longrightarrow> nodes_kept c w (delete_lease n (bucket w))"
  by (auto simp: nodes_kept_def delete_lease_fields)

lemma delete_bucket_inv:
  assumes "bucket_inv w" "later c w w'" "clock w' = clock w" "bucket w' = delete_lease n (bucket w)" "late w' = late w"
  shows "bucket_inv w'"
  using assms later_names [OF assms(2)] later_anchored [OF assms(2)]
  unfolding bucket_inv_def by (auto simp: delete_lease_fields split: if_splits)

text \<open>Deleting the lease of a session that is spent.\<close>

lemma delete_inv:
  assumes inv: "world_inv c w" and p: "bt_get (procs w) p = Some pr" and calm: "calm c w pr pr'" and n: "spent c w n"
    and same: "s_node (sess pr') = s_node (sess pr)" "s_retired (sess pr') = s_retired (sess pr)" "stamps pr' \<subseteq> stamps pr"
    and pr': "base_inv c w pr'" "key_inv c w pr'"
  shows "world_inv c (w\<lparr>bucket := delete_lease n (bucket w), procs := bt_insert p pr' (procs w)\<rparr>)" (is "world_inv c ?w")
proof (rule act_nodes [OF inv p calm])
  have l: "later c w ?w" by (rule later_act [OF p calm]) auto
  show "bucket_inv ?w" by (rule delete_bucket_inv [OF world_invD(2) [OF inv] l]) auto
  have "lease_inv c w pr'" using world_invD(4) [OF inv p] same unfolding lease_inv_def current_def Let_def by auto
  then show "lease_inv c ?w pr'"
    by (rule lease_inv_later [OF _ l]) (use later_spent [OF l n] in \<open>auto simp: delete_lease_fields\<close>)
qed (use n pr' in \<open>simp_all add: delete_lease_fields nodes_kept_delete\<close>)

lemma late_inv:
  assumes inv: "world_inv c w" and i: "i < length (late w)"
  shows "world_inv c (w\<lparr>bucket := put_lease (clock w) (late w ! i) (bucket w), late := drop_nth i (late w)\<rparr>)" (is "world_inv c ?w")
proof -
  have l: "later c w ?w" by (rule later_same) auto
  have n: "lr_node (late w ! i) \<in> set (names w)" using world_invD(2) [OF inv] i by (auto simp: bucket_inv_def)
  have ds: "displaced c w ?w t m" for t m by (rule displaced_same) (simp add: put_lease_fields)
  have k: "records_kept (bucket w) (bucket ?w)" by (rule records_kept_refl) (simp add: put_lease_fields)
  have "base_inv c ?w qr \<and> lease_inv c ?w qr \<and> key_inv c ?w qr" if "bt_get (procs w) q = Some qr" for q qr
  proof -
    have "lease_inv c ?w qr"
      by (rule lease_inv_later [OF world_invD(4) [OF inv that] l])
        (use world_invD(2) [OF inv] in \<open>auto simp: bucket_inv_def put_lease_fields\<close>)
    then show ?thesis
      using base_inv_later [OF world_invD(3) [OF inv that] l] key_inv_later [OF world_invD(5) [OF inv that] l k ds] by blast
  qed
  moreover have "names_inv ?w" using world_invD(1) [OF inv] by (simp add: names_inv_def)
  moreover have "set (drop_nth i (late w)) \<subseteq> set (late w)"
    by (auto simp: drop_nth_def dest: in_set_takeD in_set_dropD)
  then have "bucket_inv ?w" by (intro put_bucket_inv [OF world_invD(2) [OF inv] l]) (use n in auto)
  ultimately show ?thesis by (simp add: world_inv_def)
qed

lemma act_iff:
  "act p f w = Some w' \<longleftrightarrow> (\<exists>pr b pr'. bt_get (procs w) p = Some pr \<and> f (clock w) (bucket w) pr = Some (b, pr') \<and>
     w' = w\<lparr>bucket := b, procs := bt_insert p pr' (procs w)\<rparr>)"
  by (auto simp: act_def split: option.splits)

lemma act_named_iff:
  "act_named p fresh f w = Some w' \<longleftrightarrow> free_name fresh w \<and>
     (\<exists>pr b pr'. bt_get (procs w) p = Some pr \<and> f (clock w) (bucket w) pr = Some (b, pr') \<and>
       w' = w\<lparr>bucket := b, procs := bt_insert p pr' (procs w), names := fresh # names w\<rparr>)"
  by (auto simp: act_named_def act_iff)

lemma same_bucket [simp]: "w\<lparr>bucket := bucket w, procs := x\<rparr> = w\<lparr>procs := x\<rparr>"
  by (cases w) simp

lemma names_procs [simp]: "w\<lparr>names := ns, procs := x\<rparr> = w\<lparr>procs := x, names := ns\<rparr>"
  by (cases w) simp

lemma in_drop_nth: "x \<in> set (drop_nth i xs) \<Longrightarrow> x \<in> set xs"
  by (auto simp: drop_nth_def dest: in_set_takeD in_set_dropD)

lemma key_inv_session:
  assumes k: "key_inv c w pr" and same: "s_node (sess pr') = s_node (sess pr)" "s_retired (sess pr) \<Longrightarrow> s_retired (sess pr')"
    "held (p_state pr') = held (p_state pr)" "p_writers pr' = p_writers pr"
  shows "key_inv c w pr'"
proof -
  have "writer_inv c w pr' t wr" if "bt_get (p_writers pr) t = Some wr" for t wr
  proof (rule writer_inv_move)
    show "writer_inv c w pr t wr" using k that by (simp add: key_inv_def)
  qed (use same in \<open>simp_all add: me_ok_def\<close>)
  moreover have "held_inv c w pr' t h" if "bt_get (held (p_state pr)) t = Some h" for t h
  proof -
    have "held_inv c w pr t h" using k that by (simp add: key_inv_def)
    then show ?thesis using same(1,2) by (auto simp: held_inv_def current_def Let_def)
  qed
  ultimately show ?thesis using same by (simp add: key_inv_def)
qed

lemma key_inv_same:
  assumes "key_inv c w pr" "sess pr' = sess pr" "held (p_state pr') = held (p_state pr)" "p_writers pr' = p_writers pr"
  shows "key_inv c w pr'"
  by (rule key_inv_session [OF assms(1)]) (use assms in simp_all)

lemma bucket_inv_procs:
  assumes "bucket_inv w" "later c w (w\<lparr>procs := x\<rparr>)"
  shows "bucket_inv (w\<lparr>procs := x\<rparr>)"
  by (rule bucket_inv_later [OF assms]) auto

lemma nodes_kept_same: "nodes_kept c w (bucket w)"
  by (auto simp: nodes_kept_def)

text \<open>An update that may also change the renewals and the anchor.\<close>

lemma session_update:
  assumes inv: "world_inv c w" and p: "bt_get (procs w) p = Some pr" and calm: "calm c w pr pr'"
    and same: "s_node (sess pr') = s_node (sess pr)" "s_retired (sess pr') = s_retired (sess pr)" "stamps pr' \<subseteq> stamps pr"
    and pr': "base_inv c w pr'" "key_inv c w pr'"
  shows "world_inv c (w\<lparr>procs := bt_insert p pr' (procs w)\<rparr>)" (is "world_inv c ?w")
proof -
  have l: "later c w ?w" by (rule later_act [OF p calm]) auto
  have "lease_inv c w pr'" using world_invD(4) [OF inv p] same unfolding lease_inv_def current_def Let_def by auto
  then have "lease_inv c ?w pr'" by (rule lease_inv_later [OF _ l]) simp
  from act_nodes [OF inv p calm _ nodes_kept_same _ pr'(1) _ pr'(2)] this show ?thesis
    by (simp add: bucket_inv_procs [OF world_invD(2) [OF inv] l])
qed

lemma renew_begin_update:
  assumes inv: "world_inv c w" and p: "bt_get (procs w) p = Some pr"
    and live: "\<And>a. s_anchor (sess pr) = Some a \<Longrightarrow> clock w - a < ttl_ms c"
    and l: "lr_node l = s_node (sess pr)"
  shows "world_inv c (w\<lparr>procs := bt_insert p
      (pr\<lparr>p_state := (p_state pr)\<lparr>session := (sess pr)\<lparr>s_renewal := k\<rparr>, abandoned := []\<rparr>,
          p_renewals := p_renewals pr @ [\<lparr>rn_issued = clock w, rn_lease = l, rn_delete = abandoned (p_state pr), rn_landed = None\<rparr>]\<rparr>) (procs w)\<rparr>)"
    (is "world_inv c (w\<lparr>procs := bt_insert p ?pr (procs w)\<rparr>)")
proof (rule session_update [OF inv p])
  have "\<not> over_in c (clock w) L pr n" for L n
  proof
    assume "over_in c (clock w) L pr n"
    then obtain a where "s_anchor (sess pr) = Some a" "a \<le> L" "L + ttl_ms c \<le> clock w" by (auto simp: over_in_def)
    with live [of a] show False by linarith
  qed
  then show "calm c w pr ?pr" by (auto simp: calm_def current_def)
  have base: "base_inv c w pr" by (rule world_invD(3) [OF inv p])
  show "base_inv c w ?pr" using base l by (auto simp: base_inv_def)
  show "key_inv c w ?pr" by (rule key_inv_session [OF world_invD(5) [OF inv p]]) auto
  show "stamps ?pr \<subseteq> stamps pr" by (auto simp: stamps_def)
qed auto

lemma renew_begin_inv:
  assumes inv: "world_inv c w" and e: "act_named p fresh (do_renew_begin c addr fresh wall) w = Some w'"
  shows "world_inv c w'"
proof -
  obtain pr b pr' where p: "bt_get (procs w) p = Some pr" and f: "free_name fresh w"
    and d: "do_renew_begin c addr fresh wall (clock w) (bucket w) pr = Some (b, pr')"
    and w': "w' = w\<lparr>bucket := b, procs := bt_insert p pr' (procs w), names := fresh # names w\<rparr>"
    using e by (auto simp: act_named_iff)
  obtain st1 ok where a: "authoritative_locked c fresh (clock w) (p_state pr) = (st1, ok)" by fastforce
  let ?pr1 = "pr\<lparr>p_state := st1\<rparr>"
  let ?w1 = "w\<lparr>procs := bt_insert p ?pr1 (procs w), names := fresh # names w\<rparr>"
  have inv1: "world_inv c ?w1" by (rule auth_inv [OF inv p f a])
  show ?thesis
  proof (cases "s_retired (sess pr)")
    case True
    then show ?thesis using d w' a inv1 by (auto simp: do_renew_begin_def renew_begin_def authoritative_locked_def)
  next
    case False
    have live: "clock ?w1 - x < ttl_ms c" if "s_anchor (sess ?pr1) = Some x" for x
      using auth_cases [OF a] False that by (auto simp: stand_down_fields)
    have p1: "bt_get (procs ?w1) p = Some ?pr1" by (simp add: bt_simps)
    let ?l = "\<lparr>lr_node = s_node (session st1), lr_addr = addr, lr_renewal = s_renewal (session st1) + 1, lr_ttl_ms = ttl_ms c,
      lr_renewed_at_ms = wall, lr_draining = s_draining (session st1)\<rparr>"
    have "world_inv c (?w1\<lparr>procs := bt_insert p (?pr1\<lparr>p_state := (p_state ?pr1)\<lparr>session := (sess ?pr1)\<lparr>s_renewal := s_renewal (session st1) + 1\<rparr>, abandoned := []\<rparr>,
          p_renewals := p_renewals ?pr1 @ [\<lparr>rn_issued = clock ?w1, rn_lease = ?l, rn_delete = abandoned (p_state ?pr1), rn_landed = None\<rparr>]\<rparr>) (procs ?w1)\<rparr>)"
      by (rule renew_begin_update [OF inv1 p1 live]) auto
    then show ?thesis using d w' a False
      by (auto simp: do_renew_begin_def renew_begin_def Let_def bt_insert_twice)
  qed
qed

lemma list_update_mem: "x \<in> set (xs[i := y]) \<Longrightarrow> x = y \<or> x \<in> set xs"
  using set_update_subset_insert [of xs i y] by auto

lemma renew_delete_inv:
  assumes inv: "world_inv c w" and e: "act p (do_renew_delete i) w = Some w'"
  shows "world_inv c w'"
proof -
  obtain pr n ns where p: "bt_get (procs w) p = Some pr" and i: "i < length (p_renewals pr)"
    and d: "rn_delete (p_renewals pr ! i) = n # ns"
    and w': "w' = w\<lparr>bucket := delete_lease n (bucket w),
        procs := bt_insert p (pr\<lparr>p_renewals := (p_renewals pr)[i := (p_renewals pr ! i)\<lparr>rn_delete := ns\<rparr>]\<rparr>) (procs w)\<rparr>"
    using e by (auto simp: act_iff do_renew_delete_def Let_def split: if_splits list.splits)
  let ?r = "p_renewals pr ! i"
  let ?pr = "pr\<lparr>p_renewals := (p_renewals pr)[i := ?r\<lparr>rn_delete := ns\<rparr>]\<rparr>"
  have base: "base_inv c w pr" by (rule world_invD(3) [OF inv p])
  have r: "?r \<in> set (p_renewals pr)" using i by simp
  have mem: "x = ?r\<lparr>rn_delete := ns\<rparr> \<or> x \<in> set (p_renewals pr)" if "x \<in> set (p_renewals ?pr)" for x
    using that list_update_mem by fastforce
  have sp: "\<forall>m \<in> set (n # ns). spent c w m" using base r d unfolding base_inv_def by metis
  have ri: "rn_issued ?r \<le> clock w" "lr_node (rn_lease ?r) \<in> set (names w)" using base r by (auto simp: base_inv_def)
  show ?thesis unfolding w'
  proof (rule delete_inv [OF inv p])
    show "calm c w pr ?pr" by (rule calm_same) (use mem r in fastforce)+
    show "spent c w n" using sp by simp
    show "stamps ?pr \<subseteq> stamps pr" using mem r unfolding stamps_def by fastforce
    show "base_inv c w ?pr" unfolding base_inv_def
    proof (intro conjI)
      show "\<forall>r \<in> set (p_renewals ?pr). rn_issued r \<le> clock w \<and> lr_node (rn_lease r) \<in> set (names w) \<and> (\<forall>n \<in> set (rn_delete r). spent c w n)"
        using mem base sp ri unfolding base_inv_def by fastforce
    qed (use base in \<open>auto simp: base_inv_def\<close>)
    show "key_inv c w ?pr" by (rule key_inv_same [OF world_invD(5) [OF inv p]]) auto
  qed auto
qed

lemma renew_put_inv:
  assumes inv: "world_inv c w" and e: "act p (do_renew_put i) w = Some w'"
  shows "world_inv c w'"
proof -
  obtain pr where p: "bt_get (procs w) p = Some pr" and i: "i < length (p_renewals pr)"
    and d: "rn_landed (p_renewals pr ! i) = None"
    and w': "w' = w\<lparr>bucket := put_lease (clock w) (rn_lease (p_renewals pr ! i)) (bucket w),
        procs := bt_insert p (pr\<lparr>p_renewals := (p_renewals pr)[i := (p_renewals pr ! i)\<lparr>rn_landed := Some (clock w)\<rparr>]\<rparr>) (procs w)\<rparr>"
    using e by (auto simp: act_iff do_renew_put_def Let_def split: if_splits)
  let ?r = "p_renewals pr ! i"
  let ?pr = "pr\<lparr>p_renewals := (p_renewals pr)[i := ?r\<lparr>rn_landed := Some (clock w)\<rparr>]\<rparr>"
  have base: "base_inv c w pr" by (rule world_invD(3) [OF inv p])
  have r: "?r \<in> set (p_renewals pr)" using i by simp
  have ri: "rn_issued ?r \<le> clock w" "lr_node (rn_lease ?r) \<in> set (names w)" "\<forall>n \<in> set (rn_delete ?r). spent c w n"
    using base r by (auto simp: base_inv_def)
  have mem: "x = ?r\<lparr>rn_landed := Some (clock w)\<rparr> \<or> x \<in> set (p_renewals pr)" if "x \<in> set (p_renewals ?pr)" for x
    using that list_update_mem by fastforce
  have "over_in c (clock w) L ?pr n" if o: "over_in c (clock w) L pr n" for L n
  proof -
    have "rn_issued x \<le> L \<or> L + ttl_ms c \<le> rn_issued x"
      if "x \<in> set (p_renewals ?pr)" "lr_node (rn_lease x) = n" "countable c (clock w) x" for x
      using mem [OF that(1)] that(2,3) o r d unfolding over_in_def countable_def by auto
    then show ?thesis using o unfolding over_in_def by simp
  qed
  then have calm: "calm c w pr ?pr" unfolding calm_def current_def by auto
  have l: "later c w w'" unfolding w' by (rule later_act [OF p calm]) auto
  show ?thesis unfolding w'
  proof (rule act_nodes [OF inv p calm])
    show "bucket_inv (w\<lparr>bucket := put_lease (clock w) (rn_lease ?r) (bucket w), procs := bt_insert p ?pr (procs w)\<rparr>)"
      by (rule put_bucket_inv [OF world_invD(2) [OF inv] l [unfolded w']]) (use ri in auto)
    show "base_inv c w ?pr" unfolding base_inv_def
    proof (intro conjI)
      show "\<forall>r \<in> set (p_renewals ?pr). rn_issued r \<le> clock w \<and> lr_node (rn_lease r) \<in> set (names w) \<and> (\<forall>n \<in> set (rn_delete r). spent c w n)"
        using mem base ri unfolding base_inv_def by fastforce
    qed (use base in \<open>auto simp: base_inv_def\<close>)
    show "key_inv c w ?pr" by (rule key_inv_same [OF world_invD(5) [OF inv p]]) auto
    have le: "x \<le> clock w" if "x \<in> stamps ?pr" for x
      using that mem ri base unfolding stamps_def base_inv_def by fastforce
    show "lease_inv c (w\<lparr>bucket := put_lease (clock w) (rn_lease ?r) (bucket w), procs := bt_insert p ?pr (procs w)\<rparr>) ?pr"
    proof (cases "lr_node (rn_lease ?r) = s_node (sess pr)")
      case True
      then show ?thesis using le by (auto simp: lease_inv_def put_lease_fields)
    next
      case False
      then have "stamps ?pr \<subseteq> stamps pr" using mem unfolding stamps_def by fastforce
      then have "lease_inv c w ?pr" using world_invD(4) [OF inv p] unfolding lease_inv_def current_def Let_def by auto
      then show ?thesis by (rule lease_inv_later [OF _ l [unfolded w']]) (use False in \<open>auto simp: put_lease_fields\<close>)
    qed
  qed (use nodes_kept_put [OF world_invD(2) [OF inv]] in \<open>auto simp: put_lease_fields\<close>)
qed

lemma finish_update:
  assumes inv: "world_inv c w" and p: "bt_get (procs w) p = Some pr" and r: "r \<in> set (p_renewals pr)"
    and l: "rn_landed r = Some l" "l \<le> rn_issued r + skew_ms c" "lr_node (rn_lease r) = s_node (sess pr)"
    and ttl: "0 < ttl_ms c" and inn: "\<And>a. s_anchor (sess pr) = Some a \<Longrightarrow> rn_issued r - a < ttl_ms c"
    and rs: "set rs \<subseteq> set (p_renewals pr)"
  shows "world_inv c (w\<lparr>procs := bt_insert p (pr\<lparr>p_state := (p_state pr)\<lparr>session := (sess pr)\<lparr>s_anchor := Some (rn_issued r)\<rparr>\<rparr>,
      p_renewals := rs\<rparr>) (procs w)\<rparr>)" (is "world_inv c (w\<lparr>procs := bt_insert p ?pr (procs w)\<rparr>)")
proof (rule session_update [OF inv p])
  have base: "base_inv c w pr" by (rule world_invD(3) [OF inv p])
  have "over_in c (clock w) L ?pr n" if o: "over_in c (clock w) L pr n" and n: "n = s_node (sess pr)" for L n
  proof -
    obtain a where a: "s_anchor (sess pr) = Some a" "a \<le> L" using o by (auto simp: over_in_def)
    have "rn_issued r \<le> L \<or> L + ttl_ms c \<le> rn_issued r"
      using o r l n unfolding over_in_def countable_def by auto
    then have "rn_issued r \<le> L" using inn [OF a(1)] a(2) ttl by linarith
    then show ?thesis using o rs unfolding over_in_def by auto
  qed
  then show "calm c w pr ?pr" by (auto simp: calm_def current_def)
  show "stamps ?pr \<subseteq> stamps pr" using r l rs unfolding stamps_def by auto
  show "base_inv c w ?pr" using base r rs unfolding base_inv_def by auto
  show "key_inv c w ?pr" by (rule key_inv_session [OF world_invD(5) [OF inv p]]) auto
qed auto

lemma late_add:
  assumes inv: "world_inv c w" and ls: "\<forall>l \<in> set ls. lr_node l \<in> set (names w)"
  shows "world_inv c (w\<lparr>late := late w @ ls\<rparr>)" (is "world_inv c ?w")
proof -
  have l: "later c w ?w" by (rule later_same) auto
  have ds: "displaced c w ?w t m" for t m by (rule displaced_same) simp
  have an: "anchored ?w m = anchored w m" for m by (simp add: anchored_def)
  have "base_inv c ?w qr \<and> lease_inv c ?w qr \<and> key_inv c ?w qr" if "bt_get (procs w) q = Some qr" for q qr
    using base_inv_later [OF world_invD(3) [OF inv that] l] lease_inv_later [OF world_invD(4) [OF inv that] l]
      key_inv_later [OF world_invD(5) [OF inv that] l] by (simp add: records_kept_refl ds)
  then show ?thesis using world_invD(1,2) [OF inv] ls by (auto simp: world_inv_def names_inv_def bucket_inv_def an)
qed

lemma not_counted: "\<not> snd (if b then (x, True) else (y, False)) \<Longrightarrow> fst (if b then (x, True) else (y, False)) = y"
  by (cases b) simp_all

lemma renew_finish_inv:
  assumes inv: "world_inv c w" and env: "timely e" "0 < ttl_ms c"
    and ev: "act p (do_renew_finish c e i out) w = Some w'"
  shows "world_inv c w'"
proof -
  obtain pr where p: "bt_get (procs w) p = Some pr" and i: "i < length (p_renewals pr)"
    and d: "out = PutOk \<longrightarrow> (\<exists>l. rn_landed (p_renewals pr ! i) = Some l \<and> l \<le> rn_issued (p_renewals pr ! i) + skew_ms c)"
    and w': "w' = w\<lparr>procs := bt_insert p
        (pr\<lparr>p_state := fst (renew_finish c (rn_issued (p_renewals pr ! i)) (lr_node (rn_lease (p_renewals pr ! i))) out (p_state pr)),
            p_renewals := drop_nth i (p_renewals pr)\<rparr>) (procs w)\<rparr>"
    using ev env by (auto simp: act_iff do_renew_finish_def Let_def split: if_splits option.splits)
  let ?r = "p_renewals pr ! i"
  have r: "?r \<in> set (p_renewals pr)" using i by simp
  have rs: "set (drop_nth i (p_renewals pr)) \<subseteq> set (p_renewals pr)" using in_drop_nth by fastforce
  show ?thesis
  proof (cases "snd (renew_finish c (rn_issued ?r) (lr_node (rn_lease ?r)) out (p_state pr))")
    case True
    then obtain l where "rn_landed ?r = Some l" "l \<le> rn_issued ?r + skew_ms c" "lr_node (rn_lease ?r) = s_node (sess pr)"
        "\<And>a. s_anchor (sess pr) = Some a \<Longrightarrow> rn_issued ?r - a < ttl_ms c"
      using d by (auto simp: renew_finish_def split: if_splits option.splits)
    from finish_update [OF inv p r this(1-3) env(2) this(4) rs] True show ?thesis
      by (simp add: w' renew_finish_def split: if_splits)
  next
    case False
    let ?pr = "pr\<lparr>p_renewals := drop_nth i (p_renewals pr)\<rparr>"
    have "world_inv c (w\<lparr>procs := bt_insert p ?pr (procs w)\<rparr>)"
    proof (rule session_update [OF inv p])
      show "calm c w pr ?pr" by (rule calm_same) (use rs in auto)
      show "stamps ?pr \<subseteq> stamps pr" using rs by (auto simp: stamps_def)
      show "base_inv c w ?pr" using world_invD(3) [OF inv p] rs by (auto simp: base_inv_def)
      show "key_inv c w ?pr" by (rule key_inv_same [OF world_invD(5) [OF inv p]]) auto
    qed auto
    moreover have "fst (renew_finish c (rn_issued ?r) (lr_node (rn_lease ?r)) out (p_state pr)) = p_state pr"
      using False unfolding renew_finish_def by (rule not_counted)
    ultimately show ?thesis by (simp add: w')
  qed
qed

section \<open>Stopping, sampling and looking\<close>

lemma retire_fields:
  "session (fst (retire_start st)) = (session st)\<lparr>s_retired := True, s_anchor := None\<rparr>"
  "held (fst (retire_start st)) = held st" "dead (fst (retire_start st)) = s_node (session st) # dead st"
  "abandoned (fst (retire_start st)) = abandoned st" "seen (fst (retire_start st)) = seen st"
  by (simp_all add: retire_start_def Let_def)

lemma retire_inv:
  assumes inv: "world_inv c w" and e: "act p do_retire w = Some w'"
  shows "world_inv c w'"
proof -
  obtain pr where p: "bt_get (procs w) p = Some pr"
    and w': "w' = w\<lparr>procs := bt_insert p (pr\<lparr>p_state := fst (retire_start (p_state pr)),
        p_retiring := s_node (sess pr) # p_retiring pr\<rparr>) (procs w)\<rparr>"
    using e by (auto simp: act_iff do_retire_def retire_start_def Let_def)
  let ?pr = "pr\<lparr>p_state := fst (retire_start (p_state pr)), p_retiring := s_node (sess pr) # p_retiring pr\<rparr>"
  have calm: "calm c w pr ?pr" by (simp add: calm_def current_def retire_fields)
  have l: "later c w w'" unfolding w' by (rule later_act [OF p calm]) auto
  have base: "base_inv c w' pr" by (rule base_inv_later [OF world_invD(3) [OF inv p] l])
  have "spent c w' (s_node (sess pr))"
    using world_invD(1) [OF inv] p base unfolding spent_def names_inv_def base_inv_def current_def w'
    by (auto simp: bt_simps retire_fields)
  then have sp: "spent c w' (s_node (sess pr))" .
  have ds: "displaced c w w' t m" for t m by (rule displaced_same) (simp add: w')
  have kw: "key_inv c w' pr" by (rule key_inv_later [OF world_invD(5) [OF inv p] l _ ds]) (simp add: records_kept_refl w')
  show ?thesis
  proof (rule act_inv [OF inv p calm])
    show "bucket_inv w'" by (rule bucket_inv_later [OF world_invD(2) [OF inv] l]) (auto simp: w')
    show "base_inv c w' ?pr" using base sp by (simp add: base_inv_def retire_fields)
    show "lease_inv c w' ?pr" by (simp add: lease_inv_def current_def retire_fields)
    show "key_inv c w' ?pr" by (rule key_inv_session [OF kw]) (simp_all add: retire_fields)
    show "displaced c w w' t (s_node (sess qr))" for qr t by (rule ds)
  qed (auto simp: records_kept_refl w')
qed

lemma retire_delete_inv:
  assumes inv: "world_inv c w" and e: "act p do_retire_delete w = Some w'"
  shows "world_inv c w'"
proof -
  obtain pr b pr' where p: "bt_get (procs w) p = Some pr" and d: "do_retire_delete (clock w) (bucket w) pr = Some (b, pr')"
    and w1: "w' = w\<lparr>bucket := b, procs := bt_insert p pr' (procs w)\<rparr>"
    using e by (auto simp: act_iff)
  from d obtain n ns where n: "p_retiring pr = n # ns" by (cases "p_retiring pr") (auto simp: do_retire_delete_def)
  then have w': "w' = w\<lparr>bucket := delete_lease n (bucket w), procs := bt_insert p (pr\<lparr>p_retiring := ns\<rparr>) (procs w)\<rparr>"
    using d w1 by (simp add: do_retire_delete_def)
  let ?pr = "pr\<lparr>p_retiring := ns\<rparr>"
  have base: "base_inv c w pr" by (rule world_invD(3) [OF inv p])
  show ?thesis unfolding w'
  proof (rule delete_inv [OF inv p])
    show "calm c w pr ?pr" by (rule calm_same) auto
    show "spent c w n" using base n by (auto simp: base_inv_def)
    show "base_inv c w ?pr" using base n by (auto simp: base_inv_def)
    show "key_inv c w ?pr" by (rule key_inv_same [OF world_invD(5) [OF inv p]]) auto
  qed (auto simp: stamps_def)
qed

lemma drain_inv:
  assumes inv: "world_inv c w" and e: "act p (local_section (\<lambda>now. drain_start)) w = Some w'"
  shows "world_inv c w'"
proof -
  obtain pr where p: "bt_get (procs w) p = Some pr"
    and w': "w' = w\<lparr>procs := bt_insert p (pr\<lparr>p_state := drain_start (p_state pr)\<rparr>) (procs w)\<rparr>"
    using e by (auto simp: act_iff local_section_def)
  show ?thesis unfolding w'
  proof (rule quiet_update [OF inv p])
    show "base_inv c w (pr\<lparr>p_state := drain_start (p_state pr)\<rparr>)"
      using world_invD(3) [OF inv p] by (simp add: base_inv_def drain_start_def)
    show "key_inv c w (pr\<lparr>p_state := drain_start (p_state pr)\<rparr>)"
      by (rule key_inv_session [OF world_invD(5) [OF inv p]]) (simp_all add: drain_start_def)
  qed (simp_all add: drain_start_def)
qed

text \<open>A lease that has not been renewed for a whole verdict is the lease of a spent session.\<close>

lemma verdict_spent:
  assumes inv: "world_inv c w" and n: "bt_get (nodes (bucket w)) n = Some (v, x)" and old: "fst v + verdict c \<le> clock w"
    and a: "anchored w n"
  shows "spent c w n"
proof (rule ccontr)
  assume ns: "\<not> spent c w n"
  have "\<exists>L. over_in c (clock w) L pr n" if p: "bt_get (procs w) p = Some pr" and cur: "current pr n" for p pr
  proof -
    have s: "s_node (sess pr) = n" using cur by (simp add: current_def)
    obtain a' where a': "s_anchor (sess pr) = Some a'" using a p cur unfolding anchored_def by blast
    have st: "y \<le> fst v" if "y \<in> stamps pr" for y
      using world_invD(4) [OF inv p] cur ns that n unfolding lease_inv_def s Let_def by auto
    have "rn_issued r \<le> fst v \<or> fst v + ttl_ms c \<le> rn_issued r"
      if "r \<in> set (p_renewals pr)" "lr_node (rn_lease r) = n" "countable c (clock w) r" for r
    proof (cases "rn_landed r")
      case None
      then show ?thesis using that(3) old by (simp add: countable_def verdict_def)
    next
      case (Some l)
      then have "rn_issued r \<in> stamps pr" using that s by (auto simp: stamps_def)
      then show ?thesis using st by simp
    qed
    moreover have "a' \<le> fst v" using st a' by (auto simp: stamps_def)
    ultimately have "over_in c (clock w) (fst v) pr n" using a' old by (simp add: over_in_def verdict_def)
    then show ?thesis by blast
  qed
  moreover have "n \<in> set (names w)" using a by (simp add: anchored_def)
  ultimately show False using ns by (auto simp: spent_def)
qed

text \<open>A session that may act has its lease in the bucket.\<close>

lemma gone_spent:
  assumes inv: "world_inv c w" and n: "bt_get (nodes (bucket w)) n = None" and a: "anchored w n"
  shows "spent c w n"
proof (rule ccontr)
  assume ns: "\<not> spent c w n"
  then obtain p pr where p: "bt_get (procs w) p = Some pr" and cur: "current pr n"
    using a by (auto simp: spent_def anchored_def)
  obtain a' where "s_anchor (sess pr) = Some a'" using a p cur unfolding anchored_def by blast
  then have "a' \<in> stamps pr" by (simp add: stamps_def)
  then show False using world_invD(4) [OF inv p] cur ns n by (auto simp: lease_inv_def current_def)
qed

lemma note_seen_wf [simp]: "bt_wf m \<Longrightarrow> bt_wf (note_seen n v f l m)"
  by (simp add: note_seen_def split: option.splits)

lemma note_seen_get:
  assumes "bt_get (note_seen n v f l m) k = Some s"
  shows "k \<noteq> n \<Longrightarrow> bt_get m k = Some s"
    "k = n \<Longrightarrow> sn_version s = v \<and>
      (sn_first_seen s = f \<or> (\<exists>s0. bt_get m n = Some s0 \<and> sn_version s0 = v \<and> sn_first_seen s = sn_first_seen s0))"
  using assms by (auto simp: note_seen_def bt_simps split: option.splits if_splits)

lemma noted_get:
  assumes "distinct (map fst present)"
    "bt_get (foldl (\<lambda>m (n, v). note_seen n v at (g n) m) m present) k = Some s"
  shows "(k \<notin> fst ` set present \<and> bt_get m k = Some s) \<or>
    ((k, sn_version s) \<in> set present \<and> (sn_first_seen s = at \<or>
       (\<exists>s0. bt_get m k = Some s0 \<and> sn_version s0 = sn_version s \<and> sn_first_seen s = sn_first_seen s0)))"
  using assms
proof (induction present arbitrary: m)
  case (Cons x present)
  obtain n v where x: "x = (n, v)" by (metis surj_pair)
  let ?m = "note_seen n v at (g n) m"
  have d: "distinct (map fst present)" "n \<notin> fst ` set present" using Cons.prems(1) x by auto
  from Cons.IH [OF d(1), of ?m] Cons.prems(2) x
  consider (out) "k \<notin> fst ` set present" "bt_get ?m k = Some s"
    | (inn) "(k, sn_version s) \<in> set present" "sn_first_seen s = at \<or>
       (\<exists>s0. bt_get ?m k = Some s0 \<and> sn_version s0 = sn_version s \<and> sn_first_seen s = sn_first_seen s0)" by auto
  then show ?case
  proof cases
    case out
    then show ?thesis using note_seen_get [OF out(2)] x by (cases "k = n") auto
  next
    case inn
    then have "k \<noteq> n" using d(2) by force
    then show ?thesis using inn x note_seen_get(1) [of n v at "g n" m k] by auto
  qed
qed simp

lemma noted_wf: "bt_wf m \<Longrightarrow> bt_wf (foldl (\<lambda>m (n, v). note_seen n v at (g n) m) m present)"
  by (induction present arbitrary: m) auto

lemma sample_leases_result:
  assumes l: "listed_inv c w asked at present" and wf: "bt_wf (seen st)"
    and old: "\<forall>n s. bt_get (seen st) n = Some s \<longrightarrow> fst (sn_version s) \<le> sn_first_seen s"
    and r: "sample_leases c asked at present bodies st = (st', expired)" and v: "0 < verdict c"
  shows "bt_wf (seen st')" "\<forall>n s. bt_get (seen st') n = Some s \<longrightarrow> fst (sn_version s) \<le> sn_first_seen s"
    "\<forall>n \<in> set expired. spent c w n" "\<exists>x. st' = st\<lparr>seen := x\<rparr>"
proof -
  let ?kept = "bt_retain (bt_has present) (seen st)"
  let ?g = "\<lambda>n. case bt_get bodies n of Some b \<Rightarrow> b | None \<Rightarrow> None"
  let ?noted = "foldl (\<lambda>m (n, v). note_seen n v at (?g n) m) ?kept present"
  have st': "st' = st\<lparr>seen := ?noted\<rparr>"
    and ex: "expired = map fst (filter (\<lambda>(n, s). n \<noteq> s_node (session st) \<and> verdict c \<le> asked - sn_first_seen s) ?noted)"
    using r by (simp_all add: sample_leases_def Let_def)
  then show "\<exists>x. st' = st\<lparr>seen := x\<rparr>" by blast
  have wf': "bt_wf ?noted" by (rule noted_wf) (use wf in simp)
  then show "bt_wf (seen st')" by (simp add: st')
  have get: "(k, sn_version s) \<in> set present \<and> fst (sn_version s) \<le> sn_first_seen s" if "bt_get ?noted k = Some s" for k s
  proof -
    have kept: "bt_has present k \<and> bt_get (seen st) k = Some s0" if "bt_get ?kept k = Some s0" for s0
      using that by (simp add: bt_simps split: if_splits)
    have has: "k \<in> fst ` set present" if "bt_has present k" using that by (metis bt_has_def map_of_eq_None_iff)
    have "fst (sn_version s) \<le> at" if "(k, sn_version s) \<in> set present" using l that by (auto simp: listed_inv_def)
    then show ?thesis using noted_get [OF _ that] l kept has old unfolding listed_inv_def by metis
  qed
  then show "\<forall>n s. bt_get (seen st') n = Some s \<longrightarrow> fst (sn_version s) \<le> sn_first_seen s" by (simp add: st')
  show "\<forall>n \<in> set expired. spent c w n"
  proof
    fix n assume "n \<in> set expired"
    then obtain s where s: "(n, s) \<in> set ?noted" "verdict c \<le> asked - sn_first_seen s" by (auto simp: ex)
    then have "bt_get ?noted n = Some s" using wf' by (simp add: bt_wf_distinct)
    from get [OF this] have "(n, sn_version s) \<in> set present" "fst (sn_version s) + verdict c \<le> asked" using s(2) v by auto
    then show "spent c w n" using l by (auto simp: listed_inv_def)
  qed
qed

lemma listing_inv:
  assumes inv: "world_inv c w" and s: "starts_promptly c w" and asked: "asked \<le> clock w"
  shows "listed_inv c w asked (clock w) (map (\<lambda>(n, v, l). (n, v)) (nodes (bucket w)))"
proof -
  have b: "bt_wf (nodes (bucket w))" "\<And>n v l. bt_get (nodes (bucket w)) n = Some (v, l) \<Longrightarrow> n \<in> set (names w) \<and> fst v \<le> clock w"
    using world_invD(2) [OF inv] unfolding bucket_inv_def by blast+
  have "map fst (map (\<lambda>(n, v, l). (n, v)) (nodes (bucket w))) = map fst (nodes (bucket w))" by auto
  then have "distinct (map fst (map (\<lambda>(n, v, l). (n, v)) (nodes (bucket w))))" using bt_wf_distinct [OF b(1)] by (simp only:)
  moreover have "fst v \<le> clock w \<and> (fst v + verdict c \<le> asked \<longrightarrow> spent c w n)" if "(n, v, l) \<in> set (nodes (bucket w))" for n v l
  proof -
    have get: "bt_get (nodes (bucket w)) n = Some (v, l)" using that bt_wf_distinct [OF b(1)] by simp
    have "spent c w n" if old: "fst v + verdict c \<le> asked"
    proof (rule verdict_spent [OF inv get])
      show "fst v + verdict c \<le> clock w" using old asked by simp
      then have "\<not> (current pr n \<and> s_anchor (sess pr) = None)" if "(p, pr) \<in> set (procs w)" for p pr
        using s \<open>(n, v, l) \<in> _\<close> that unfolding starts_promptly_def list_all_iff by fastforce
      then show "anchored w n" using b(2) [OF get] by (auto simp: anchored_def dest: map_of_SomeD)
    qed
    then show ?thesis using b(2) [OF get] by blast
  qed
  ultimately show ?thesis using asked unfolding listed_inv_def by (intro conjI) auto
qed

lemma verdict_pos: "0 < ttl_ms c \<Longrightarrow> 0 < verdict c"
  by (simp add: verdict_def)

lemma base_inv_sampler:
  assumes b: "base_inv c w pr" and sa: "\<forall>sa \<in> set new. sampler_inv c w sa"
  shows "base_inv c w (replace_sampler i new pr)"
proof -
  have "set (p_samplers (replace_sampler i new pr)) \<subseteq> set (p_samplers pr) \<union> set new"
    by (auto simp: replace_sampler_def dest: in_set_takeD in_set_dropD)
  then have "\<forall>sa \<in> set (p_samplers (replace_sampler i new pr)). sampler_inv c w sa" using b sa by (auto simp: base_inv_def)
  then show ?thesis using b by (simp add: base_inv_def replace_sampler_def)
qed

lemma base_inv_state:
  assumes b: "base_inv c w pr" and same: "session st = sess pr" "held st = held (p_state pr)" "dead st = dead (p_state pr)"
    "abandoned st = abandoned (p_state pr)" and wf: "bt_wf (seen st)"
    and sn: "\<And>n s. bt_get (seen st) n = Some s \<Longrightarrow> fst (sn_version s) \<le> sn_first_seen s"
  shows "base_inv c w (pr\<lparr>p_state := st\<rparr>)"
  using assms by (simp add: base_inv_def)

text \<open>An update of the samplers, looks and caches.\<close>

lemma cache_update:
  assumes inv: "world_inv c w" and p: "bt_get (procs w) p = Some pr"
    and same: "session (p_state pr') = sess pr" "held (p_state pr') = held (p_state pr)" "p_renewals pr' = p_renewals pr"
      "p_writers pr' = p_writers pr"
    and b: "base_inv c w pr'"
  shows "world_inv c (w\<lparr>procs := bt_insert p pr' (procs w)\<rparr>)"
  by (rule quiet_update [OF inv p]) (use same b key_inv_same [OF world_invD(5) [OF inv p]] in simp_all)

lemma sample_next_quiet:
  assumes inv: "world_inv c w" and p: "bt_get (procs w) p = Some pr" and i: "i < length (p_samplers pr)"
    and s: "is_listing i pr \<Longrightarrow> starts_promptly c w" and v: "0 < ttl_ms c"
    and n: "sample_next c ok (clock w) (bucket w) (p_state pr) (p_samplers pr ! i) = (b, st, new)" and b: "b = bucket w"
  shows "world_inv c (w\<lparr>procs := bt_insert p ((replace_sampler i new pr)\<lparr>p_state := st\<rparr>) (procs w)\<rparr>)"
proof -
  have base: "base_inv c w pr" by (rule world_invD(3) [OF inv p])
  have si: "sampler_inv c w (p_samplers pr ! i)" using base i by (simp add: base_inv_def)
  have wf: "bt_wf (seen (p_state pr))" "\<forall>n s. bt_get (seen (p_state pr)) n = Some s \<longrightarrow> fst (sn_version s) \<le> sn_first_seen s"
    using base by (auto simp: base_inv_def)
  have "session st = sess pr \<and> held st = held (p_state pr) \<and> dead st = dead (p_state pr) \<and> abandoned st = abandoned (p_state pr) \<and>
      bt_wf (seen st) \<and> (\<forall>n s. bt_get (seen st) n = Some s \<longrightarrow> fst (sn_version s) \<le> sn_first_seen s) \<and> (\<forall>sa \<in> set new. sampler_inv c w sa)"
  proof (cases "p_samplers pr ! i")
    case (SampleList asked)
    then have "is_listing i pr" using i by (simp add: is_listing_def)
    then have "listed_inv c w asked (clock w) (map (\<lambda>(n, v, l). (n, v)) (nodes (bucket w)))"
      using listing_inv [OF inv s] si SampleList by (simp add: sampler_inv_def)
    then show ?thesis using n SampleList wf by (auto simp: sampler_inv_def)
  next
    case (SampleListed asked present)
    then show ?thesis using n wf si by (auto simp: sampler_inv_def)
  next
    case (SampleBodies asked at present todo bodies)
    then have l: "listed_inv c w asked at present" using si by (simp add: sampler_inv_def)
    show ?thesis
    proof (cases todo)
      case Nil
      obtain st' expired where r: "sample_leases c asked at present bodies (p_state pr) = (st', expired)" by fastforce
      from sample_leases_result [OF l wf r verdict_pos [OF v]] show ?thesis using n SampleBodies Nil r by (auto simp: sampler_inv_def)
    next
      case (Cons m todo')
      then show ?thesis using n SampleBodies wf l by (auto simp: sampler_inv_def)
    qed
  next
    case (SampleDelete ns)
    then show ?thesis using n b wf si by (cases ns) (auto simp: sampler_inv_def)
  next
    case (SampleNewest x)
    then show ?thesis using n wf by (auto simp: sampler_inv_def)
  next
    case (SampleRecords x todo)
    then show ?thesis using n wf by (cases todo) (auto simp: sampler_inv_def remember_owner_def sample_retain_def split: option.splits)
  qed
  then have st: "session st = sess pr" "held st = held (p_state pr)" "dead st = dead (p_state pr)" "abandoned st = abandoned (p_state pr)"
      "bt_wf (seen st)" "\<And>n s. bt_get (seen st) n = Some s \<Longrightarrow> fst (sn_version s) \<le> sn_first_seen s" "\<forall>sa \<in> set new. sampler_inv c w sa"
    by blast+
  show ?thesis
  proof (rule cache_update [OF inv p])
    show "base_inv c w ((replace_sampler i new pr)\<lparr>p_state := st\<rparr>)"
      by (rule base_inv_state [OF base_inv_sampler [OF base st(7)]]) (simp_all add: st replace_sampler_def)
  qed (simp_all add: st replace_sampler_def)
qed

lemma sample_inv:
  assumes inv: "world_inv c w" and s: "\<And>pr. bt_get (procs w) p = Some pr \<Longrightarrow> is_listing i pr \<Longrightarrow> starts_promptly c w"
    and v: "0 < ttl_ms c" and e: "act p (do_sample c i ok) w = Some w'"
  shows "world_inv c w'"
proof -
  obtain pr b st new where p: "bt_get (procs w) p = Some pr" and i: "i < length (p_samplers pr)"
    and n: "sample_next c ok (clock w) (bucket w) (p_state pr) (p_samplers pr ! i) = (b, st, new)"
    and w': "w' = w\<lparr>bucket := b, procs := bt_insert p ((replace_sampler i new pr)\<lparr>p_state := st\<rparr>) (procs w)\<rparr>"
    using e by (auto simp: act_iff do_sample_def split: if_splits prod.splits)
  show ?thesis
  proof (cases "b = bucket w")
    case True
    then show ?thesis using sample_next_quiet [OF inv p i s [OF p] v n] w' by simp
  next
    case False
    then obtain m ns where d: "p_samplers pr ! i = SampleDelete (m # ns)" and ok
      using n by (cases "(c, ok, clock w, bucket w, p_state pr, p_samplers pr ! i)" rule: sample_next.cases)
        (auto split: prod.splits if_splits)
    then have r: "b = delete_lease m (bucket w)" "st = p_state pr" "new = [SampleDelete ns]" using n by auto
    have base: "base_inv c w pr" by (rule world_invD(3) [OF inv p])
    have "sampler_inv c w (SampleDelete (m # ns))" using base i d unfolding base_inv_def by (metis nth_mem)
    then have sp: "spent c w m" "sampler_inv c w (SampleDelete ns)" by (auto simp: sampler_inv_def)
    let ?pr = "replace_sampler i [SampleDelete ns] pr"
    have "world_inv c (w\<lparr>bucket := delete_lease m (bucket w), procs := bt_insert p ?pr (procs w)\<rparr>)"
    proof (rule delete_inv [OF inv p])
      show "calm c w pr ?pr" by (rule calm_same) (auto simp: replace_sampler_def)
      show "base_inv c w ?pr" by (rule base_inv_sampler [OF base]) (use sp in simp)
      show "key_inv c w ?pr" by (rule key_inv_same [OF world_invD(5) [OF inv p]]) (auto simp: replace_sampler_def)
    qed (use sp in \<open>auto simp: replace_sampler_def stamps_def\<close>)
    then show ?thesis using w' r by (simp add: replace_sampler_def)
  qed
qed

lemma look_next_state:
  assumes b: "bucket_inv w" and l: "look_inv c w lk" and wf: "bt_wf (seen st)"
    and old: "\<forall>n s. bt_get (seen st) n = Some s \<longrightarrow> fst (sn_version s) \<le> sn_first_seen s"
    and r: "look_next c e (clock w) (bucket w) n st lk = (st', r)"
  shows "\<exists>x. st' = st\<lparr>seen := x\<rparr>" "bt_wf (seen st')"
    "\<forall>n s. bt_get (seen st') n = Some s \<longrightarrow> fst (sn_version s) \<le> sn_first_seen s"
    "r = Inr lk' \<Longrightarrow> look_inv c w lk'"
proof -
  have same: "\<exists>x. st = st\<lparr>seen := x\<rparr>" by (rule exI [of _ "seen st"]) simp
  have v: "fst v \<le> clock w" if "bt_get (nodes (bucket w)) n = Some (v, x)" for v x
    using b that unfolding bucket_inv_def by blast
  have "(\<exists>x. st' = st\<lparr>seen := x\<rparr>) \<and> bt_wf (seen st') \<and>
    (\<forall>n s. bt_get (seen st') n = Some s \<longrightarrow> fst (sn_version s) \<le> sn_first_seen s) \<and> (\<forall>lk'. r = Inr lk' \<longrightarrow> look_inv c w lk')"
  proof (cases lk)
    case (LookGet t0 asked)
    then show ?thesis using r l wf old same v by (auto simp: look_inv_def)
  next
    case (LookGot t0 asked got)
    show ?thesis
    proof (cases got)
      case None
      then show ?thesis using r l wf old LookGot by (auto simp: look_note_def bt_simps split: if_splits)
    next
      case (Some vl)
      then obtain v x where got: "got = Some (v, x)" by (cases vl) simp
      let ?m = "note_seen n v (clock w) x (seen st)"
      have le: "fst v \<le> clock w" "t0 \<le> clock w" "asked \<le> clock w" using l LookGot got by (cases v; auto simp: look_inv_def)+
      have "fst (sn_version s) \<le> sn_first_seen s" if "bt_get ?m k = Some s" for k s
        using note_seen_get [OF that] old le by (metis order_trans)
      moreover have "bt_wf ?m" using wf by simp
      moreover have "st' = st\<lparr>seen := ?m\<rparr>" using r LookGot got by (auto simp: look_note_def split: if_splits)
      moreover have "look_inv c w lk''" if "r = Inr lk''" for lk''
        using r that LookGot got le by (auto simp: look_note_def look_inv_def split: if_splits)
      ultimately show ?thesis by auto
    qed
  next
    case (LookJudge t)
    then show ?thesis using r wf old same by auto
  qed
  then show "\<exists>x. st' = st\<lparr>seen := x\<rparr>" "bt_wf (seen st')"
    "\<forall>n s. bt_get (seen st') n = Some s \<longrightarrow> fst (sn_version s) \<le> sn_first_seen s"
    "r = Inr lk' \<Longrightarrow> look_inv c w lk'" by blast+
qed

text \<open>A claim goes on only when the owner is spent.\<close>

lemma look_next_claim:
  assumes inv: "world_inv c w" and l: "look_inv c w lk" and cl: "claim_look c w n lk" and a: "anchored w n"
    and old: "\<forall>n s. bt_get (seen st) n = Some s \<longrightarrow> fst (sn_version s) \<le> sn_first_seen s"
    and env: "undisturbed e" "0 < ttl_ms c"
    and r: "look_next c e (clock w) (bucket w) n st lk = (st', r)"
  shows "r = Inl v \<Longrightarrow> lease_verdict v = None \<Longrightarrow> spent c w n" "r = Inr lk' \<Longrightarrow> claim_look c w n lk'"
proof -
  have "(\<forall>v. r = Inl v \<longrightarrow> lease_verdict v = None \<longrightarrow> spent c w n) \<and> (\<forall>lk'. r = Inr lk' \<longrightarrow> claim_look c w n lk')"
  proof (cases lk)
    case (LookGet t0 asked)
    have "spent c w n" if "bt_get (nodes (bucket w)) n = None" by (rule gone_spent [OF inv that a])
    moreover have "spent c w n" if "bt_get (nodes (bucket w)) n = Some (v, x)" "fst v + verdict c \<le> asked" for v x
      using verdict_spent [OF inv that(1) _ a] that(2) l LookGet by (simp add: look_inv_def)
    ultimately show ?thesis using r LookGet by (auto simp: claim_look_def split: option.splits)
  next
    case (LookGot t0 asked got)
    show ?thesis
    proof (cases got)
      case None
      then show ?thesis using r cl LookGot by (auto simp: claim_look_def look_note_def)
    next
      case (Some vl)
      then obtain v x where got: "got = Some (v, x)" by (cases vl) simp
      let ?m = "note_seen n v (clock w) x (seen st)"
      have le: "t0 \<le> clock w" "asked \<le> clock w" using l LookGot by (auto simp: look_inv_def)
      have sp: "spent c w n" if "fst v + verdict c \<le> asked" using that cl LookGot got by (simp add: claim_look_def)
      have pos: "0 < verdict c" by (rule verdict_pos [OF env(2)])
      let ?t = "if (case bt_get (seen st) n of Some s \<Rightarrow> sn_version s = v | None \<Rightarrow> False) then asked else t0"
      have j: "r = Inl (look_judge c n ?t (st\<lparr>seen := ?m\<rparr>))"
        using r LookGot got env by (auto simp: look_note_def)
      have "spent c w n" if "lease_verdict (look_judge c n ?t (st\<lparr>seen := ?m\<rparr>)) = None"
      proof (cases "bt_get (seen st) n")
        case None
        then show ?thesis using that le pos by (simp add: look_judge_def note_seen_def bt_simps Let_def lease_verdict_def)
      next
        case (Some s)
        then have "fst (sn_version s) \<le> sn_first_seen s" using old by blast
        then show ?thesis using that le pos Some sp
          by (auto simp: look_judge_def note_seen_def bt_simps Let_def lease_verdict_def split: if_splits)
      qed
      then show ?thesis using j by auto
    qed
  next
    case (LookJudge t)
    then show ?thesis using cl by (simp add: claim_look_def)
  qed
  then show "r = Inl v \<Longrightarrow> lease_verdict v = None \<Longrightarrow> spent c w n" "r = Inr lk' \<Longrightarrow> claim_look c w n lk'" by blast+
qed

lemma base_inv_look:
  assumes b: "base_inv c w pr" and new: "\<forall>(n, lk) \<in> set new. look_inv c w lk"
  shows "base_inv c w (replace_look i new pr)"
proof -
  have "set (p_looks (replace_look i new pr)) \<subseteq> set (p_looks pr) \<union> set new"
    by (auto simp: replace_look_def dest: in_set_takeD in_set_dropD)
  then have "\<forall>(n, lk) \<in> set (p_looks (replace_look i new pr)). look_inv c w lk" using b new unfolding base_inv_def by blast
  then show ?thesis using b by (simp add: base_inv_def replace_look_def)
qed

lemma look_event_inv:
  assumes inv: "world_inv c w" and e: "act p (do_look c e' i) w = Some w'"
  shows "world_inv c w'"
proof -
  obtain pr b pr' where p: "bt_get (procs w) p = Some pr" and d: "do_look c e' i (clock w) (bucket w) pr = Some (b, pr')"
    and w': "w' = w\<lparr>bucket := b, procs := bt_insert p pr' (procs w)\<rparr>"
    using e by (auto simp: act_iff)
  have base: "base_inv c w pr" by (rule world_invD(3) [OF inv p])
  have i: "i < length (p_looks pr)" using d by (auto simp: do_look_def split: if_splits)
  obtain n lk where nl: "p_looks pr ! i = (n, lk)" by fastforce
  obtain st r where r: "look_next c e' (clock w) (bucket w) n (p_state pr) lk = (st, r)" by fastforce
  let ?new = "case r of Inl _ \<Rightarrow> [] | Inr lk' \<Rightarrow> [(n, lk')]"
  have pr': "b = bucket w" "pr' = (replace_look i ?new pr)\<lparr>p_state := st\<rparr>"
    using d i nl r by (auto simp: do_look_def split: sum.splits)
  have "(n, lk) \<in> set (p_looks pr)" using i nl by (metis nth_mem)
  then have l: "look_inv c w lk" using base unfolding base_inv_def by blast
  have "bt_wf (seen (p_state pr))" "\<forall>n s. bt_get (seen (p_state pr)) n = Some s \<longrightarrow> fst (sn_version s) \<le> sn_first_seen s"
    using base by (auto simp: base_inv_def)
  note s = look_next_state [OF world_invD(2) [OF inv] l this r]
  obtain x where x: "st = (p_state pr)\<lparr>seen := x\<rparr>" using s(1) by blast
  have "world_inv c (w\<lparr>procs := bt_insert p ((replace_look i ?new pr)\<lparr>p_state := st\<rparr>) (procs w)\<rparr>)"
  proof (rule cache_update [OF inv p])
    have "base_inv c w (replace_look i ?new pr)" by (rule base_inv_look [OF base]) (use s(4) in \<open>auto split: sum.splits\<close>)
    then show "base_inv c w ((replace_look i ?new pr)\<lparr>p_state := st\<rparr>)"
      by (rule base_inv_state) (use s(2,3) x in \<open>simp_all add: replace_look_def\<close>)
  qed (simp_all add: replace_look_def x)
  then show ?thesis using w' pr' by simp
qed

lemma look_begin_inv:
  assumes inv: "world_inv c w" and e: "act p (do_look_begin n fr) w = Some w'"
  shows "world_inv c w'"
proof -
  obtain pr b pr' where p: "bt_get (procs w) p = Some pr" and d: "do_look_begin n fr (clock w) (bucket w) pr = Some (b, pr')"
    and w': "w' = w\<lparr>bucket := b, procs := bt_insert p pr' (procs w)\<rparr>"
    using e by (auto simp: act_iff)
  have base: "base_inv c w pr" by (rule world_invD(3) [OF inv p])
  obtain new where b: "b = bucket w" "pr' = pr\<lparr>p_looks := p_looks pr @ new\<rparr>" "\<forall>(n, lk) \<in> set new. look_inv c w lk"
  proof (cases "look_start n fr (p_state pr)")
    case (Inl l)
    then show ?thesis using d that [of "[]"] by (simp add: do_look_begin_def)
  next
    case (Inr g)
    then show ?thesis using d that [of "[(n, if g then LookGet (clock w) (clock w) else LookJudge (clock w))]"]
      by (auto simp: do_look_begin_def look_inv_def)
  qed
  have "world_inv c (w\<lparr>procs := bt_insert p (pr\<lparr>p_looks := p_looks pr @ new\<rparr>) (procs w)\<rparr>)"
    by (rule cache_update [OF inv p]) (use base b(3) in \<open>auto simp: base_inv_def\<close>)
  then show ?thesis using w' b by simp
qed

section \<open>Writing records\<close>

lemma set_writer_fields [simp]:
  "p_state (set_writer t wr pr) = p_state pr" "p_renewals (set_writer t wr pr) = p_renewals pr"
  "p_looks (set_writer t wr pr) = p_looks pr" "p_samplers (set_writer t wr pr) = p_samplers pr"
  "p_retiring (set_writer t wr pr) = p_retiring pr"
  "bt_get (p_writers (set_writer t wr pr)) u = (if u = t then wr else bt_get (p_writers pr) u)"
  by (auto simp: set_writer_def bt_simps split: option.splits)

lemma base_inv_writer: "base_inv c w (set_writer t wr pr) = base_inv c w pr"
  by (simp add: base_inv_def)

lemma writer_inv_same:
  assumes "s_node (sess pr') = s_node (sess pr)" "bt_get (held (p_state pr')) t = bt_get (held (p_state pr)) t"
  shows "writer_inv c w pr' t wr = writer_inv c w pr t wr"
proof -
  have "me_ok w pr' t = me_ok w pr t" "change_ok pr' t = change_ok pr t"
    using assms by (auto simp: me_ok_def change_ok_def fun_eq_iff split: change.splits)
  then show ?thesis by (simp add: writer_inv_def write_ok_def split: writer.splits)
qed

lemma held_inv_same: "sess pr' = sess pr \<Longrightarrow> held_inv c w pr' t h = held_inv c w pr t h"
  by (simp add: held_inv_def current_def)

text \<open>One key changes: its writer, and what is held of it.\<close>

lemma key_update:
  assumes k: "key_inv c w pr" and same: "session st = sess pr"
    and h: "\<And>u. u \<noteq> t \<Longrightarrow> bt_get (held st) u = bt_get (held (p_state pr)) u"
    and ht: "\<And>x. bt_get (held st) t = Some x \<Longrightarrow> held_inv c w pr t x"
    and wt: "\<And>x. wr = Some x \<Longrightarrow> writer_inv c w (pr\<lparr>p_state := st\<rparr>) t x"
  shows "key_inv c w (set_writer t wr (pr\<lparr>p_state := st\<rparr>))"
proof -
  let ?pr = "set_writer t wr (pr\<lparr>p_state := st\<rparr>)"
  have "writer_inv c w ?pr u x" if u: "bt_get (p_writers ?pr) u = Some x" for u x
  proof (cases "u = t")
    case True
    then show ?thesis using wt [of x] u writer_inv_same [of ?pr "pr\<lparr>p_state := st\<rparr>" t c w x] by simp
  next
    case False
    then show ?thesis using k u h [OF False] same writer_inv_same [of ?pr pr u c w x] by (simp add: key_inv_def)
  qed
  moreover have "held_inv c w ?pr u x" if "bt_get (held (p_state ?pr)) u = Some x" for u x
    using that k h [of u] ht [of x] same held_inv_same [of ?pr pr c w u x] by (cases "u = t") (auto simp: key_inv_def)
  ultimately show ?thesis by (simp add: key_inv_def)
qed

lemma write_update:
  assumes inv: "world_inv c w" and p: "bt_get (procs w) p = Some pr"
    and same: "session st = sess pr" "dead st = dead (p_state pr)" "abandoned st = abandoned (p_state pr)"
    and seen: "bt_wf (seen st)" "\<forall>n s. bt_get (seen st) n = Some s \<longrightarrow> fst (sn_version s) \<le> sn_first_seen s"
    and h0: "s_anchor (sess pr) = None \<Longrightarrow> \<not> s_retired (sess pr) \<Longrightarrow> held st = []"
    and h: "\<And>u. u \<noteq> t \<Longrightarrow> bt_get (held st) u = bt_get (held (p_state pr)) u"
    and ht: "\<And>x. bt_get (held st) t = Some x \<Longrightarrow> held_inv c w pr t x"
    and wt: "\<And>x. wr = Some x \<Longrightarrow> writer_inv c w (pr\<lparr>p_state := st\<rparr>) t x"
  shows "world_inv c (w\<lparr>procs := bt_insert p (set_writer t wr (pr\<lparr>p_state := st\<rparr>)) (procs w)\<rparr>)"
proof (rule quiet_update [OF inv p])
  show "key_inv c w (set_writer t wr (pr\<lparr>p_state := st\<rparr>))"
    by (rule key_update [OF world_invD(5) [OF inv p] same(1) h ht wt])
  show "base_inv c w (set_writer t wr (pr\<lparr>p_state := st\<rparr>))"
    using world_invD(3) [OF inv p] same seen h0 by (simp add: base_inv_def)
qed (use same in simp_all)

lemma base_seen:
  assumes "base_inv c w pr"
  shows "bt_wf (seen (p_state pr))" "\<forall>n s. bt_get (seen (p_state pr)) n = Some s \<longrightarrow> fst (sn_version s) \<le> sn_first_seen s"
    "s_anchor (sess pr) = None \<Longrightarrow> \<not> s_retired (sess pr) \<Longrightarrow> held (p_state pr) = []"
    "s_node (sess pr) \<in> set (names w)"
  using assms by (auto simp: base_inv_def)

text \<open>The steps that leave the bucket and what is held alone.\<close>

lemma reading_step:
  assumes inv: "world_inv c w" and p: "bt_get (procs w) p = Some pr"
  shows "newest (bucket w) t = 0 \<Longrightarrow> writer_inv c w pr t (Ready 0 None (s_node (sess pr)))"
    "bt_get (own (bucket w)) (t, s) = Some r \<Longrightarrow>
       read_ok w t s (Some r) \<and> me_ok w pr t (s_node (sess pr)) \<and> (ow_node r \<noteq> [] \<longrightarrow> anchored w (ow_node r))"
proof -
  have me: "me_ok w pr t (s_node (sess pr))" using base_seen(4) [OF world_invD(3) [OF inv p]] by (simp add: me_ok_def)
  have b: "0 < x \<and> (ow_node y \<noteq> [] \<longrightarrow> anchored w (ow_node y))" if "bt_get (own (bucket w)) (u, x) = Some y" for u x y
    using world_invD(2) [OF inv] that unfolding bucket_inv_def by blast
  show "writer_inv c w pr t (Ready 0 None (s_node (sess pr)))" if "newest (bucket w) t = 0"
    using b [of t 0] me that by (cases "bt_get (own (bucket w)) (t, 0)") (auto simp: writer_inv_def read_ok_def)
  show "read_ok w t s (Some r) \<and> me_ok w pr t (s_node (sess pr)) \<and> (ow_node r \<noteq> [] \<longrightarrow> anchored w (ow_node r))"
    if "bt_get (own (bucket w)) (t, s) = Some r"
    using b [OF that] me that top_ge [of "bucket w" t s] by (auto simp: read_ok_def)
qed

text \<open>The result of a step that leaves the bucket alone and does not finish.\<close>

lemma write_next_quiet:
  assumes inv: "world_inv c w" and p: "bt_get (procs w) p = Some pr" and wi: "writer_inv c w pr t wr"
    and env: "undisturbed e" "0 < ttl_ms c"
    and n: "write_next c e ok (clock w) (bucket w) t (p_state pr) wr = Some (b, st, wr')" and b: "b = bucket w"
    and fin: "\<And>ch s r me x. wr \<noteq> Finishing ch s r me x" and del: "\<And>ch s r me v vs. wr \<noteq> Deleting ch s r me (v # vs)"
  shows "\<exists>x y. st = (p_state pr)\<lparr>seen := x, owners := y\<rparr> \<and> bt_wf x \<and>
      (\<forall>n s. bt_get x n = Some s \<longrightarrow> fst (sn_version s) \<le> sn_first_seen s) \<and> (\<forall>z. wr' = Some z \<longrightarrow> writer_inv c w pr t z)"
    (is "\<exists>x y. ?P x y")
proof -
  have base: "base_inv c w pr" by (rule world_invD(3) [OF inv p])
  note bs = base_seen [OF base]
  have same: "\<exists>x y. ?P x y" if "st = p_state pr \<or> (\<exists>y. st = (p_state pr)\<lparr>owners := y\<rparr>)" "\<forall>z. wr' = Some z \<longrightarrow> writer_inv c w pr t z"
    using that(1)
  proof (elim disjE exE)
    fix y assume "st = (p_state pr)\<lparr>owners := y\<rparr>"
    then have "?P (seen (p_state pr)) y" using that(2) bs by simp
    then show ?thesis by blast
  next
    assume "st = p_state pr"
    then have "?P (seen (p_state pr)) (owners (p_state pr))" using that(2) bs by simp
    then show ?thesis by blast
  qed
  show ?thesis
  proof (cases wr)
    case (Reading k)
    show ?thesis
    proof (cases k)
      case 0
      then show ?thesis using n Reading by (intro same) auto
    next
      case (Suc k')
      show ?thesis
      proof (rule same)
        show "\<forall>z. wr' = Some z \<longrightarrow> writer_inv c w pr t z"
          using n Reading Suc reading_step(1) [OF inv p, of t]
          by (auto simp: Let_def newest_def [symmetric] writer_inv_def split: if_splits)
      qed (use n Reading Suc in \<open>auto simp: Let_def forget_owner_def split: if_splits\<close>)
    qed
  next
    case (Getting k s)
    show ?thesis
    proof (cases "bt_get (own (bucket w)) (t, s)")
      case None
      then show ?thesis using n Getting by (intro same) (auto simp: writer_inv_def)
    next
      case (Some r)
      from reading_step(2) [OF inv p Some] n Getting Some show ?thesis
        by (intro same) (auto simp: Let_def writer_inv_def remember_owner_def claim_asks_def yields_def split: if_splits)
    qed
  next
    case (Asking s r me)
    have "spent c w m" if "m \<in> set (dead (p_state pr))" for m using base that by (auto simp: base_inv_def)
    then show ?thesis using n Asking wi
      by (intro same) (auto simp: writer_inv_def look_start_def yields_def look_inv_def claim_look_def split: if_splits)
  next
    case (Looking s r me lk)
    then have l: "read_ok w t s (Some r)" "me_ok w pr t me" "look_inv c w lk" "claim_look c w (ow_node r) lk" "ow_node r \<noteq> []"
      using wi by (auto simp: writer_inv_def)
    then have a: "anchored w (ow_node r)" by (auto simp: read_ok_def)
    obtain st' res where ln: "look_next c e (clock w) (bucket w) (ow_node r) (p_state pr) lk = (st', res)" by fastforce
    note ls = look_next_state [OF world_invD(2) [OF inv] l(3) bs(1,2) ln]
    note lc = look_next_claim [OF inv l(3,4) a bs(2) env ln]
    have st: "st = st'" using n Looking ln by (auto split: sum.splits)
    have "writer_inv c w pr t z" if "wr' = Some z" for z
      using n Looking ln that lc ls(4) l by (auto simp: writer_inv_def yields_def split: sum.splits if_splits)
    moreover obtain x where "st' = (p_state pr)\<lparr>seen := x\<rparr>" using ls(1) by blast
    ultimately have "?P x (owners (p_state pr))" using st ls(2,3) by simp
    then show ?thesis by blast
  next
    case (Ready s r me)
    then show ?thesis using n by simp
  next
    case (Putting ch s r me)
    have "put_record t s r (bucket w) = None"
    proof (cases "put_record t s r (bucket w)")
      case (Some b')
      then have "b' = bucket w" using n b Putting by simp
      then show ?thesis using top_put(2,4) [OF Some] by (metis fun_upd_same option.distinct(1))
    qed
    then show ?thesis using n b wi Putting by (intro same) (auto simp: writer_inv_def)
  next
    case (Listing ch s r me)
    have "newest_owner (bucket w) t = me" if "newest (bucket w) t = s" "ch \<noteq> Releasing"
      using wi Listing that by (auto simp: writer_inv_def write_ok_def change_ok_def newest_owner_def
          claim_record_def epoch_record_def alarms_record_def split: change.splits)
    then show ?thesis using n Listing wi
      by (intro same) (auto simp: writer_inv_def Let_def written_def write_counts_def collected_def newest_def [symmetric] split: if_splits)
  next
    case (Deleting ch s r me vs)
    then have "vs = []" using del by (cases vs) auto
    then show ?thesis using n wi Deleting by (intro same) (auto simp: writer_inv_def remember_owner_def)
  next
    case (Finishing ch s r me x)
    then show ?thesis using fin by blast
  qed
qed

lemma write_quiet_inv:
  assumes inv: "world_inv c w" and p: "bt_get (procs w) p = Some pr" and wr: "bt_get (p_writers pr) t = Some wr"
    and env: "undisturbed e" "0 < ttl_ms c"
    and n: "write_next c e ok (clock w) (bucket w) t (p_state pr) wr = Some (b, st, wr')" and b: "b = bucket w"
    and fin: "\<And>ch s r me x. wr \<noteq> Finishing ch s r me x" and del: "\<And>ch s r me v vs. wr \<noteq> Deleting ch s r me (v # vs)"
  shows "world_inv c (w\<lparr>procs := bt_insert p (set_writer t wr' (pr\<lparr>p_state := st\<rparr>)) (procs w)\<rparr>)"
proof -
  have k: "key_inv c w pr" by (rule world_invD(5) [OF inv p])
  have wi: "writer_inv c w pr t wr" using k wr by (simp add: key_inv_def)
  from write_next_quiet [OF inv p wi env n b fin del]
  obtain x y where xy: "st = (p_state pr)\<lparr>seen := x, owners := y\<rparr>" "bt_wf x"
      "\<forall>n s. bt_get x n = Some s \<longrightarrow> fst (sn_version s) \<le> sn_first_seen s" "\<forall>z. wr' = Some z \<longrightarrow> writer_inv c w pr t z" by blast
  show ?thesis
  proof (rule write_update [OF inv p])
    show "writer_inv c w (pr\<lparr>p_state := st\<rparr>) t z" if "wr' = Some z" for z
      using xy(4) that writer_inv_same [of "pr\<lparr>p_state := st\<rparr>" pr t c w z] xy(1) by simp
    show "held_inv c w pr t z" if "bt_get (held st) t = Some z" for z
      using k that xy(1) by (simp add: key_inv_def)
  qed (use xy base_seen [OF world_invD(3) [OF inv p]] in simp_all)
qed

lemma change_owner:
  assumes "change_ok pr t ch s r me" "ch \<noteq> Releasing"
  shows "ow_node r = me"
  using assms by (auto simp: change_ok_def claim_record_def epoch_record_def alarms_record_def split: change.splits)

lemma put_inv:
  assumes inv: "world_inv c w" and p: "bt_get (procs w) p = Some pr" and wr: "bt_get (p_writers pr) t = Some (Putting ch s r me)"
    and b: "put_record t s r (bucket w) = Some b'"
  shows "world_inv c (w\<lparr>bucket := b', procs := bt_insert p (set_writer t (Some (Listing ch s r me)) pr) (procs w)\<rparr>)"
    (is "world_inv c ?w")
proof -
  let ?pr = "set_writer t (Some (Listing ch s r me)) pr"
  have k: "key_inv c w pr" by (rule world_invD(5) [OF inv p])
  have wi: "writer_inv c w pr t (Putting ch s r me)" using k wr by (simp add: key_inv_def)
  then have wo: "write_ok w pr t ch s r me" and s: "0 < s" "s \<le> Suc (newest (bucket w) t)"
      "s = Suc (newest (bucket w) t) \<Longrightarrow> yields c w me (newest_owner (bucket w) t)"
    by (auto simp: writer_inv_def write_ok_def)
  have mo: "me_ok w pr t me" "anchored w me" "change_ok pr t ch s r me" using wo by (auto simp: write_ok_def)
  note tp = top_put [OF b]
  have calm: "calm c w pr ?pr" by (rule calm_same) auto
  have l: "later c w ?w" by (rule later_act [OF p calm]) auto
  have kept: "records_kept (bucket w) (bucket ?w)" using records_kept_put [OF b s(1)] by simp
  have new: "newest b' t = s \<and> s = Suc (newest (bucket w) t) \<and> newest_owner b' t = ow_node r"
    if "newest b' t \<noteq> newest (bucket w) t" using that s tp by (auto simp: newest_owner_def max_def split: if_splits)
  have other: "displaced c w ?w u n" if "u \<noteq> t" for u n using that tp by (simp add: displaced_def)
  have w_later: "writer_inv c ?w pr t (Listing ch s r me)"
    using write_ok_later [OF wo l] tp by (auto simp: writer_inv_def max_def)
  show ?thesis
  proof (rule act_inv [OF inv p calm])
    show "bucket_inv ?w"
      using world_invD(2) [OF inv] mo change_owner [OF mo(3)] s(1) later_anchored [OF l] tp
      unfolding bucket_inv_def by (cases "ch = Releasing") (auto simp: change_ok_def split: if_splits)
    show "base_inv c ?w ?pr" using base_inv_later [OF world_invD(3) [OF inv p] l] by (simp add: base_inv_writer)
    have "lease_inv c ?w pr" by (rule lease_inv_later [OF world_invD(4) [OF inv p] l]) (use tp in auto)
    then show "lease_inv c ?w ?pr" by (simp add: lease_inv_def stamps_def current_def)
    have "writer_inv c ?w ?pr u x" if u: "bt_get (p_writers ?pr) u = Some x" for u x
    proof (cases "u = t")
      case True
      then show ?thesis using u w_later writer_inv_same [of ?pr pr t c ?w x] by simp
    next
      case False
      then have "writer_inv c w pr u x" using k u by (simp add: key_inv_def)
      from writer_inv_later [OF this l kept other [OF False]] show ?thesis
        using writer_inv_same [of ?pr pr u c ?w x] by simp
    qed
    moreover have "held_inv c ?w ?pr u h" if u: "bt_get (held (p_state pr)) u = Some h" for u h
    proof -
      have hi: "held_inv c w pr u h" using k u by (simp add: key_inv_def)
      show ?thesis
      proof (cases "u = t \<and> newest b' t \<noteq> newest (bucket w) t")
        case True
        then have "me = s_node (sess pr)" "ch \<noteq> Releasing" using mo u by (auto simp: me_ok_def change_ok_def)
        then have "newest_owner b' t = s_node (sess pr)" using new change_owner [OF mo(3)] True by simp
        moreover have "h_seq h < newest b' t" using new hi True by (auto simp: held_inv_def Let_def)
        ultimately show ?thesis using True by (simp add: held_inv_def)
      next
        case False
        then have "displaced c w ?w u n" for n using other by (cases "u = t") (auto simp: displaced_def)
        from held_inv_later [OF hi l kept this] show ?thesis using held_inv_same [of ?pr pr c ?w u h] by simp
      qed
    qed
    ultimately show "key_inv c ?w ?pr" by (simp add: key_inv_def)
    show "displaced c w ?w u (s_node (sess qr))" if q: "q \<noteq> p" "bt_get (procs w) q = Some qr" for q qr u
    proof (cases "u = t")
      case True
      have "spent c ?w (s_node (sess qr))"
        if "newest b' t \<noteq> newest (bucket w) t" "newest_owner (bucket w) t = s_node (sess qr)"
      proof -
        have "s_node (sess qr) \<noteq> []"
          using base_seen(4) [OF world_invD(3) [OF inv q(2)]] world_invD(1) [OF inv] by (auto simp: names_inv_def)
        moreover have "s_node (sess qr) \<noteq> me"
          using mo(1) q p world_invD(1) [OF inv] unfolding me_ok_def nobody_def names_inv_def by metis
        ultimately have "spent c w (s_node (sess qr))" using s(3) new [OF that(1)] that(2) by (auto simp: yields_def)
        then show ?thesis by (rule later_spent [OF l])
      qed
      then show ?thesis using True by (simp add: displaced_def)
    qed (rule other)
  qed (use kept tp in auto)
qed

lemma delete_record_inv:
  assumes inv: "world_inv c w" and p: "bt_get (procs w) p = Some pr"
    and wr: "bt_get (p_writers pr) t = Some (Deleting ch s r me (v # vs))"
    and b: "b' = delete_record t v (bucket w) \<or> b' = bucket w"
  shows "world_inv c (w\<lparr>bucket := b', procs := bt_insert p (set_writer t (Some (Deleting ch s r me vs)) pr) (procs w)\<rparr>)"
    (is "world_inv c ?w")
proof -
  let ?pr = "set_writer t (Some (Deleting ch s r me vs)) pr"
  have k: "key_inv c w pr" by (rule world_invD(5) [OF inv p])
  have wi: "writer_inv c w pr t (Deleting ch s r me (v # vs))" using k wr by (simp add: key_inv_def)
  then have v: "v < newest (bucket w) t" by (auto simp: writer_inv_def written_def)
  have calm: "calm c w pr ?pr" by (rule calm_same) auto
  have l: "later c w ?w" by (rule later_act [OF p calm]) auto
  have kept: "records_kept (bucket w) (bucket ?w)" using b records_kept_delete [OF v] records_kept_refl by auto
  have nw: "newest b' u = newest (bucket w) u" for u using b top_delete [OF v] by auto
  have ds: "displaced c w ?w u n" for u n using nw by (simp add: displaced_def)
  have own: "bt_get (own b') x = Some y \<Longrightarrow> bt_get (own (bucket w)) x = Some y" "nodes b' = nodes (bucket w)" for x y
    using b by (auto simp: delete_record_def bt_simps split: if_splits)
  have k': "key_inv c w ?pr"
  proof -
    have "writer_inv c w pr t (Deleting ch s r me vs)" using wi by (simp add: writer_inv_def)
    then show ?thesis using key_update [OF k, of "p_state pr" t "Some (Deleting ch s r me vs)"] k by (simp add: key_inv_def)
  qed
  show ?thesis
  proof (rule act_inv [OF inv p calm])
    show "bucket_inv ?w" using world_invD(2) [OF inv] later_anchored [OF l] own unfolding bucket_inv_def by (simp, blast)
    show "base_inv c ?w ?pr" using base_inv_later [OF world_invD(3) [OF inv p] l] by (simp add: base_inv_writer)
    have "lease_inv c ?w pr" by (rule lease_inv_later [OF world_invD(4) [OF inv p] l]) (use own in auto)
    then show "lease_inv c ?w ?pr" by (simp add: lease_inv_def stamps_def current_def)
    show "key_inv c ?w ?pr" by (rule key_inv_later [OF k' l kept ds])
  qed (use kept ds own in auto)
qed

lemma finish_inv:
  assumes inv: "world_inv c w" and p: "bt_get (procs w) p = Some pr"
    and wr: "bt_get (p_writers pr) t = Some (Finishing ch s r me counted)"
  shows "world_inv c (w\<lparr>procs := bt_insert p (set_writer t None (pr\<lparr>p_state := write_finish c t ch s me counted (p_state pr)\<rparr>)) (procs w)\<rparr>)"
proof (rule write_update [OF inv p])
  let ?st = "write_finish c t ch s me counted (p_state pr)"
  have k: "key_inv c w pr" by (rule world_invD(5) [OF inv p])
  have wi: "writer_inv c w pr t (Finishing ch s r me counted)" using k wr by (simp add: key_inv_def)
  note bs = base_seen [OF world_invD(3) [OF inv p]]
  note defs = claim_finish_def epoch_finish_def alarms_finish_def Let_def
  show "session ?st = sess pr" "dead ?st = dead (p_state pr)" "abandoned ?st = abandoned (p_state pr)"
    "bt_wf (seen ?st)" "\<forall>n s. bt_get (seen ?st) n = Some s \<longrightarrow> fst (sn_version s) \<le> sn_first_seen s"
    using bs by (cases ch; simp add: defs)+
  show "bt_get (held ?st) u = bt_get (held (p_state pr)) u" if "u \<noteq> t" for u
    using that by (cases ch) (simp_all add: defs bt_simps)
  have old: "held_inv c w pr t x" if "bt_get (held (p_state pr)) t = Some x" for x using k that by (simp add: key_inv_def)
  have wo: "anchored w me" "change_ok pr t ch s r me" and wn: "counted \<Longrightarrow> written c w t ch s r me"
    using wi by (auto simp: writer_inv_def write_ok_def)
  have hn: "held_inv c w pr t \<lparr>h_seq = s, h_epoch = ow_epoch r, h_alarms = ow_alarms r\<rparr>"
    if "counted" "s_node (sess pr) = me" "ch \<noteq> Releasing"
    using wn [OF that(1)] that(2,3) change_owner [OF wo(2) that(3)] by (auto simp: held_inv_def written_def matches_def)
  show "held_inv c w pr t x" if "bt_get (held ?st) t = Some x" for x
    using that old hn wo(2)
    by (cases ch) (auto simp: defs bt_simps change_ok_def epoch_record_def alarms_record_def split: if_splits)
  have "anchored w (s_node (sess pr)) \<Longrightarrow> \<not> s_retired (sess pr) \<Longrightarrow> s_anchor (sess pr) \<noteq> None"
    using p by (auto simp: anchored_def current_def)
  then show "held ?st = []" if "s_anchor (sess pr) = None" "\<not> s_retired (sess pr)"
    using that bs(3) wo(1) by (cases ch) (auto simp: defs bt_remove_def)
qed simp_all

lemma write_inv:
  assumes inv: "world_inv c w" and env: "undisturbed e" "0 < ttl_ms c" and ev: "act p (do_write c e t ok) w = Some w'"
  shows "world_inv c w'"
proof -
  obtain pr wr b st wr' where p: "bt_get (procs w) p = Some pr" and wr: "bt_get (p_writers pr) t = Some wr"
    and n: "write_next c e ok (clock w) (bucket w) t (p_state pr) wr = Some (b, st, wr')"
    and w': "w' = w\<lparr>bucket := b, procs := bt_insert p (set_writer t wr' (pr\<lparr>p_state := st\<rparr>)) (procs w)\<rparr>"
    using ev by (auto simp: act_iff do_write_def split: option.splits)
  have id: "pr\<lparr>p_state := p_state pr\<rparr> = pr" by simp
  consider (finish) ch s r me x where "wr = Finishing ch s r me x"
    | (delete) ch s r me v vs where "wr = Deleting ch s r me (v # vs)"
    | (put) ch s r me b' where "wr = Putting ch s r me" "put_record t s r (bucket w) = Some b'"
    | (quiet) "b = bucket w" "\<And>ch s r me x. wr \<noteq> Finishing ch s r me x" "\<And>ch s r me v vs. wr \<noteq> Deleting ch s r me (v # vs)"
  proof (cases wr)
    case (Reading k)
    then show ?thesis using n quiet by (cases k) (auto simp: Let_def split: if_splits)
  next
    case (Putting ch s r me)
    then show ?thesis using n put quiet by (cases "put_record t s r (bucket w)") auto
  next
    case (Deleting ch s r me vs)
    then show ?thesis using n delete quiet by (cases vs) auto
  next
    case (Looking s r me lk)
    then show ?thesis using n quiet by (auto split: prod.splits sum.splits)
  next
    case (Getting k s)
    then show ?thesis using n quiet by (auto simp: Let_def split: option.splits)
  qed (use n quiet finish in \<open>auto simp: Let_def\<close>)
  then show ?thesis
  proof cases
    case finish
    then show ?thesis using finish_inv [OF inv p wr [unfolded finish]] n w' by auto
  next
    case delete
    then show ?thesis using delete_record_inv [OF inv p wr [unfolded delete], of b] n w' by (auto simp: id split: if_splits)
  next
    case put
    then show ?thesis using put_inv [OF inv p wr [unfolded put(1)] put(2)] n w' by (auto simp: id)
  next
    case quiet
    then show ?thesis using write_quiet_inv [OF inv p wr env n] w' by simp
  qed
qed

lemma write_error_inv:
  assumes inv: "world_inv c w" and ev: "act p (do_write_error t) w = Some w'"
  shows "world_inv c w'"
proof -
  obtain pr where p: "bt_get (procs w) p = Some pr" and w': "w' = w\<lparr>procs := bt_insert p (set_writer t None pr) (procs w)\<rparr>"
    using ev by (auto simp: act_iff do_write_error_def split: option.splits if_splits)
  have k: "key_inv c w pr" by (rule world_invD(5) [OF inv p])
  have "world_inv c (w\<lparr>procs := bt_insert p (set_writer t None (pr\<lparr>p_state := p_state pr\<rparr>)) (procs w)\<rparr>)"
    by (rule write_update [OF inv p]) (use base_seen [OF world_invD(3) [OF inv p]] k in \<open>simp_all add: key_inv_def\<close>)
  then show ?thesis by (simp add: w')
qed

text \<open>What a handler that changes a held key starts from.\<close>

lemma held_writer:
  assumes inv: "world_inv c w" and p: "bt_get (procs w) p = Some pr" and h: "bt_get (held (p_state pr)) t = Some h"
    and ch: "change_ok (pr\<lparr>p_state := st\<rparr>) t ch (h_seq h + 1) r (s_node (sess pr))" and st: "session st = sess pr"
    and hs: "ch = SettingEpoch x h \<or> ch = ChangingAlarms al h \<or> ch = Releasing"
  shows "writer_inv c w (pr\<lparr>p_state := st\<rparr>) t (Putting ch (h_seq h + 1) r (s_node (sess pr)))"
proof -
  have k: "key_inv c w pr" by (rule world_invD(5) [OF inv p])
  have hi: "held_inv c w pr t h" using k h by (simp add: key_inv_def)
  note bs = base_seen [OF world_invD(3) [OF inv p]]
  have "s_anchor (sess qr) \<noteq> None" if "bt_get (procs w) q = Some qr" "current qr (s_node (sess pr))" for q qr
  proof -
    have "q = p" using that p world_invD(1) [OF inv] by (auto simp: names_inv_def current_def)
    then have "qr = pr" using that p by simp
    then show ?thesis using bs(3) h that(2) by (cases "s_anchor (sess pr)") (auto simp: current_def)
  qed
  then have "anchored w (s_node (sess pr))" using bs(4) by (auto simp: anchored_def)
  then have "write_ok w (pr\<lparr>p_state := st\<rparr>) t ch (h_seq h + 1) r (s_node (sess pr))"
    using ch bs(4) st by (simp add: write_ok_def me_ok_def)
  moreover have "newest_owner (bucket w) t = s_node (sess pr) \<and> starts_from (bucket w) t ch (newest (bucket w) t) (s_node (sess pr))"
    if "newest (bucket w) t = h_seq h"
    using hi that hs by (auto simp: held_inv_def Let_def newest_owner_def matches_def starts_from_def)
  ultimately show ?thesis using hi by (auto simp: writer_inv_def yields_def held_inv_def Let_def)
qed

lemma bt_remove_Nil: "bt_remove k [] = []"
  by (simp add: bt_remove_def)

lemma release_inv:
  assumes inv: "world_inv c w" and ev: "act p (do_release t nx) w = Some w'"
  shows "world_inv c w'"
proof -
  obtain pr b pr' where p: "bt_get (procs w) p = Some pr" and d: "do_release t nx (clock w) (bucket w) pr = Some (b, pr')"
    and w': "w' = w\<lparr>bucket := b, procs := bt_insert p pr' (procs w)\<rparr>" using ev by (auto simp: act_iff)
  let ?st = "(p_state pr)\<lparr>held := bt_remove t (held (p_state pr))\<rparr>"
  have nw: "bt_get (p_writers pr) t = None" using d by (auto simp: do_release_def bt_has_def split: if_splits)
  note bs = base_seen [OF world_invD(3) [OF inv p]]
  have up: "world_inv c (w\<lparr>procs := bt_insert p (set_writer t wr (pr\<lparr>p_state := ?st\<rparr>)) (procs w)\<rparr>)"
    if "\<And>x. wr = Some x \<Longrightarrow> writer_inv c w (pr\<lparr>p_state := ?st\<rparr>) t x" for wr
    by (rule write_update [OF inv p]) (use bs that in \<open>auto simp: bt_simps bt_remove_Nil\<close>)
  show ?thesis
  proof (cases "bt_get (held (p_state pr)) t")
    case None
    have "filter (\<lambda>e. fst e \<noteq> t) (held (p_state pr)) = held (p_state pr)"
      using None by (auto simp: filter_id_conv map_of_eq_None_iff)
    then have "?st = p_state pr" by (simp add: bt_remove_def)
    moreover have "world_inv c (w\<lparr>procs := bt_insert p pr (procs w)\<rparr>)"
      by (rule quiet_update [OF inv p]) (use world_invD [OF inv] p in auto)
    ultimately show ?thesis using d w' None by (auto simp: do_release_def release_start_def split: if_splits)
  next
    case (Some h)
    let ?wr = "Putting Releasing (h_seq h + 1) (release_record nx h) (s_node (sess pr))"
    have "writer_inv c w (pr\<lparr>p_state := ?st\<rparr>) t ?wr"
      by (rule held_writer [OF inv p Some]) (auto simp: change_ok_def release_record_def bt_simps)
    then show ?thesis using up [of "Some ?wr"] d w' Some by (auto simp: do_release_def release_start_def split: if_splits)
  qed
qed

text \<open>A handler that begins with an authority check: the check, and then an update of the process as
  the check left it.\<close>

lemma named_inv:
  assumes inv: "world_inv c w" and ev: "act_named p fresh f w = Some w'"
    and f: "\<And>pr st ok b pr'. bt_get (procs w) p = Some pr \<Longrightarrow> authoritative_locked c fresh (clock w) (p_state pr) = (st, ok) \<Longrightarrow>
      f (clock w) (bucket w) pr = Some (b, pr') \<Longrightarrow> b = bucket w \<and>
      (\<forall>v. world_inv c v \<longrightarrow> bt_get (procs v) p = Some (pr\<lparr>p_state := st\<rparr>) \<longrightarrow> clock v = clock w \<longrightarrow>
         world_inv c (v\<lparr>procs := bt_insert p pr' (procs v)\<rparr>))"
  shows "world_inv c w'"
proof -
  obtain pr b pr' where p: "bt_get (procs w) p = Some pr" and fr: "free_name fresh w" and d: "f (clock w) (bucket w) pr = Some (b, pr')"
    and w': "w' = w\<lparr>bucket := b, procs := bt_insert p pr' (procs w), names := fresh # names w\<rparr>"
    using ev by (auto simp: act_named_iff)
  obtain st ok where a: "authoritative_locked c fresh (clock w) (p_state pr) = (st, ok)" by fastforce
  let ?v = "w\<lparr>procs := bt_insert p (pr\<lparr>p_state := st\<rparr>) (procs w), names := fresh # names w\<rparr>"
  have "world_inv c (?v\<lparr>procs := bt_insert p pr' (procs ?v)\<rparr>)"
    by (rule f [OF p a d, THEN conjunct2, rule_format]) (use auth_inv [OF inv p fr a] in \<open>simp_all add: bt_simps\<close>)
  then show ?thesis using f [OF p a d] w' by (simp add: bt_insert_twice)
qed

lemma same_process: "world_inv c v \<Longrightarrow> bt_get (procs v) p = Some pr \<Longrightarrow> world_inv c (v\<lparr>procs := bt_insert p pr (procs v)\<rparr>)"
  by (rule quiet_update) (auto simp: world_invD)

lemma new_writer:
  assumes "world_inv c v" "bt_get (procs v) p = Some pr" "\<And>x. wr = Some x \<Longrightarrow> writer_inv c v pr t x"
  shows "world_inv c (v\<lparr>procs := bt_insert p (set_writer t wr pr) (procs v)\<rparr>)"
proof -
  have k: "key_inv c v pr" by (rule world_invD(5) [OF assms(1,2)])
  have "world_inv c (v\<lparr>procs := bt_insert p (set_writer t wr (pr\<lparr>p_state := p_state pr\<rparr>)) (procs v)\<rparr>)"
    by (rule write_update [OF assms(1,2)]) (use base_seen [OF world_invD(3) [OF assms(1,2)]] k assms(3) in \<open>auto simp: key_inv_def\<close>)
  then show ?thesis by simp
qed

lemma check_inv: "world_inv c w \<Longrightarrow> act_named p fresh (check_authority c fresh) w = Some w' \<Longrightarrow> world_inv c w'"
  by (rule named_inv) (auto simp: check_authority_def local_section_def same_process)

lemma claim_inv: "world_inv c w \<Longrightarrow> act_named p fresh (do_claim c fresh t) w = Some w' \<Longrightarrow> world_inv c w'"
proof (erule named_inv)
  fix pr st ok b pr'
  assume a: "authoritative_locked c fresh (clock w) (p_state pr) = (st, ok)"
    and d: "do_claim c fresh t (clock w) (bucket w) pr = Some (b, pr')"
  let ?pr = "pr\<lparr>p_state := st\<rparr>"
  have "b = bucket w" "pr' = ?pr \<or> pr' = set_writer t (Some (Reading 4)) ?pr"
    using d a by (auto simp: do_claim_def holds_def split: if_splits bool.splits option.splits)
  moreover have "world_inv c (v\<lparr>procs := bt_insert p (set_writer t (Some (Reading 4)) ?pr) (procs v)\<rparr>)"
    if "world_inv c v" "bt_get (procs v) p = Some ?pr" for v
    by (rule new_writer [OF that]) (auto simp: writer_inv_def)
  ultimately show "b = bucket w \<and> (\<forall>v. world_inv c v \<longrightarrow> bt_get (procs v) p = Some ?pr \<longrightarrow> clock v = clock w \<longrightarrow>
      world_inv c (v\<lparr>procs := bt_insert p pr' (procs v)\<rparr>))"
    using same_process by blast
qed

lemma held_now_known:
  "authoritative_locked c fresh now st0 = (st, ok) \<Longrightarrow>
   held_now c fresh now t st0 = (st, if ok then map_option (\<lambda>h. (h, s_node (session st))) (bt_get (held st) t) else None)"
  by (cases ok) (simp_all add: held_now_def)

lemma set_epoch_inv: "world_inv c w \<Longrightarrow> act_named p fresh (do_set_epoch c fresh t epoch) w = Some w' \<Longrightarrow> world_inv c w'"
proof (erule named_inv)
  fix pr st ok b pr'
  assume a: "authoritative_locked c fresh (clock w) (p_state pr) = (st, ok)"
    and d: "do_set_epoch c fresh t epoch (clock w) (bucket w) pr = Some (b, pr')"
  let ?pr = "pr\<lparr>p_state := st\<rparr>"
  consider "b = bucket w" "pr' = ?pr"
    | h where "b = bucket w" "bt_get (held st) t = Some h"
      "pr' = set_writer t (Some (Putting (SettingEpoch epoch h) (h_seq h + 1) (epoch_record (s_node (session st)) epoch h) (s_node (session st)))) ?pr"
    using d unfolding do_set_epoch_def held_now_known [OF a]
    by (cases ok; cases "bt_get (held st) t") (auto split: if_splits)
  then show "b = bucket w \<and> (\<forall>v. world_inv c v \<longrightarrow> bt_get (procs v) p = Some ?pr \<longrightarrow> clock v = clock w \<longrightarrow>
      world_inv c (v\<lparr>procs := bt_insert p pr' (procs v)\<rparr>))"
  proof cases
    case 2
    have "world_inv c (v\<lparr>procs := bt_insert p pr' (procs v)\<rparr>)" if "world_inv c v" "bt_get (procs v) p = Some ?pr" for v
    proof -
      have "writer_inv c v (?pr\<lparr>p_state := p_state ?pr\<rparr>) t (Putting (SettingEpoch epoch h) (h_seq h + 1) (epoch_record (s_node (sess ?pr)) epoch h) (s_node (sess ?pr)))"
        by (rule held_writer [OF that, where x = epoch]) (use 2(2) in \<open>simp_all add: change_ok_def\<close>)
      then show ?thesis unfolding 2(3) by (intro new_writer [OF that]) simp
    qed
    then show ?thesis using 2(1) by blast
  next
    case 1
    then show ?thesis using same_process by blast
  qed
qed

lemma update_alarms_inv: "world_inv c w \<Longrightarrow> act_named p fresh (do_update_alarms c fresh t change) w = Some w' \<Longrightarrow> world_inv c w'"
proof (erule named_inv)
  fix pr st ok b pr'
  assume a: "authoritative_locked c fresh (clock w) (p_state pr) = (st, ok)"
    and d: "do_update_alarms c fresh t change (clock w) (bucket w) pr = Some (b, pr')"
  let ?pr = "pr\<lparr>p_state := st\<rparr>"
  consider "b = bucket w" "pr' = ?pr"
    | h al where "b = bucket w" "bt_get (held st) t = Some h"
      "pr' = set_writer t (Some (Putting (ChangingAlarms al h) (h_seq h + 1) (alarms_record (s_node (session st)) al h) (s_node (session st)))) ?pr"
    using d unfolding do_update_alarms_def held_now_known [OF a]
    by (cases ok; cases "bt_get (held st) t") (auto split: if_splits option.splits)
  then show "b = bucket w \<and> (\<forall>v. world_inv c v \<longrightarrow> bt_get (procs v) p = Some ?pr \<longrightarrow> clock v = clock w \<longrightarrow>
      world_inv c (v\<lparr>procs := bt_insert p pr' (procs v)\<rparr>))"
  proof cases
    case 2
    have "world_inv c (v\<lparr>procs := bt_insert p pr' (procs v)\<rparr>)" if "world_inv c v" "bt_get (procs v) p = Some ?pr" for v
    proof -
      have "writer_inv c v (?pr\<lparr>p_state := p_state ?pr\<rparr>) t (Putting (ChangingAlarms al h) (h_seq h + 1) (alarms_record (s_node (sess ?pr)) al h) (s_node (sess ?pr)))"
        by (rule held_writer [OF that, where al = al]) (use 2(2) in \<open>simp_all add: change_ok_def\<close>)
      then show ?thesis unfolding 2(3) by (intro new_writer [OF that]) simp
    qed
    then show ?thesis using 2(1) by blast
  next
    case 1
    then show ?thesis using same_process by blast
  qed
qed

lemma ready_writer:
  assumes inv: "world_inv c v" and p: "bt_get (procs v) p = Some pr" and wr: "bt_get (p_writers pr) t = Some (Ready s r me)"
    and ok: "s_anchor (sess pr) \<noteq> None"
  shows "writer_inv c v pr t (Putting (Claiming r) (s + 1) (claim_record me r) me)"
proof -
  have wi: "writer_inv c v pr t (Ready s r me)" using world_invD(5) [OF inv p] wr by (simp add: key_inv_def)
  then have l: "read_ok v t s r" "me_ok v pr t me" "\<And>q. r = Some q \<Longrightarrow> yields c v me (ow_node q)" by (auto simp: writer_inv_def)
  have "s_anchor (sess qr) \<noteq> None" if "bt_get (procs v) q = Some qr" "current qr me" for q qr
  proof -
    have "me = s_node (sess pr)" using l(2) that by (auto simp: me_ok_def nobody_def current_def)
    then have "q = p" using that p world_invD(1) [OF inv] by (auto simp: names_inv_def current_def)
    then show ?thesis using that p ok by simp
  qed
  then have "anchored v me" using l(2) by (auto simp: anchored_def me_ok_def)
  moreover have "yields c v me (newest_owner (bucket v) t)" if "newest (bucket v) t = s"
    using l(1,3) that by (auto simp: read_ok_def newest_owner_def yields_def split: option.splits)
  ultimately show ?thesis using l by (auto simp: writer_inv_def write_ok_def change_ok_def starts_from_def read_ok_def)
qed

lemma claim_ready_inv: "world_inv c w \<Longrightarrow> act_named p fresh (do_claim_ready c fresh t) w = Some w' \<Longrightarrow> world_inv c w'"
proof (erule named_inv)
  fix pr st ok b pr'
  assume a: "authoritative_locked c fresh (clock w) (p_state pr) = (st, ok)"
    and d: "do_claim_ready c fresh t (clock w) (bucket w) pr = Some (b, pr')"
  let ?pr = "pr\<lparr>p_state := st\<rparr>"
  obtain s r me where wr: "bt_get (p_writers pr) t = Some (Ready s r me)" and b: "b = bucket w"
    and pr': "pr' = set_writer t (if ok \<and> \<not> s_draining (session st) then Some (Putting (Claiming r) (s + 1) (claim_record me r) me) else None) ?pr"
    using d a by (auto simp: do_claim_ready_def claim_ready_def split: option.splits writer.splits)
  have an: "ok \<Longrightarrow> s_anchor (session st) \<noteq> None" using auth_cases [OF a] by auto
  have "world_inv c (v\<lparr>procs := bt_insert p pr' (procs v)\<rparr>)" if v: "world_inv c v" "bt_get (procs v) p = Some ?pr" for v
    unfolding pr'
  proof (rule new_writer [OF v])
    fix x assume "(if ok \<and> \<not> s_draining (session st) then Some (Putting (Claiming r) (s + 1) (claim_record me r) me) else None) = Some x"
    then show "writer_inv c v ?pr t x" using ready_writer [OF v, of t s r me] wr an by (auto split: if_splits)
  qed
  then show "b = bucket w \<and> (\<forall>v. world_inv c v \<longrightarrow> bt_get (procs v) p = Some ?pr \<longrightarrow> clock v = clock w \<longrightarrow>
      world_inv c (v\<lparr>procs := bt_insert p pr' (procs v)\<rparr>))"
    using b by blast
qed

section \<open>Every run keeps the invariant\<close>

text \<open>The handlers that change neither the session nor what is held.\<close>

lemma state_update:
  assumes inv: "world_inv c w" and p: "bt_get (procs w) p = Some pr"
    and same: "session st = sess pr" "held st = held (p_state pr)" "seen st = seen (p_state pr)" "dead st = dead (p_state pr)"
      "abandoned st = abandoned (p_state pr)"
  shows "world_inv c (w\<lparr>procs := bt_insert p (pr\<lparr>p_state := st\<rparr>) (procs w)\<rparr>)"
proof (rule cache_update [OF inv p])
  have b: "base_inv c w pr" by (rule world_invD(3) [OF inv p])
  show "base_inv c w (pr\<lparr>p_state := st\<rparr>)"
    by (rule base_inv_state [OF b]) (use same base_seen [OF b] in simp_all)
qed (use same in simp_all)

lemma take_lost_inv: "world_inv c w \<Longrightarrow> act p do_take_lost w = Some w' \<Longrightarrow> world_inv c w'"
  by (auto simp: act_iff do_take_lost_def local_section_def take_lost_def intro!: state_update)

lemma take_handed_seq_inv: "world_inv c w \<Longrightarrow> act p (do_take_handed_seq t) w = Some w' \<Longrightarrow> world_inv c w'"
  by (auto simp: act_iff do_take_handed_seq_def local_section_def take_handed_seq_def intro!: state_update)

lemma list_versions_inv: "world_inv c w \<Longrightarrow> act p (do_list_versions t) w = Some w' \<Longrightarrow> world_inv c w'"
  by (cases "latest_seq (list_versions t (bucket w)) = 0")
    (auto simp: act_iff do_list_versions_def forget_owner_def intro!: state_update, auto simp: same_process)

lemma read_version_inv: "world_inv c w \<Longrightarrow> act p (do_read_version t s) w = Some w' \<Longrightarrow> world_inv c w'"
  by (cases "bt_get (own (bucket w)) (t, s)")
    (auto simp: act_iff do_read_version_def same_process, auto simp: remember_owner_def intro!: state_update)

lemma plan_fields:
  assumes "plan H c addr fresh now keys st = Some st'" "authoritative_locked c fresh now st = (st1, ok)"
  shows "session st' = session st1" "held st' = held st1" "seen st' = seen st1" "dead st' = dead st1" "abandoned st' = abandoned st1"
  using assms by (auto simp: plan_def live_peers_def Let_def)

lemma plan_inv: "world_inv c w \<Longrightarrow> act_named p fresh (do_plan H c addr fresh keys) w = Some w' \<Longrightarrow> world_inv c w'"
proof (erule named_inv)
  fix pr st ok b pr'
  assume a: "authoritative_locked c fresh (clock w) (p_state pr) = (st, ok)"
    and d: "do_plan H c addr fresh keys (clock w) (bucket w) pr = Some (b, pr')"
  then obtain st' where st': "plan H c addr fresh (clock w) keys (p_state pr) = Some st'" "b = bucket w" "pr' = pr\<lparr>p_state := st'\<rparr>"
    by (auto simp: do_plan_def)
  have "world_inv c (v\<lparr>procs := bt_insert p pr' (procs v)\<rparr>)" if v: "world_inv c v" "bt_get (procs v) p = Some (pr\<lparr>p_state := st\<rparr>)" for v
    using state_update [OF v, of st'] plan_fields [OF st'(1) a] st'(3) by simp
  then show "b = bucket w \<and> (\<forall>v. world_inv c v \<longrightarrow> bt_get (procs v) p = Some (pr\<lparr>p_state := st\<rparr>) \<longrightarrow> clock v = clock w \<longrightarrow>
      world_inv c (v\<lparr>procs := bt_insert p pr' (procs v)\<rparr>))"
    using st'(2) by blast
qed

lemma sample_begin_inv: "world_inv c w \<Longrightarrow> act p do_sample_begin w = Some w' \<Longrightarrow> world_inv c w'"
  by (auto simp: act_iff do_sample_begin_def base_inv_def sampler_inv_def dest: world_invD(3) intro!: cache_update)

lemma sample_error_inv:
  assumes inv: "world_inv c w" and ev: "act p (do_sample_error i) w = Some w'"
  shows "world_inv c w'"
proof -
  obtain pr where p: "bt_get (procs w) p = Some pr" and w': "w' = w\<lparr>procs := bt_insert p (replace_sampler i [] pr) (procs w)\<rparr>"
    using ev by (auto simp: act_iff do_sample_error_def)
  show ?thesis unfolding w'
    by (rule cache_update [OF inv p])
      (use base_inv_sampler [OF world_invD(3) [OF inv p], of "[]" i] in \<open>simp_all add: replace_sampler_def\<close>)
qed

lemma look_error_inv:
  assumes inv: "world_inv c w" and ev: "act p (do_look_error i) w = Some w'"
  shows "world_inv c w'"
proof -
  obtain pr where p: "bt_get (procs w) p = Some pr" and w': "w' = w\<lparr>procs := bt_insert p (replace_look i [] pr) (procs w)\<rparr>"
    using ev by (auto simp: act_iff do_look_error_def)
  show ?thesis unfolding w'
    by (rule cache_update [OF inv p])
      (use base_inv_look [OF world_invD(3) [OF inv p], of "[]" i] in \<open>simp_all add: replace_look_def\<close>)
qed

lemma given_up_names:
  assumes "world_inv c w" "bt_get (procs w) p = Some pr"
  shows "\<forall>l \<in> set (given_up i pr). lr_node l \<in> set (names w)"
proof -
  have "lr_node (rn_lease (p_renewals pr ! i)) \<in> set (names w)" if "i < length (p_renewals pr)"
    using world_invD(3) [OF assms] that by (simp add: base_inv_def)
  then show ?thesis by (simp add: given_up_def)
qed

lemma own_event_inv:
  assumes inv: "world_inv c w" and env: "env_ok e" "0 < ttl_ms c" and ev: "own_event c e ev w = Some w'"
  shows "world_inv c w'"
proof -
  have e: "timely e" "prompt_start e" "undisturbed e" using env by (auto simp: env_ok_def)
  show ?thesis
  proof (cases ev)
    case (Tick d)
    then show ?thesis using ev tick_inv [OF inv] by (auto simp: own_event_def)
  next
    case (Start p n)
    then show ?thesis using ev start_inv [OF inv] by (auto simp: own_event_def split: if_splits)
  next
    case (RenewFinish p i out)
    then obtain w1 where w1: "act p (do_renew_finish c e i out) w = Some w1"
      and w': "w' = w1\<lparr>late := late w1 @ (case bt_get (procs w) p of Some pr \<Rightarrow> given_up i pr | None \<Rightarrow> [])\<rparr>"
      using ev by (auto simp: own_event_def)
    have "names w1 = names w" using w1 by (auto simp: act_iff)
    then have "\<forall>l \<in> set (case bt_get (procs w) p of Some pr \<Rightarrow> given_up i pr | None \<Rightarrow> []). lr_node l \<in> set (names w1)"
      using given_up_names [OF inv, of p] by (cases "bt_get (procs w) p") auto
    then show ?thesis unfolding w' by (rule late_add [OF renew_finish_inv [OF inv e(1) env(2) w1]])
  next
    case (LateLand i)
    then show ?thesis using ev late_inv [OF inv] by (auto simp: own_event_def split: if_splits)
  next
    case (Sample p i ok)
    then have "\<And>pr. bt_get (procs w) p = Some pr \<Longrightarrow> is_listing i pr \<Longrightarrow> starts_promptly c w"
      and "act p (do_sample c i ok) w = Some w'"
      using ev e(2) by (auto simp: own_event_def split: if_splits)
    then show ?thesis by (rule sample_inv [OF inv _ env(2)])
  qed (use ev inv e env(2) in \<open>auto simp: own_event_def intro: check_inv renew_begin_inv renew_delete_inv renew_put_inv
      sample_begin_inv sample_error_inv look_begin_inv look_event_inv look_error_inv claim_inv set_epoch_inv release_inv
      update_alarms_inv claim_ready_inv write_inv write_error_inv drain_inv retire_inv retire_delete_inv
      take_lost_inv take_handed_seq_inv plan_inv list_versions_inv read_version_inv\<close>)
qed

lemma empty_world_inv: "world_inv c empty_world"
  by (simp add: world_inv_def names_inv_def bucket_inv_def empty_world_def)

lemma own_run_inv:
  "own_run c e evs w = Some w' \<Longrightarrow> world_inv c w \<Longrightarrow> env_ok e \<Longrightarrow> 0 < ttl_ms c \<Longrightarrow> world_inv c w'"
  by (induction evs arbitrary: w) (auto split: option.splits intro: own_event_inv)

lemma holds_key_iff:
  "holds_key c w p t = Some x \<longleftrightarrow> (\<exists>pr h a. bt_get (procs w) p = Some pr \<and> \<not> s_retired (sess pr) \<and>
     s_anchor (sess pr) = Some a \<and> clock w - a < ttl_ms c \<and> bt_get (held (p_state pr)) t = Some h \<and> h_epoch h = x)"
  by (auto simp: holds_key_def holds_def authoritative_locked_def split: option.splits if_splits bool.splits)

lemma holder_owns_newest:
  assumes inv: "world_inv c w" and h: "holds_key c w p t = Some x"
  shows "\<exists>pr. bt_get (procs w) p = Some pr \<and> newest_owner (bucket w) t = s_node (sess pr)"
proof -
  obtain pr h a where p: "bt_get (procs w) p = Some pr" and s: "\<not> s_retired (sess pr)" "s_anchor (sess pr) = Some a"
      "clock w - a < ttl_ms c" "bt_get (held (p_state pr)) t = Some h"
    using h by (auto simp: holds_key_iff)
  have "\<not> spent c w (s_node (sess pr))"
  proof
    assume "spent c w (s_node (sess pr))"
    then obtain L where "over_in c (clock w) L pr (s_node (sess pr))" using p s(1) by (auto simp: spent_def current_def)
    then show False using s(2,3) by (auto simp: over_in_def)
  qed
  moreover have "held_inv c w pr t h" using world_invD(5) [OF inv p] s(4) by (simp add: key_inv_def)
  ultimately show ?thesis using p s(1) by (auto simp: held_inv_def Let_def current_def)
qed

end
