(* ===== verification/Ownership_Safety.thy ===== *)
theory Ownership_Safety
  imports Ownership_Invariant
begin

text \<open>
  What the ownership protocol guarantees (\<open>crates/walleye-node/src/ownership.rs\<close>): one owner per key,
  alarm changes in one sequence, and the runs that show where the guarantee ends.
\<close>

section \<open>Specification\<close>

definition demo_config :: lease_config where "demo_config = \<lparr>ttl_ms = 300, skew_ms = 90, sample_ms = 300\<rparr>"

definition demo_write :: "nat \<Rightarrow> event" where "demo_write p = Write p ''t'' True"

text \<open>Two processes renew their leases, and the first claims a key.\<close>

definition demo_owner :: "event list" where
  "demo_owner = [Start 1 ''a'', Start 2 ''b'', RenewBegin 1 ''1'' [] 0, RenewPut 1 0, RenewFinish 1 0 PutOk,
     RenewBegin 2 ''2'' [] 0, RenewPut 2 0, RenewFinish 2 0 PutOk,
     Claim 1 ''3'' ''t'', demo_write 1, ClaimReady 1 ''4'' ''t'', demo_write 1, demo_write 1, demo_write 1, demo_write 1]"

text \<open>The second process claims the key, with the record, the lease and the verdict read, and the new
  version written.\<close>

definition demo_takeover :: "event list" where
  "demo_takeover = [Claim 2 ''5'' ''t'', demo_write 2, demo_write 2, demo_write 2, demo_write 2, demo_write 2,
     ClaimReady 2 ''6'' ''t'', demo_write 2, demo_write 2, demo_write 2, demo_write 2]"

text \<open>A renewal of the owner lands later than the skew, and is counted.\<close>

definition late_renewal :: "event list" where
  "late_renewal = demo_owner @ [LookBegin 2 ''a'' True, Look 2 0, Look 2 0, Tick 280, RenewBegin 1 ''7'' [] 0,
     RenewBegin 2 ''8'' [] 0, RenewPut 2 0, RenewFinish 2 0 PutOk, Tick 110] @ demo_takeover @
     [RenewPut 1 0, RenewFinish 1 0 PutOk]"

text \<open>The first renewal of the first process lands but is not counted. A sample of the second process finds
  the lease old, while a second renewal of the first process is counted, and deletes it.\<close>

definition slow_start :: "event list" where
  "slow_start = [Start 1 ''a'', Start 2 ''b'', RenewBegin 1 ''1'' [] 0, RenewPut 1 0, RenewFinish 1 0 PutError,
     LookBegin 2 ''a'' True, Look 2 0, Look 2 0, Tick 390,
     RenewBegin 2 ''2'' [] 0, RenewPut 2 0, RenewFinish 2 0 PutOk,
     SampleBegin 2, Sample 2 0 True, Sample 2 0 True,
     RenewBegin 1 ''3'' [] 0, RenewPut 1 0, RenewFinish 1 0 PutOk,
     Claim 1 ''4'' ''t'', demo_write 1, ClaimReady 1 ''9'' ''t'', demo_write 1, demo_write 1, demo_write 1, demo_write 1,
     Sample 2 0 True, Sample 2 0 True, Sample 2 0 True] @ demo_takeover"

text \<open>A sample that listed an old version is slow; it enters it between the two sections of a
  \<open>liveness\<close> that has just read a new one.\<close>

definition slow_sample :: "event list" where
  "slow_sample = [Start 1 ''a'', Start 2 ''b'', RenewBegin 1 ''1'' [] 0, RenewPut 1 0, RenewFinish 1 0 PutOk,
     SampleBegin 2, Sample 2 0 True, Sample 2 0 True, Sample 2 0 True, Tick 200,
     RenewBegin 1 ''2'' [] 0, RenewPut 1 0, RenewFinish 1 0 PutOk, Tick 190,
     RenewBegin 2 ''3'' [] 0, RenewPut 2 0, RenewFinish 2 0 PutOk,
     Claim 1 ''4'' ''t'', demo_write 1, ClaimReady 1 ''9'' ''t'', demo_write 1, demo_write 1, demo_write 1, demo_write 1,
     Claim 2 ''5'' ''t'', demo_write 2, demo_write 2, demo_write 2, demo_write 2, demo_write 2, Sample 2 0 True, demo_write 2,
     ClaimReady 2 ''6'' ''t'', demo_write 2, demo_write 2, demo_write 2, demo_write 2]"

definition demo_holders :: "env \<Rightarrow> event list \<Rightarrow> (nat option \<times> nat option) option" where
  "demo_holders e evs =
     map_option (\<lambda>w. (holds_key demo_config w 1 ''t'', holds_key demo_config w 2 ''t'')) (own_run demo_config e evs empty_world)"





section \<open>Ownership\<close>


lemma late_renewal_run: "demo_holders \<lparr>timely = False, prompt_start = True, undisturbed = True\<rparr> late_renewal = Some (Some 0, Some 0)"
  by code_simp

lemma slow_start_run: "demo_holders \<lparr>timely = True, prompt_start = False, undisturbed = True\<rparr> slow_start = Some (Some 0, Some 0)"
  by code_simp

lemma slow_sample_run: "demo_holders \<lparr>timely = True, prompt_start = True, undisturbed = False\<rparr> slow_sample = Some (Some 0, Some 0)"
  by code_simp

lemma demo_holdersD:
  assumes "demo_holders e evs = Some (x, y)"
  obtains w where "own_run demo_config e evs empty_world = Some w" "holds_key demo_config w 1 ''t'' = x" "holds_key demo_config w 2 ''t'' = y"
  using assms by (auto simp: demo_holders_def)





text \<open>C8: Each of the three assumptions of mutual exclusion is needed. With the other two in force, there
  are runs in which two processes hold one key: when a renewal that landed later than the skew is
  still counted; when a sample deletes the lease of a session that has not counted a renewal yet; and
  when a sample enters an older version between the two sections of \<open>liveness\<close>.\<close>

theorem two_owners:
  "\<exists>late slow mixed w1 w2 w3.
     own_run demo_config \<lparr>timely = False, prompt_start = True, undisturbed = True\<rparr> late empty_world = Some w1 \<and>
     own_run demo_config \<lparr>timely = True, prompt_start = False, undisturbed = True\<rparr> slow empty_world = Some w2 \<and>
     own_run demo_config \<lparr>timely = True, prompt_start = True, undisturbed = False\<rparr> mixed empty_world = Some w3 \<and>
     holds_key demo_config w1 1 ''t'' = Some 0 \<and> holds_key demo_config w1 2 ''t'' = Some 0 \<and>
     holds_key demo_config w2 1 ''t'' = Some 0 \<and> holds_key demo_config w2 2 ''t'' = Some 0 \<and>
     holds_key demo_config w3 1 ''t'' = Some 0 \<and> holds_key demo_config w3 2 ''t'' = Some 0"
proof -
  obtain w1 where w1: "own_run demo_config \<lparr>timely = False, prompt_start = True, undisturbed = True\<rparr> late_renewal empty_world = Some w1"
      "holds_key demo_config w1 1 ''t'' = Some 0" "holds_key demo_config w1 2 ''t'' = Some 0"
    using late_renewal_run by (rule demo_holdersD)
  obtain w2 where w2: "own_run demo_config \<lparr>timely = True, prompt_start = False, undisturbed = True\<rparr> slow_start empty_world = Some w2"
      "holds_key demo_config w2 1 ''t'' = Some 0" "holds_key demo_config w2 2 ''t'' = Some 0"
    using slow_start_run by (rule demo_holdersD)
  obtain w3 where w3: "own_run demo_config \<lparr>timely = True, prompt_start = True, undisturbed = False\<rparr> slow_sample empty_world = Some w3"
      "holds_key demo_config w3 1 ''t'' = Some 0" "holds_key demo_config w3 2 ''t'' = Some 0"
    using slow_sample_run by (rule demo_holdersD)
  from w1 w2 w3 show ?thesis by blast
qed





end
