(* ===== verification/Records.thy ===== *)
theory Records
  imports Prelude "HOL-Library.Word"
begin

text \<open>
  Records of the replicated log (\<open>crates/walleye-bitr/src/lib.rs\<close>): the plain and the encrypted
  record, the errors of the crate, the bounded binary encoding of a record and of a batch, and
  the order check shared by every batch append. \<open>u64\<close> fields are naturals; \<open>valid_record\<close> is
  what the Rust types guarantee of a value. A string is the list of its UTF-8 bytes as
  characters. \<open>codec\<close> is the contract of an encoding; records and batches provide it.
\<close>

section \<open>Definitions\<close>

type_synonym byte = "8 word"

datatype replica_error =
    QuorumUnavailable
  | GatewayUnavailable
  | GatewayUnauthorized
  | GatewayRejected nat
  | WriterFenced
  | Encryption
  | NodeUnavailable
  | LsnConflict
  | InvalidWatermark nat nat
  | NodeStorage string
  | CapacityExceeded nat nat nat
  | Protocol string
  | RecoveryGap nat nat
  | RecoveryStreamMismatch string string
  | CommitCertificateMissing
  | RecoveryIncomplete nat nat
  | RecoveryAmbiguous nat nat nat

definition MAX_ENCRYPTED_RECORD_STREAM_BYTES :: nat where
  "MAX_ENCRYPTED_RECORD_STREAM_BYTES = 4 * 1024"

definition MAX_ENCRYPTED_RECORD_CIPHERTEXT_BYTES :: nat where
  "MAX_ENCRYPTED_RECORD_CIPHERTEXT_BYTES = 8 * 1024 * 1024"

definition XCHACHA20POLY1305_TAG_BYTES :: nat where
  "XCHACHA20POLY1305_TAG_BYTES = 16"

definition MAX_ENCRYPTED_RECORD_PLAINTEXT_BYTES :: nat where
  "MAX_ENCRYPTED_RECORD_PLAINTEXT_BYTES =
     MAX_ENCRYPTED_RECORD_CIPHERTEXT_BYTES - XCHACHA20POLY1305_TAG_BYTES"

definition MAX_ENCRYPTED_RECORD_BATCH_RECORDS :: nat where
  "MAX_ENCRYPTED_RECORD_BATCH_RECORDS = 1024"

definition MAX_ENCRYPTED_RECORD_BATCH_BYTES :: nat where
  "MAX_ENCRYPTED_RECORD_BATCH_BYTES = 32 * 1024 * 1024"

definition ENCRYPTED_RECORD_AUTHENTICATION_BYTES :: nat where
  "ENCRYPTED_RECORD_AUTHENTICATION_BYTES = 32"

definition ENCRYPTED_RECORD_BINARY_FIXED_BYTES :: nat where
  "ENCRYPTED_RECORD_BINARY_FIXED_BYTES =
     4 + 8 + 8 + 8 + 24 + 4 + ENCRYPTED_RECORD_AUTHENTICATION_BYTES"

definition MAX_ENCRYPTED_RECORD_BYTES :: nat where
  "MAX_ENCRYPTED_RECORD_BYTES = ENCRYPTED_RECORD_BINARY_FIXED_BYTES
     + MAX_ENCRYPTED_RECORD_STREAM_BYTES + MAX_ENCRYPTED_RECORD_CIPHERTEXT_BYTES"

definition ENCRYPTED_RECORD_BATCH_HEADER_BYTES :: nat where
  "ENCRYPTED_RECORD_BATCH_HEADER_BYTES = 4"

definition ENCRYPTED_RECORD_BATCH_FRAME_BYTES :: nat where
  "ENCRYPTED_RECORD_BATCH_FRAME_BYTES = 4"

record append_record =
  ar_stream :: string
  ar_writer_epoch :: nat
  ar_lsn :: nat
  ar_committed_lsn :: nat
  ar_payload :: "byte list"

record encrypted_record =
  stream :: string
  writer_epoch :: nat
  lsn :: nat
  committed_lsn :: nat
  nonce :: "byte list"
  ciphertext :: "byte list"
  authentication :: "byte list"

text \<open>\<open>to_le_bytes\<close> and \<open>from_le_bytes\<close> of the unsigned integers.\<close>

fun to_le_bytes :: "nat \<Rightarrow> nat \<Rightarrow> byte list" where
  "to_le_bytes 0 v = []"
| "to_le_bytes (Suc n) v = word_of_nat (v mod 256) # to_le_bytes n (v div 256)"

fun from_le_bytes :: "byte list \<Rightarrow> nat" where
  "from_le_bytes [] = 0"
| "from_le_bytes (b # bs) = unat b + 256 * from_le_bytes bs"

text \<open>UTF-8 as the standard library checks it: no overlong forms, no surrogates, nothing above
  U+10FFFF.\<close>

definition utf8_cont :: "byte \<Rightarrow> bool" where
  "utf8_cont b = (0x80 \<le> unat b \<and> unat b \<le> 0xBF)"

definition utf8_second :: "byte \<Rightarrow> byte \<Rightarrow> bool" where
  "utf8_second a b =
     (utf8_cont b \<and> (unat a = 0xE0 \<longrightarrow> 0xA0 \<le> unat b) \<and> (unat a = 0xED \<longrightarrow> unat b \<le> 0x9F) \<and>
      (unat a = 0xF0 \<longrightarrow> 0x90 \<le> unat b) \<and> (unat a = 0xF4 \<longrightarrow> unat b \<le> 0x8F))"

fun utf8_valid :: "byte list \<Rightarrow> bool" where
  "utf8_valid [] = True"
| "utf8_valid (a # bs) =
     (if unat a < 0x80 then utf8_valid bs
      else if 0xC2 \<le> unat a \<and> unat a \<le> 0xDF then
        (case bs of b # cs \<Rightarrow> utf8_cont b \<and> utf8_valid cs | _ \<Rightarrow> False)
      else if 0xE0 \<le> unat a \<and> unat a \<le> 0xEF then
        (case bs of b # c # ds \<Rightarrow> utf8_second a b \<and> utf8_cont c \<and> utf8_valid ds | _ \<Rightarrow> False)
      else if 0xF0 \<le> unat a \<and> unat a \<le> 0xF4 then
        (case bs of b # c # d # es \<Rightarrow> utf8_second a b \<and> utf8_cont c \<and> utf8_cont d \<and> utf8_valid es
         | _ \<Rightarrow> False)
      else False)"

definition as_bytes :: "string \<Rightarrow> byte list" where
  "as_bytes s = map (\<lambda>c. word_of_nat (of_char c)) s"

definition from_utf8 :: "byte list \<Rightarrow> string option" where
  "from_utf8 bs = (if utf8_valid bs then Some (map (\<lambda>b. char_of (unat b)) bs) else None)"

text \<open>Reading from the front of a byte slice.\<close>

definition take_bytes :: "nat \<Rightarrow> byte list \<Rightarrow> (byte list \<times> byte list, replica_error) result" where
  "take_bytes n bytes =
     (if length bytes < n then Inl (Protocol ''encrypted record body is truncated'')
      else Inr (take n bytes, drop n bytes))"

definition read_u32 :: "byte list \<Rightarrow> (nat \<times> byte list, replica_error) result" where
  "read_u32 bytes = bind_result (take_bytes 4 bytes) (\<lambda>(raw, rest). Inr (from_le_bytes raw, rest))"

definition read_u64 :: "byte list \<Rightarrow> (nat \<times> byte list, replica_error) result" where
  "read_u64 bytes = bind_result (take_bytes 8 bytes) (\<lambda>(raw, rest). Inr (from_le_bytes raw, rest))"

definition read_fixed :: "nat \<Rightarrow> byte list \<Rightarrow> (byte list \<times> byte list, replica_error) result" where
  "read_fixed n bytes = take_bytes n bytes"

definition binary_encoded_len :: "encrypted_record \<Rightarrow> (nat, replica_error) result" where
  "binary_encoded_len r =
     (let s = as_bytes (stream r)
      in if s = [] \<or> MAX_ENCRYPTED_RECORD_STREAM_BYTES < length s
         then Inl (Protocol ''encrypted record stream length is out of bounds'')
         else if MAX_ENCRYPTED_RECORD_CIPHERTEXT_BYTES < length (ciphertext r)
         then Inl (Protocol ''encrypted record ciphertext length is out of bounds'')
         else case Option.bind (checked_add_u64 ENCRYPTED_RECORD_BINARY_FIXED_BYTES (length s))
                     (\<lambda>l. checked_add_u64 l (length (ciphertext r))) of
             None \<Rightarrow> Inl (Protocol ''encrypted record length overflow'')
           | Some encoded_len \<Rightarrow>
               if MAX_ENCRYPTED_RECORD_BYTES < encoded_len
               then Inl (Protocol ''encrypted record body is too large'')
               else Inr encoded_len)"

text \<open>\<open>u32::try_from\<close> of a length.\<close>

definition u32_len :: "nat \<Rightarrow> string \<Rightarrow> (nat, replica_error) result" where
  "u32_len n message = (if n < u32_bound then Inr n else Inl (Protocol message))"

definition encode_binary :: "encrypted_record \<Rightarrow> (byte list, replica_error) result" where
  "encode_binary r =
     bind_result (binary_encoded_len r) (\<lambda>_.
     bind_result (u32_len (length (as_bytes (stream r)))
                    ''encrypted record stream length overflows wire type'') (\<lambda>stream_len.
     bind_result (u32_len (length (ciphertext r))
                    ''encrypted record ciphertext length overflows wire type'') (\<lambda>ciphertext_len.
     Inr (to_le_bytes 4 stream_len @ as_bytes (stream r) @ to_le_bytes 8 (writer_epoch r) @
          to_le_bytes 8 (lsn r) @ to_le_bytes 8 (committed_lsn r) @ nonce r @
          to_le_bytes 4 ciphertext_len @ ciphertext r @ authentication r))))"

definition decode_binary :: "byte list \<Rightarrow> (encrypted_record, replica_error) result" where
  "decode_binary bytes0 =
     (if MAX_ENCRYPTED_RECORD_BYTES < length bytes0
      then Inl (Protocol ''encrypted record body is too large'')
      else
      bind_result (read_u32 bytes0) (\<lambda>(stream_len, bytes1).
      if stream_len = 0 \<or> MAX_ENCRYPTED_RECORD_STREAM_BYTES < stream_len
      then Inl (Protocol ''encrypted record stream length is out of bounds'')
      else
      bind_result (take_bytes stream_len bytes1) (\<lambda>(raw_stream, bytes2).
      case from_utf8 raw_stream of
        None \<Rightarrow> Inl (Protocol ''encrypted record stream is not valid UTF-8'')
      | Some name \<Rightarrow>
      bind_result (read_u64 bytes2) (\<lambda>(epoch, bytes3).
      bind_result (read_u64 bytes3) (\<lambda>(n, bytes4).
      bind_result (read_u64 bytes4) (\<lambda>(c, bytes5).
      bind_result (read_fixed 24 bytes5) (\<lambda>(raw_nonce, bytes6).
      bind_result (read_u32 bytes6) (\<lambda>(ciphertext_len, bytes7).
      if MAX_ENCRYPTED_RECORD_CIPHERTEXT_BYTES < ciphertext_len
      then Inl (Protocol ''encrypted record ciphertext length is out of bounds'')
      else case checked_add_u64 ciphertext_len ENCRYPTED_RECORD_AUTHENTICATION_BYTES of
        None \<Rightarrow> Inl (Protocol ''encrypted record length overflow'')
      | Some expected_tail \<Rightarrow>
      if length bytes7 \<noteq> expected_tail
      then Inl (Protocol ''encrypted record body is truncated or has trailing bytes'')
      else
      bind_result (take_bytes ciphertext_len bytes7) (\<lambda>(text, bytes8).
      bind_result (read_fixed 32 bytes8) (\<lambda>(tag, bytes9).
      Inr \<lparr>stream = name, writer_epoch = epoch, lsn = n, committed_lsn = c, nonce = raw_nonce,
           ciphertext = text, authentication = tag\<rparr>))))))))))"

fun batch_encoded_len :: "nat \<Rightarrow> encrypted_record list \<Rightarrow> (nat, replica_error) result" where
  "batch_encoded_len encoded_len [] = Inr encoded_len"
| "batch_encoded_len encoded_len (r # rs) =
     bind_result (binary_encoded_len r) (\<lambda>record_len.
       case Option.bind (checked_add_u64 encoded_len ENCRYPTED_RECORD_BATCH_FRAME_BYTES)
              (\<lambda>l. checked_add_u64 l record_len) of
         None \<Rightarrow> Inl (Protocol ''encrypted record batch length overflow'')
       | Some l \<Rightarrow> batch_encoded_len l rs)"

fun encode_frames :: "encrypted_record list \<Rightarrow> (byte list, replica_error) result" where
  "encode_frames [] = Inr []"
| "encode_frames (r # rs) =
     bind_result (encode_binary r) (\<lambda>frame.
     bind_result (u32_len (length frame) ''encrypted record frame length overflows wire type'')
       (\<lambda>frame_len.
     bind_result (encode_frames rs) (\<lambda>rest.
     Inr (to_le_bytes 4 frame_len @ frame @ rest))))"

definition encode_binary_batch :: "encrypted_record list \<Rightarrow> (byte list, replica_error) result" where
  "encode_binary_batch records =
     (if records = [] then Inl (Protocol ''encrypted record batch must not be empty'')
      else if MAX_ENCRYPTED_RECORD_BATCH_RECORDS < length records
      then Inl (Protocol ''encrypted record batch has too many records'')
      else
      bind_result (batch_encoded_len ENCRYPTED_RECORD_BATCH_HEADER_BYTES records) (\<lambda>encoded_len.
      if MAX_ENCRYPTED_RECORD_BATCH_BYTES < encoded_len
      then Inl (Protocol ''encrypted record batch body is too large'')
      else
      bind_result (u32_len (length records) ''encrypted record batch count overflows wire type'')
        (\<lambda>count.
      bind_result (encode_frames records) (\<lambda>frames.
      Inr (to_le_bytes 4 count @ frames)))))"

fun decode_frames ::
  "nat \<Rightarrow> byte list \<Rightarrow> (encrypted_record list \<times> byte list, replica_error) result" where
  "decode_frames 0 bytes = Inr ([], bytes)"
| "decode_frames (Suc n) bytes =
     bind_result (read_u32 bytes) (\<lambda>(frame_len, bytes1).
     if frame_len = 0 \<or> MAX_ENCRYPTED_RECORD_BYTES < frame_len
     then Inl (Protocol ''encrypted record frame length is out of bounds'')
     else
     bind_result (take_bytes frame_len bytes1) (\<lambda>(frame, bytes2).
     bind_result (decode_binary frame) (\<lambda>r.
     bind_result (decode_frames n bytes2) (\<lambda>(rs, bytes3). Inr (r # rs, bytes3)))))"

definition decode_binary_batch :: "byte list \<Rightarrow> (encrypted_record list, replica_error) result" where
  "decode_binary_batch bytes =
     (if MAX_ENCRYPTED_RECORD_BATCH_BYTES < length bytes
      then Inl (Protocol ''encrypted record batch body is too large'')
      else
      bind_result (read_u32 bytes) (\<lambda>(count, bytes1).
      if count = 0 \<or> MAX_ENCRYPTED_RECORD_BATCH_RECORDS < count
      then Inl (Protocol ''encrypted record batch count is out of bounds'')
      else
      bind_result (decode_frames count bytes1) (\<lambda>(records, bytes2).
      if bytes2 \<noteq> [] then Inl (Protocol ''encrypted record batch has trailing bytes'')
      else Inr records)))"

text \<open>The checks of \<open>validate_append_batch\<close> on two neighbours, with the head of the batch.\<close>

definition validate_pair ::
  "encrypted_record \<Rightarrow> encrypted_record \<Rightarrow> encrypted_record \<Rightarrow> (unit, replica_error) result" where
  "validate_pair head previous current =
     (if stream current \<noteq> stream head
      then Inl (Protocol ''encrypted record batch contains multiple streams'')
      else if writer_epoch current \<noteq> writer_epoch head
      then Inl (Protocol ''encrypted record batch contains multiple writer epochs'')
      else case checked_add_u64 (lsn previous) 1 of
        None \<Rightarrow> Inl LsnConflict
      | Some expected_lsn \<Rightarrow>
          if lsn current \<noteq> expected_lsn then Inl LsnConflict
          else if committed_lsn current \<noteq> lsn previous
          then Inl (InvalidWatermark (lsn current) (committed_lsn current))
          else if lsn current \<le> committed_lsn current
          then Inl (InvalidWatermark (lsn current) (committed_lsn current))
          else Inr ())"

fun validate_windows ::
  "encrypted_record \<Rightarrow> encrypted_record list \<Rightarrow> (unit, replica_error) result" where
  "validate_windows head (p # c # rs) =
     bind_result (validate_pair head p c) (\<lambda>_. validate_windows head (c # rs))"
| "validate_windows head _ = Inr ()"

definition validate_append_batch :: "encrypted_record list \<Rightarrow> (unit, replica_error) result" where
  "validate_append_batch records =
     (case records of
        [] \<Rightarrow> Inl (Protocol ''encrypted record batch must not be empty'')
      | head # _ \<Rightarrow>
          if lsn head \<le> committed_lsn head
          then Inl (InvalidWatermark (lsn head) (committed_lsn head))
          else validate_windows head records)"

section \<open>Specification\<close>

text \<open>What the Rust types guarantee of a record.\<close>

definition valid_record :: "encrypted_record \<Rightarrow> bool" where
  "valid_record r =
     (utf8_valid (as_bytes (stream r)) \<and> writer_epoch r < u64_bound \<and> lsn r < u64_bound \<and>
      committed_lsn r < u64_bound \<and> length (nonce r) = 24 \<and> length (authentication r) = 32)"

text \<open>The bounds a record has to respect on the wire, and the layout of its encoding.\<close>

definition wire_bounded :: "encrypted_record \<Rightarrow> bool" where
  "wire_bounded r = (stream r \<noteq> [] \<and> length (stream r) \<le> MAX_ENCRYPTED_RECORD_STREAM_BYTES \<and>
     length (ciphertext r) \<le> MAX_ENCRYPTED_RECORD_CIPHERTEXT_BYTES)"

definition wire_bytes :: "encrypted_record \<Rightarrow> byte list" where
  "wire_bytes r = to_le_bytes 4 (length (stream r)) @ as_bytes (stream r) @
     to_le_bytes 8 (writer_epoch r) @ to_le_bytes 8 (lsn r) @ to_le_bytes 8 (committed_lsn r) @
     nonce r @ to_le_bytes 4 (length (ciphertext r)) @ ciphertext r @ authentication r"

definition frame_bytes :: "encrypted_record list \<Rightarrow> byte list" where
  "frame_bytes rs = concat (map (\<lambda>r. to_le_bytes 4 (length (wire_bytes r)) @ wire_bytes r) rs)"

definition batch_bytes :: "encrypted_record list \<Rightarrow> byte list" where
  "batch_bytes rs = to_le_bytes 4 (length rs) @ frame_bytes rs"

definition batch_bounded :: "encrypted_record list \<Rightarrow> bool" where
  "batch_bounded rs \<longleftrightarrow> rs \<noteq> [] \<and> length rs \<le> MAX_ENCRYPTED_RECORD_BATCH_RECORDS \<and>
     list_all wire_bounded rs \<and> length (batch_bytes rs) \<le> MAX_ENCRYPTED_RECORD_BATCH_BYTES"

text \<open>A batch that the order check accepts: consecutive numbers of one stream and epoch, each
  record naming its predecessor as committed.\<close>

definition consecutive :: "encrypted_record list \<Rightarrow> bool" where
  "consecutive rs \<longleftrightarrow> rs \<noteq> [] \<and> committed_lsn (hd rs) < lsn (hd rs) \<and>
     (\<forall>i < length rs. stream (rs ! i) = stream (hd rs) \<and> writer_epoch (rs ! i) = writer_epoch (hd rs) \<and>
        lsn (rs ! i) = lsn (hd rs) + i \<and>
        (0 < i \<longrightarrow> committed_lsn (rs ! i) = lsn (rs ! (i - 1)) \<and> lsn (rs ! i) \<le> u64_max))"

definition sample_record :: encrypted_record where
  "sample_record = \<lparr>stream = ''tenant'', writer_epoch = 1, lsn = 7, committed_lsn = 6,
     nonce = replicate 24 1, ciphertext = [2, 3], authentication = replicate 32 4\<rparr>"

section \<open>Bytes\<close>

lemma unat_byte_less: "unat (b :: byte) < 256"
  using unsigned_less [of b, where ?'a = nat] by simp

lemma of_char_less: "(of_char c :: nat) < 256"
  by (metis mod_less_divisor of_char_mod_256 zero_less_numeral)

lemma length_to_le_bytes [simp]: "length (to_le_bytes n v) = n"
  by (induction n arbitrary: v) auto

lemma from_to_le_bytes: "v < 256 ^ n \<Longrightarrow> from_le_bytes (to_le_bytes n v) = v"
proof (induction n arbitrary: v)
  case (Suc n)
  have "unat (word_of_nat (v mod 256) :: byte) = v mod 256"
    by (simp add: unat_of_nat take_bit_eq_mod)
  moreover have "v div 256 < 256 ^ n" using Suc.prems by (simp add: less_mult_imp_div_less mult.commute)
  ultimately show ?case using Suc.IH by simp
qed simp

lemma from_le_bytes_less: "from_le_bytes bs < 256 ^ length bs"
proof (induction bs)
  case (Cons b bs)
  with unat_byte_less [of b] show ?case by simp
qed simp

lemma to_from_le_bytes: "to_le_bytes (length bs) (from_le_bytes bs) = bs"
proof (induction bs)
  case (Cons b bs)
  with unat_byte_less [of b] show ?case by simp
qed simp

lemma take_bytes_iff: "take_bytes n bytes = Inr (x, rest) \<longleftrightarrow> bytes = x @ rest \<and> length x = n"
  by (auto simp: take_bytes_def)

lemma read_fixed_iff: "read_fixed n bytes = Inr (x, rest) \<longleftrightarrow> bytes = x @ rest \<and> length x = n"
  by (simp add: read_fixed_def take_bytes_iff)

lemma u32_bound_bytes: "u32_bound = 256 ^ 4" by (simp add: u32_bound_def)

lemma u64_bound_bytes: "u64_bound = 256 ^ 8" by (simp add: u64_bound_def)

lemma le_bytes_iff:
  "(\<exists>raw. length raw = n \<and> bytes = raw @ rest \<and> v = from_le_bytes raw) \<longleftrightarrow>
   bytes = to_le_bytes n v @ rest \<and> v < 256 ^ n"
  using to_from_le_bytes from_le_bytes_less from_to_le_bytes by (metis length_to_le_bytes)

lemma read_u32_iff: "read_u32 bytes = Inr (v, rest) \<longleftrightarrow> bytes = to_le_bytes 4 v @ rest \<and> v < u32_bound"
  unfolding u32_bound_bytes le_bytes_iff [symmetric]
  by (auto simp: read_u32_def bind_result_Inr_iff take_bytes_iff)

lemma read_u64_iff: "read_u64 bytes = Inr (v, rest) \<longleftrightarrow> bytes = to_le_bytes 8 v @ rest \<and> v < u64_bound"
  unfolding u64_bound_bytes le_bytes_iff [symmetric]
  by (auto simp: read_u64_def bind_result_Inr_iff take_bytes_iff)

lemmas read_iffs = take_bytes_iff read_fixed_iff read_u32_iff read_u64_iff

lemma length_as_bytes [simp]: "length (as_bytes s) = length s"
  by (simp add: as_bytes_def)

lemma as_bytes_Nil_iff [simp]: "as_bytes s = [] \<longleftrightarrow> s = []"
  by (simp add: as_bytes_def)

lemma from_utf8_iff: "from_utf8 bs = Some s \<longleftrightarrow> bs = as_bytes s \<and> utf8_valid (as_bytes s)"
proof -
  have "word_of_nat (of_char (char_of (unat b))) = b" for b :: byte
    using unat_byte_less [of b] by (simp add: of_char_of)
  then have "as_bytes (map (\<lambda>b. char_of (unat b)) bs) = bs" for bs
    by (simp add: as_bytes_def map_idI)
  moreover have "char_of (unat (word_of_nat (of_char c) :: byte)) = c" for c
    using of_char_less [of c] by (simp add: unat_of_nat take_bit_eq_mod)
  then have "map (\<lambda>b. char_of (unat b)) (as_bytes s) = s"
    by (simp add: as_bytes_def map_idI)
  ultimately show ?thesis by (auto simp: from_utf8_def)
qed

section \<open>Records on the wire\<close>

lemmas wire_limits = MAX_ENCRYPTED_RECORD_STREAM_BYTES_def MAX_ENCRYPTED_RECORD_CIPHERTEXT_BYTES_def
  ENCRYPTED_RECORD_AUTHENTICATION_BYTES_def ENCRYPTED_RECORD_BINARY_FIXED_BYTES_def
  MAX_ENCRYPTED_RECORD_BYTES_def MAX_ENCRYPTED_RECORD_BATCH_RECORDS_def
  MAX_ENCRYPTED_RECORD_BATCH_BYTES_def ENCRYPTED_RECORD_BATCH_HEADER_BYTES_def
  ENCRYPTED_RECORD_BATCH_FRAME_BYTES_def

lemma binary_encoded_len_iff:
  "binary_encoded_len r = Inr n \<longleftrightarrow> wire_bounded r \<and> n = 88 + length (stream r) + length (ciphertext r)"
  by (auto simp: binary_encoded_len_def wire_bounded_def Let_def checked_add_u64_def wire_limits
      rust_int split: if_splits option.splits)

lemma encode_binary_iff: "encode_binary r = Inr bs \<longleftrightarrow> wire_bounded r \<and> bs = wire_bytes r"
proof (cases "wire_bounded r")
  case True
  then have "length (stream r) < u32_bound" "length (ciphertext r) < u32_bound"
    by (auto simp: wire_bounded_def wire_limits rust_int)
  moreover obtain n where "binary_encoded_len r = Inr n" using True binary_encoded_len_iff by blast
  ultimately show ?thesis using True by (auto simp: encode_binary_def u32_len_def wire_bytes_def)
next
  case False
  then show ?thesis by (simp add: encode_binary_def bind_result_Inr_iff binary_encoded_len_iff)
qed

lemma length_wire_bytes:
  "valid_record r \<Longrightarrow> length (wire_bytes r) = 88 + length (stream r) + length (ciphertext r)"
  by (simp add: wire_bytes_def valid_record_def)

lemma decode_wire_bytes:
  assumes "valid_record r" "wire_bounded r"
  shows "decode_binary (wire_bytes r) = Inr r"
proof -
  have len: "\<not> MAX_ENCRYPTED_RECORD_BYTES < length (wire_bytes r)"
    using assms by (simp add: length_wire_bytes wire_bounded_def wire_limits)
  have b: "length (stream r) < u32_bound" "length (ciphertext r) < u32_bound" "stream r \<noteq> []"
    "\<not> MAX_ENCRYPTED_RECORD_STREAM_BYTES < length (stream r)"
    "\<not> MAX_ENCRYPTED_RECORD_CIPHERTEXT_BYTES < length (ciphertext r)"
    "checked_add_u64 (length (ciphertext r)) ENCRYPTED_RECORD_AUTHENTICATION_BYTES =
       Some (length (ciphertext r) + 32)"
    using assms by (auto simp: wire_bounded_def wire_limits rust_int checked_add_u64_def)
  have r32: "read_u32 (to_le_bytes 4 v @ rest) = Inr (v, rest)" if "v < u32_bound" for v rest
    using that by (simp add: read_u32_iff)
  have r64: "read_u64 (to_le_bytes 8 v @ rest) = Inr (v, rest)" if "v < u64_bound" for v rest
    using that by (simp add: read_u64_iff)
  have tb: "take_bytes n (x @ rest) = Inr (x, rest)" if "length x = n" for n x rest
    using that by (simp add: take_bytes_iff)
  have rf: "read_fixed n (x @ rest) = Inr (x, rest)" if "length x = n" for n x rest
    using that by (simp add: read_fixed_iff)
  have rf': "read_fixed n x = Inr (x, [])" if "length x = n" for n x
    using that by (simp add: read_fixed_iff)
  have utf: "from_utf8 (as_bytes (stream r)) = Some (stream r)"
    using assms(1) by (simp add: from_utf8_iff valid_record_def)
  show ?thesis
    unfolding decode_binary_def if_not_P [OF len]
    using assms(1) b unfolding wire_bytes_def valid_record_def
    by (simp add: r32 r64 tb rf rf' utf)
qed

lemma decode_binary_wire:
  assumes "decode_binary bs = Inr r"
  shows "valid_record r \<and> wire_bounded r \<and> bs = wire_bytes r"
proof -
  from assms show ?thesis
    unfolding decode_binary_def
    by (auto simp: bind_result_Inr_iff read_iffs from_utf8_iff checked_add_u64_def wire_bytes_def
        valid_record_def wire_bounded_def ENCRYPTED_RECORD_AUTHENTICATION_BYTES_def
        split: if_splits option.splits)
qed

lemma decode_binary_iff:
  "decode_binary bs = Inr r \<longleftrightarrow> valid_record r \<and> wire_bounded r \<and> bs = wire_bytes r"
  using decode_binary_wire decode_wire_bytes by blast

section \<open>Batches on the wire\<close>

lemma frame_bytes_simps [simp]:
  "frame_bytes [] = []"
  "frame_bytes (r # rs) = to_le_bytes 4 (length (wire_bytes r)) @ wire_bytes r @ frame_bytes rs"
  by (simp_all add: frame_bytes_def)

lemma length_wire_bytes_bounds:
  assumes "valid_record r" "wire_bounded r"
  shows "0 < length (wire_bytes r)" "length (wire_bytes r) \<le> MAX_ENCRYPTED_RECORD_BYTES"
    "length (wire_bytes r) < u32_bound"
  using assms by (auto simp: length_wire_bytes wire_bounded_def wire_limits rust_int)

lemma decode_frames_iff:
  "decode_frames n bs = Inr (rs, rest) \<longleftrightarrow>
     length rs = n \<and> list_all valid_record rs \<and> list_all wire_bounded rs \<and>
     bs = frame_bytes rs @ rest"
proof (induction n arbitrary: bs rs)
  case (Suc n)
  show ?case
  proof
    assume "decode_frames (Suc n) bs = Inr (rs, rest)"
    then obtain fl b1 f b2 r rs' where
      "bs = to_le_bytes 4 fl @ b1" "b1 = f @ b2" "length f = fl"
      "decode_binary f = Inr r" "decode_frames n b2 = Inr (rs', rest)" "rs = r # rs'"
      by (auto simp: bind_result_Inr_iff read_iffs split: if_splits)
    then show "length rs = Suc n \<and> list_all valid_record rs \<and> list_all wire_bounded rs \<and>
     bs = frame_bytes rs @ rest"
      by (auto simp: Suc.IH decode_binary_iff)
  next
    assume a: "length rs = Suc n \<and> list_all valid_record rs \<and> list_all wire_bounded rs \<and>
     bs = frame_bytes rs @ rest"
    then obtain r rs' where rs: "rs = r # rs'" by (cases rs) auto
    let ?b = "frame_bytes rs' @ rest"
    have bs: "bs = to_le_bytes 4 (length (wire_bytes r)) @ wire_bytes r @ ?b" using a rs by simp
    have r: "valid_record r" "wire_bounded r" using a rs by auto
    note l = length_wire_bytes_bounds [OF r]
    have "read_u32 bs = Inr (length (wire_bytes r), wire_bytes r @ ?b)"
      unfolding read_u32_iff bs using l(3) by simp
    moreover have "take_bytes (length (wire_bytes r)) (wire_bytes r @ ?b) = Inr (wire_bytes r, ?b)"
      unfolding take_bytes_iff by simp
    moreover have "decode_binary (wire_bytes r) = Inr r" using r by (simp add: decode_binary_iff)
    moreover have "decode_frames n ?b = Inr (rs', rest)"
      unfolding Suc.IH using a rs by simp
    ultimately show "decode_frames (Suc n) bs = Inr (rs, rest)"
      using l(1,2) by (simp add: rs)
  qed
qed auto

lemma encode_frames_iff:
  assumes "list_all valid_record rs"
  shows "encode_frames rs = Inr bs \<longleftrightarrow> list_all wire_bounded rs \<and>
    bs = frame_bytes rs"
  using assms
proof (induction rs arbitrary: bs)
  case (Cons r rs)
  then have IH: "encode_frames rs = Inr x \<longleftrightarrow> list_all wire_bounded rs \<and>
    x = frame_bytes rs" for x by simp
  have "wire_bounded r \<Longrightarrow> length (wire_bytes r) < u32_bound"
    using Cons.prems length_wire_bytes_bounds by auto
  then show ?case
    by (auto simp: bind_result_Inr_iff encode_binary_iff u32_len_def IH)
qed auto

lemma batch_encoded_len_iff:
  assumes "list_all valid_record rs"
  shows "batch_encoded_len l rs = Inr n \<longleftrightarrow> list_all wire_bounded rs \<and>
    n = l + (\<Sum>r \<leftarrow> rs. 4 + length (wire_bytes r)) \<and> (rs \<noteq> [] \<longrightarrow> n < u64_bound)"
  using assms
proof (induction rs arbitrary: l)
  case (Cons r rs)
  then have IH: "batch_encoded_len l rs = Inr n \<longleftrightarrow> list_all wire_bounded rs \<and>
    n = l + (\<Sum>r \<leftarrow> rs. 4 + length (wire_bytes r)) \<and> (rs \<noteq> [] \<longrightarrow> n < u64_bound)" for l by simp
  have len: "length (wire_bytes r) = 88 + length (stream r) + length (ciphertext r)"
    using Cons.prems by (simp add: length_wire_bytes)
  show ?case
    by (auto simp: bind_result_Inr_iff binary_encoded_len_iff IH checked_add_u64_def len
        ENCRYPTED_RECORD_BATCH_FRAME_BYTES_def split: option.splits if_splits)
qed auto

lemma length_batch_bytes: "length (batch_bytes rs) = 4 + (\<Sum>r \<leftarrow> rs. 4 + length (wire_bytes r))"
  by (simp add: batch_bytes_def frame_bytes_def length_concat comp_def)

lemma encode_binary_batch_iff:
  assumes "list_all valid_record rs"
  shows "encode_binary_batch rs = Inr bs \<longleftrightarrow> batch_bounded rs \<and> bs = batch_bytes rs"
proof -
  define n where "n = length (batch_bytes rs)"
  have n: "4 + (\<Sum>r \<leftarrow> rs. 4 + length (wire_bytes r)) = n" by (simp add: n_def length_batch_bytes)
  have "n \<le> MAX_ENCRYPTED_RECORD_BATCH_BYTES \<Longrightarrow> n < u64_bound"
    by (simp add: wire_limits rust_int)
  moreover have "length rs \<le> MAX_ENCRYPTED_RECORD_BATCH_RECORDS \<Longrightarrow> length rs < u32_bound"
    by (simp add: wire_limits rust_int)
  ultimately show ?thesis
    unfolding encode_binary_batch_def batch_bounded_def n_def [symmetric]
    by (auto simp: bind_result_Inr_iff batch_encoded_len_iff [OF assms] encode_frames_iff [OF assms]
        ENCRYPTED_RECORD_BATCH_HEADER_BYTES_def n u32_len_def batch_bytes_def split: if_splits)
qed

lemma decode_binary_batch_iff:
  "decode_binary_batch bs = Inr rs \<longleftrightarrow> list_all valid_record rs \<and> batch_bounded rs \<and> bs = batch_bytes rs"
proof
  assume "decode_binary_batch bs = Inr rs"
  then show "list_all valid_record rs \<and> batch_bounded rs \<and> bs = batch_bytes rs"
    by (auto simp: decode_binary_batch_def bind_result_Inr_iff read_iffs decode_frames_iff
        batch_bounded_def batch_bytes_def split: if_splits)
next
  assume a: "list_all valid_record rs \<and> batch_bounded rs \<and> bs = batch_bytes rs"
  let ?b = "frame_bytes rs"
  have "length rs < u32_bound" using a by (simp add: batch_bounded_def wire_limits rust_int)
  then have "read_u32 bs = Inr (length rs, ?b)"
    unfolding read_u32_iff using a by (simp add: batch_bytes_def)
  moreover have "decode_frames (length rs) ?b = Inr (rs, [])"
    unfolding decode_frames_iff using a by (simp add: batch_bounded_def)
  ultimately show "decode_binary_batch bs = Inr rs"
    using a by (simp add: decode_binary_batch_def batch_bounded_def)
qed

text \<open>The contract of an encoding: a value the type admits is encoded to the bytes exactly when
  these decode to the value, and only such values are decoded.\<close>

locale codec =
  fixes enc :: "'a \<Rightarrow> ('b, 'e) result"
    and dec :: "'b \<Rightarrow> ('a, 'e) result"
    and valid :: "'a \<Rightarrow> bool"
  assumes dec_valid: "dec b = Inr a \<Longrightarrow> valid a"
    and enc_iff_dec: "valid a \<Longrightarrow> enc a = Inr b \<longleftrightarrow> dec b = Inr a"
begin

lemma enc_inj:
  assumes "valid a" "valid a'" "enc a = Inr b" "enc a' = Inr b"
  shows "a = a'"
  using assms enc_iff_dec [of a b] enc_iff_dec [of a' b] by simp

lemma dec_canonical:
  assumes "dec b = Inr a" "dec b' = Inr a"
  shows "b = b'"
  using assms enc_iff_dec [OF dec_valid [OF assms(1)]] by (metis sum.inject(2))

end

interpretation record_codec: codec encode_binary decode_binary valid_record
  by unfold_locales (auto simp: encode_binary_iff decode_binary_iff)

interpretation batch_codec: codec encode_binary_batch decode_binary_batch "list_all valid_record"
  by unfold_locales (auto simp: encode_binary_batch_iff decode_binary_batch_iff)

section \<open>Order of a batch\<close>

lemma validate_pair_iff:
  "validate_pair h p c = Inr () \<longleftrightarrow> stream c = stream h \<and> writer_epoch c = writer_epoch h \<and>
     lsn c = lsn p + 1 \<and> lsn c \<le> u64_max \<and> committed_lsn c = lsn p"
  by (auto simp: validate_pair_def checked_add_u64_def u64_max_def u64_bound_def
      split: option.splits if_splits)

lemma validate_windows_iff:
  "validate_windows h rs = Inr () \<longleftrightarrow>
     (\<forall>i. Suc i < length rs \<longrightarrow> validate_pair h (rs ! i) (rs ! Suc i) = Inr ())"
proof (induction h rs rule: validate_windows.induct)
  case (1 h p c rs)
  have "(\<forall>i. Suc i < length (p # c # rs) \<longrightarrow> validate_pair h ((p # c # rs) ! i) ((p # c # rs) ! Suc i) = Inr ())
    \<longleftrightarrow> validate_pair h p c = Inr () \<and>
      (\<forall>i. Suc i < length (c # rs) \<longrightarrow> validate_pair h ((c # rs) ! i) ((c # rs) ! Suc i) = Inr ())"
    by (auto simp: nth_Cons split: nat.splits)
  with 1 show ?case by (auto simp: bind_result_Inr_iff)
qed auto

lemma consecutive_steps:
  assumes "\<forall>i. Suc i < length rs \<longrightarrow> lsn (rs ! Suc i) = lsn (rs ! i) + 1" "i < length rs"
  shows "lsn (rs ! i) = lsn (hd rs) + i"
  using assms(2)
proof (induction i)
  case 0
  then show ?case by (cases rs) auto
next
  case (Suc i)
  then show ?case using assms(1) by auto
qed

lemma validate_append_batch_iff: "validate_append_batch rs = Inr () \<longleftrightarrow> consecutive rs"
proof (cases rs)
  case (Cons h t)
  have hd: "hd rs = h" "rs \<noteq> []" by (simp_all add: Cons)
  show ?thesis
  proof
    assume "validate_append_batch rs = Inr ()"
    then have h: "committed_lsn h < lsn h"
      and w: "\<forall>i. Suc i < length rs \<longrightarrow> validate_pair h (rs ! i) (rs ! Suc i) = Inr ()"
      by (auto simp: validate_append_batch_def Cons validate_windows_iff split: if_splits)
    have "lsn (rs ! i) = lsn h + i" if "i < length rs" for i
      using consecutive_steps [of rs i] w that hd by (simp add: validate_pair_iff)
    then show "consecutive rs"
      using h w unfolding consecutive_def hd(1) validate_pair_iff
      by (auto simp: hd(2) gr0_conv_Suc) (metis Cons hd_conv_nth hd(1) hd(2) not0_implies_Suc)+
  next
    assume c: "consecutive rs"
    have "validate_pair h (rs ! i) (rs ! Suc i) = Inr ()" if "Suc i < length rs" for i
      using c that unfolding consecutive_def hd(1) validate_pair_iff by force
    then show "validate_append_batch rs = Inr ()"
      using c unfolding consecutive_def hd(1)
      by (simp add: validate_append_batch_def Cons validate_windows_iff [unfolded Cons])
  qed
qed (simp add: validate_append_batch_def consecutive_def)

section \<open>Properties\<close>

text \<open>C13: The binary form of a record round-trips and is canonical: for a record that the Rust types
  admit, \<open>encode_binary\<close> gives some bytes exactly when \<open>decode_binary\<close> gives back the record from
  them, and whatever decodes is such a record. So no two byte strings decode to one record, and
  no two records share an encoding.\<close>

theorem record_roundtrip:
  "(decode_binary bs = Inr r \<longleftrightarrow> valid_record r \<and> encode_binary r = Inr bs)"
  by (auto simp: encode_binary_iff decode_binary_iff)

text \<open>C12: The framed form of a batch round-trips and is canonical, and a batch of admitted records
  is encoded exactly when it respects the limits on records, names, ciphertexts and size.\<close>

theorem batch_roundtrip:
  assumes "list_all valid_record rs"
  shows "(encode_binary_batch rs = Inr bs \<longleftrightarrow> decode_binary_batch bs = Inr rs) \<and>
    (isl (encode_binary_batch rs) \<longleftrightarrow> \<not> batch_bounded rs)"
proof -
  have "(\<exists>bs. encode_binary_batch rs = Inr bs) \<longleftrightarrow> batch_bounded rs"
    using encode_binary_batch_iff [OF assms] by blast
  then have "isl (encode_binary_batch rs) \<longleftrightarrow> \<not> batch_bounded rs"
    by (cases "encode_binary_batch rs") auto
  then show ?thesis using batch_codec.enc_iff_dec [OF assms] by simp
qed

lemma sample_record_ok: "valid_record sample_record" "batch_bounded [sample_record]"
proof -
  show v: "valid_record sample_record"
    by (simp add: valid_record_def sample_record_def as_bytes_def rust_int)
  show "batch_bounded [sample_record]"
    using length_wire_bytes [OF v]
    by (simp add: batch_bounded_def length_batch_bytes wire_bounded_def sample_record_def wire_limits)
qed

theorem batch_roundtrip_witness:
  "\<exists>bs. encode_binary_batch [sample_record] = Inr bs \<and> decode_binary_batch bs = Inr [sample_record]"
  using batch_roundtrip [of "[sample_record]"] sample_record_ok
  by (cases "encode_binary_batch [sample_record]") auto

text \<open>The order check accepts a batch exactly when it is not empty, its first number is above
  the committed one it names, all records are of one stream and writer epoch, the numbers are
  consecutive, and each later record names its predecessor as committed.\<close>

theorem validate_append_batch_consecutive:
  "validate_append_batch rs = Inr () \<longleftrightarrow> consecutive rs"
  by (rule validate_append_batch_iff)

end
