(* ===== verification/Quorum_Client.thy ===== *)
theory Quorum_Client
  imports Records "HOL-Library.Multiset"
begin

text \<open>
  The client of the quorum gateway (\<open>crates/walleye-bitr/src/lib.rs\<close>, \<open>QuorumWriter\<close> and
  \<open>CommitKnowledge\<close>): encryption and authentication of a record, single and batched appends,
  and the check of a recovered tail. The ciphers and digests are other crates: they are the
  fields of \<open>crypto\<close>, and \<open>crypto_ok\<close> is their documented behaviour. A gateway is the record of
  its four operations, each returning its next state.
\<close>

section \<open>Definitions\<close>

datatype durability_authority = Replica | ObjectStore | Local

record commit_knowledge =
  ck_stream :: string
  ck_writer_epoch :: nat
  ck_committed_lsn :: nat
  ck_certificate :: "string option"
  ck_authority :: durability_authority

definition replica_with_certificate ::
  "string \<Rightarrow> nat \<Rightarrow> nat \<Rightarrow> string option \<Rightarrow> commit_knowledge" where
  "replica_with_certificate s epoch c certificate =
     \<lparr>ck_stream = s, ck_writer_epoch = epoch, ck_committed_lsn = c, ck_certificate = certificate,
      ck_authority = Replica\<rparr>"

definition knowledge_replica :: "string \<Rightarrow> nat \<Rightarrow> nat \<Rightarrow> commit_knowledge" where
  "knowledge_replica s epoch c = replica_with_certificate s epoch c None"

definition knowledge_local :: "string \<Rightarrow> nat \<Rightarrow> commit_knowledge" where
  "knowledge_local s c = \<lparr>ck_stream = s, ck_writer_epoch = 0, ck_committed_lsn = c,
     ck_certificate = None, ck_authority = Local\<rparr>"

definition knowledge_object_store :: "string \<Rightarrow> nat \<Rightarrow> commit_knowledge" where
  "knowledge_object_store s c = \<lparr>ck_stream = s, ck_writer_epoch = 0, ck_committed_lsn = c,
     ck_certificate = None, ck_authority = ObjectStore\<rparr>"

text \<open>The primitives: SHA-256, HMAC-SHA-256, and XChaCha20-Poly1305 with key and nonce.\<close>

record crypto =
  sha256 :: "byte list \<Rightarrow> byte list"
  hmac :: "byte list \<Rightarrow> byte list \<Rightarrow> byte list"
  seal :: "byte list \<Rightarrow> byte list \<Rightarrow> byte list \<Rightarrow> byte list option"
  unseal :: "byte list \<Rightarrow> byte list \<Rightarrow> byte list \<Rightarrow> byte list option"

record 'g gateway =
  gw_append :: "'g \<Rightarrow> encrypted_record \<Rightarrow> 'g \<times> (string option, replica_error) result"
  gw_append_many :: "'g \<Rightarrow> encrypted_record list \<Rightarrow> 'g \<times> (string option, replica_error) result"
  gw_recover :: "'g \<Rightarrow> string \<Rightarrow> nat \<Rightarrow> 'g \<times> (encrypted_record list, replica_error) result"
  gw_recover_with_watermark ::
    "'g \<Rightarrow> string \<Rightarrow> nat \<Rightarrow> nat \<Rightarrow> string \<Rightarrow> 'g \<times> (encrypted_record list, replica_error) result"

definition to_be_bytes :: "nat \<Rightarrow> nat \<Rightarrow> byte list" where
  "to_be_bytes n v = rev (to_le_bytes n v)"

definition nonce_input :: "crypto \<Rightarrow> append_record \<Rightarrow> byte list" where
  "nonce_input C r = as_bytes (ar_stream r) @ to_be_bytes 8 (ar_writer_epoch r) @
     to_be_bytes 8 (ar_lsn r) @ to_be_bytes 8 (ar_committed_lsn r) @ sha256 C (ar_payload r)"

definition mac_input :: "string \<Rightarrow> nat \<Rightarrow> nat \<Rightarrow> nat \<Rightarrow> byte list \<Rightarrow> byte list" where
  "mac_input s epoch n c ct = as_bytes s @ to_be_bytes 8 epoch @ to_be_bytes 8 n @ to_be_bytes 8 c @ ct"

definition encrypt :: "crypto \<Rightarrow> byte list \<Rightarrow> append_record \<Rightarrow> (encrypted_record, replica_error) result" where
  "encrypt C key r =
     (if MAX_ENCRYPTED_RECORD_PLAINTEXT_BYTES < length (ar_payload r)
      then Inl (Protocol ''append payload exceeds encrypted record plaintext limit'')
      else let n = take 24 (sha256 C (nonce_input C r))
           in case seal C key n (ar_payload r) of
                None \<Rightarrow> Inl Encryption
              | Some ct \<Rightarrow>
                  Inr \<lparr>stream = ar_stream r, writer_epoch = ar_writer_epoch r, lsn = ar_lsn r,
                       committed_lsn = ar_committed_lsn r, nonce = n, ciphertext = ct,
                       authentication = hmac C key (mac_input (ar_stream r) (ar_writer_epoch r)
                         (ar_lsn r) (ar_committed_lsn r) ct)\<rparr>)"

definition decrypt :: "crypto \<Rightarrow> byte list \<Rightarrow> encrypted_record \<Rightarrow> (append_record, replica_error) result" where
  "decrypt C key r =
     (if hmac C key (mac_input (stream r) (writer_epoch r) (lsn r) (committed_lsn r) (ciphertext r))
           \<noteq> authentication r
      then Inl Encryption
      else case unseal C key (nonce r) (ciphertext r) of
          None \<Rightarrow> Inl Encryption
        | Some payload \<Rightarrow>
            Inr \<lparr>ar_stream = stream r, ar_writer_epoch = writer_epoch r, ar_lsn = lsn r,
                 ar_committed_lsn = committed_lsn r, ar_payload = payload\<rparr>)"

text \<open>The loop of \<open>decrypt_recovery\<close> returns the next expected number and the records.\<close>

fun check_tail ::
  "crypto \<Rightarrow> byte list \<Rightarrow> string \<Rightarrow> nat option \<Rightarrow> encrypted_record list \<Rightarrow>
   (nat option \<times> append_record list, replica_error) result" where
  "check_tail C key s expected [] = Inr (expected, [])"
| "check_tail C key s None (r # rs) = Inl (RecoveryGap u64_max (lsn r))"
| "check_tail C key s (Some e) (r # rs) =
     (if stream r \<noteq> s then Inl (RecoveryStreamMismatch s (stream r))
      else if lsn r \<noteq> e then Inl (RecoveryGap e (lsn r))
      else if committed_lsn r \<noteq> e - 1 then Inl (InvalidWatermark (lsn r) (committed_lsn r))
      else bind_result (decrypt C key r) (\<lambda>p.
           bind_result (check_tail C key s (checked_add_u64 e 1) rs) (\<lambda>(e', ps).
           Inr (e', p # ps))))"

definition recovery_complete :: "nat \<Rightarrow> nat \<Rightarrow> append_record list \<Rightarrow> bool" where
  "recovery_complete after c recovered =
     (if c = after then recovered = [] else recovered \<noteq> [] \<and> ar_lsn (last recovered) = c)"

definition decrypt_recovery ::
  "crypto \<Rightarrow> byte list \<Rightarrow> string \<Rightarrow> nat \<Rightarrow> nat option \<Rightarrow> encrypted_record list \<Rightarrow>
   (append_record list, replica_error) result" where
  "decrypt_recovery C key s after c rs =
     (if (case c of Some w \<Rightarrow> w < after | None \<Rightarrow> False)
      then Inl (RecoveryIncomplete (saturating_add_u64 after 1) (the c))
      else
      bind_result (check_tail C key s (checked_add_u64 after 1) (sort_key lsn rs))
        (\<lambda>(expected, recovered).
      case c of
        None \<Rightarrow> Inr recovered
      | Some w \<Rightarrow>
          if recovery_complete after w recovered then Inr recovered
          else Inl (RecoveryIncomplete (case expected of Some e \<Rightarrow> e | None \<Rightarrow> u64_max) w)))"

definition writer_append ::
  "crypto \<Rightarrow> byte list \<Rightarrow> 'g gateway \<Rightarrow> 'g \<Rightarrow> append_record \<Rightarrow> 'g \<times> (commit_knowledge, replica_error) result" where
  "writer_append C key G g r =
     (if ar_lsn r \<le> ar_committed_lsn r then (g, Inl (InvalidWatermark (ar_lsn r) (ar_committed_lsn r)))
      else case encrypt C key r of
          Inl e \<Rightarrow> (g, Inl e)
        | Inr encrypted \<Rightarrow>
            (case gw_append G g encrypted of
               (g', Inl e) \<Rightarrow> (g', Inl e)
             | (g', Inr certificate) \<Rightarrow>
                 (g', Inr (replica_with_certificate (ar_stream r) (ar_writer_epoch r) (ar_lsn r) certificate))))"

fun writer_batch_len :: "nat \<Rightarrow> nat \<Rightarrow> append_record list \<Rightarrow> (nat, replica_error) result" where
  "writer_batch_len name_len encoded_len [] = Inr encoded_len"
| "writer_batch_len name_len encoded_len (r # rs) =
     (if MAX_ENCRYPTED_RECORD_PLAINTEXT_BYTES < length (ar_payload r)
      then Inl (Protocol ''append payload exceeds encrypted record plaintext limit'')
      else case Option.bind (checked_add_u64 encoded_len 4) (\<lambda>l1.
             Option.bind (checked_add_u64 l1 ENCRYPTED_RECORD_BINARY_FIXED_BYTES) (\<lambda>l2.
             Option.bind (checked_add_u64 l2 name_len) (\<lambda>l3.
             Option.bind (checked_add_u64 l3 XCHACHA20POLY1305_TAG_BYTES) (\<lambda>l4.
             checked_add_u64 l4 (length (ar_payload r)))))) of
          None \<Rightarrow> Inl (Protocol ''append batch length overflow'')
        | Some l \<Rightarrow> writer_batch_len name_len l rs)"

fun writer_windows :: "append_record list \<Rightarrow> (unit, replica_error) result" where
  "writer_windows (p # c # rs) =
     (if ar_stream c \<noteq> ar_stream p then Inl (Protocol ''append batch contains multiple streams'')
      else if ar_writer_epoch c \<noteq> ar_writer_epoch p
      then Inl (Protocol ''append batch contains multiple writer epochs'')
      else case checked_add_u64 (ar_lsn p) 1 of
          None \<Rightarrow> Inl LsnConflict
        | Some expected_lsn \<Rightarrow>
            if ar_lsn c \<noteq> expected_lsn then Inl LsnConflict
            else if ar_committed_lsn c \<noteq> ar_lsn p
            then Inl (InvalidWatermark (ar_lsn c) (ar_committed_lsn c))
            else writer_windows (c # rs))"
| "writer_windows _ = Inr ()"

fun encrypt_all ::
  "crypto \<Rightarrow> byte list \<Rightarrow> append_record list \<Rightarrow> (encrypted_record list, replica_error) result" where
  "encrypt_all C key [] = Inr []"
| "encrypt_all C key (r # rs) =
     bind_result (encrypt C key r) (\<lambda>e. bind_result (encrypt_all C key rs) (\<lambda>es. Inr (e # es)))"

text \<open>The checks of \<open>append_many\<close> before anything is encrypted.\<close>

definition writer_check :: "append_record list \<Rightarrow> (unit, replica_error) result" where
  "writer_check rs =
     (case rs of
        [] \<Rightarrow> Inl (Protocol ''append batch must not be empty'')
      | first # _ \<Rightarrow>
          if MAX_ENCRYPTED_RECORD_BATCH_RECORDS < length rs
          then Inl (Protocol ''append batch has too many records'')
          else if ar_lsn first \<le> ar_committed_lsn first
          then Inl (InvalidWatermark (ar_lsn first) (ar_committed_lsn first))
          else if ar_stream first = [] \<or> MAX_ENCRYPTED_RECORD_STREAM_BYTES < length (ar_stream first)
          then Inl (Protocol ''append batch stream length is out of bounds'')
          else bind_result (writer_batch_len (length (ar_stream first)) 4 rs) (\<lambda>encoded_len.
            if MAX_ENCRYPTED_RECORD_BATCH_BYTES < encoded_len
            then Inl (Protocol ''append batch body is too large'')
            else writer_windows rs))"

definition writer_append_many ::
  "crypto \<Rightarrow> byte list \<Rightarrow> 'g gateway \<Rightarrow> 'g \<Rightarrow> append_record list \<Rightarrow>
   'g \<times> (commit_knowledge, replica_error) result" where
  "writer_append_many C key G g rs =
     (case bind_result (writer_check rs) (\<lambda>_. encrypt_all C key rs) of
        Inl e \<Rightarrow> (g, Inl e)
      | Inr encrypted \<Rightarrow>
          (case gw_append_many G g encrypted of
             (g', Inl e) \<Rightarrow> (g', Inl e)
           | (g', Inr certificate) \<Rightarrow>
               (g', Inr (replica_with_certificate (ar_stream (last rs)) (ar_writer_epoch (last rs))
                          (ar_lsn (last rs)) certificate))))"

definition writer_recover ::
  "crypto \<Rightarrow> byte list \<Rightarrow> 'g gateway \<Rightarrow> 'g \<Rightarrow> string \<Rightarrow> nat \<Rightarrow>
   'g \<times> (append_record list, replica_error) result" where
  "writer_recover C key G g s after =
     (case gw_recover G g s after of
        (g', Inl e) \<Rightarrow> (g', Inl e)
      | (g', Inr rs) \<Rightarrow> (g', decrypt_recovery C key s after None rs))"

definition writer_recover_with_watermark ::
  "crypto \<Rightarrow> byte list \<Rightarrow> 'g gateway \<Rightarrow> 'g \<Rightarrow> string \<Rightarrow> nat \<Rightarrow> nat \<Rightarrow> string \<Rightarrow>
   'g \<times> (append_record list, replica_error) result" where
  "writer_recover_with_watermark C key G g s after c certificate =
     (if certificate = [] then (g, Inl CommitCertificateMissing)
      else case gw_recover_with_watermark G g s after c certificate of
          (g', Inl e) \<Rightarrow> (g', Inl e)
        | (g', Inr rs) \<Rightarrow> (g', decrypt_recovery C key s after (Some c) rs))"

text \<open>The default \<open>append_many\<close> of the gateway trait: one record after the other.\<close>

fun append_each ::
  "('g \<Rightarrow> encrypted_record \<Rightarrow> 'g \<times> ('c, replica_error) result) \<Rightarrow> 'c \<Rightarrow> 'g \<Rightarrow> encrypted_record list \<Rightarrow>
   'g \<times> ('c, replica_error) result" where
  "append_each app certificate g [] = (g, Inr certificate)"
| "append_each app certificate g (r # rs) =
     (case app g r of (g', Inl e) \<Rightarrow> (g', Inl e) | (g', Inr c) \<Rightarrow> append_each app c g' rs)"

definition default_append_many ::
  "('g \<Rightarrow> encrypted_record \<Rightarrow> 'g \<times> (string option, replica_error) result) \<Rightarrow> 'g \<Rightarrow> encrypted_record list \<Rightarrow>
   'g \<times> (string option, replica_error) result" where
  "default_append_many app g rs =
     (case validate_append_batch rs of Inl e \<Rightarrow> (g, Inl e) | Inr _ \<Rightarrow> append_each app None g rs)"

section \<open>Specification\<close>

text \<open>The documented behaviour of the primitives: what is sealed can be opened, with a tag of 16
  bytes added, and the digests have 32 bytes.\<close>

definition crypto_ok :: "crypto \<Rightarrow> bool" where
  "crypto_ok C \<longleftrightarrow>
     (\<forall>k n p c. seal C k n p = Some c \<longrightarrow> unseal C k n c = Some p \<and> length c = length p + 16) \<and>
     (\<forall>m. length (sha256 C m) = 32) \<and> (\<forall>k m. length (hmac C k m) = 32)"

definition seal_total :: "crypto \<Rightarrow> bool" where
  "seal_total C \<longleftrightarrow> (\<forall>k n p. length p \<le> MAX_ENCRYPTED_RECORD_PLAINTEXT_BYTES \<longrightarrow> seal C k n p \<noteq> None)"

text \<open>A contiguous tail of one stream after \<open>after\<close>.\<close>

definition tail_of :: "string \<Rightarrow> nat \<Rightarrow> append_record list \<Rightarrow> bool" where
  "tail_of s after ps \<longleftrightarrow> after + length ps \<le> u64_max \<and>
     (\<forall>i < length ps. ar_stream (ps ! i) = s \<and> ar_lsn (ps ! i) = after + 1 + i \<and>
        ar_committed_lsn (ps ! i) = after + i)"

text \<open>What the Rust types guarantee of a plain record.\<close>

definition valid_plain :: "append_record \<Rightarrow> bool" where
  "valid_plain r = (utf8_valid (as_bytes (ar_stream r)) \<and> ar_writer_epoch r < u64_bound \<and>
     ar_lsn r < u64_bound \<and> ar_committed_lsn r < u64_bound)"

definition plain_pair :: "append_record \<Rightarrow> append_record \<Rightarrow> bool" where
  "plain_pair p c \<longleftrightarrow> ar_stream c = ar_stream p \<and> ar_writer_epoch c = ar_writer_epoch p \<and>
     ar_lsn c = ar_lsn p + 1 \<and> ar_lsn c < u64_bound \<and> ar_committed_lsn c = ar_lsn p"

text \<open>A cipher that only appends sixteen zero bytes, for the witnesses.\<close>

definition plain_crypto :: crypto where
  "plain_crypto = \<lparr>sha256 = (\<lambda>_. replicate 32 0), hmac = (\<lambda>_ _. replicate 32 0),
     seal = (\<lambda>_ _ p. Some (p @ replicate 16 0)), unseal = (\<lambda>_ _ c. Some (take (length c - 16) c))\<rparr>"

definition plain_record :: "nat \<Rightarrow> append_record" where
  "plain_record n = \<lparr>ar_stream = ''t'', ar_writer_epoch = 1, ar_lsn = n + 1, ar_committed_lsn = n,
     ar_payload = [7]\<rparr>"

definition plain_sealed :: "nat \<Rightarrow> encrypted_record" where
  "plain_sealed n = \<lparr>stream = ''t'', writer_epoch = 1, lsn = n + 1, committed_lsn = n,
     nonce = replicate 24 0, ciphertext = 7 # replicate 16 0, authentication = replicate 32 0\<rparr>"

lemma decrypt_encrypt:
  assumes "crypto_ok C" "encrypt C key r = Inr e"
  shows "decrypt C key e = Inr r"
proof -
  obtain ct where "seal C key (take 24 (sha256 C (nonce_input C r))) (ar_payload r) = Some ct"
    and e: "e = \<lparr>stream = ar_stream r, writer_epoch = ar_writer_epoch r, lsn = ar_lsn r,
       committed_lsn = ar_committed_lsn r, nonce = take 24 (sha256 C (nonce_input C r)), ciphertext = ct,
       authentication = hmac C key (mac_input (ar_stream r) (ar_writer_epoch r) (ar_lsn r) (ar_committed_lsn r) ct)\<rparr>"
    using assms(2) by (auto simp: encrypt_def Let_def split: if_splits option.splits)
  moreover have "unseal C key (take 24 (sha256 C (nonce_input C r))) ct = Some (ar_payload r)"
    using assms(1) calculation(1) by (auto simp: crypto_ok_def)
  ultimately show ?thesis by (simp add: decrypt_def)
qed

lemma encrypt_fields:
  assumes "encrypt C key r = Inr e"
  shows "stream e = ar_stream r" "writer_epoch e = ar_writer_epoch r" "lsn e = ar_lsn r"
    "committed_lsn e = ar_committed_lsn r" "length (ar_payload r) \<le> MAX_ENCRYPTED_RECORD_PLAINTEXT_BYTES"
  using assms by (auto simp: encrypt_def Let_def split: if_splits option.splits)

lemma decrypt_fields:
  assumes "decrypt C key e = Inr r"
  shows "ar_stream r = stream e" "ar_writer_epoch r = writer_epoch e" "ar_lsn r = lsn e"
    "ar_committed_lsn r = committed_lsn e"
  using assms by (auto simp: decrypt_def split: if_splits option.splits)

lemma encrypt_lengths:
  assumes "crypto_ok C" "encrypt C key r = Inr e"
  shows "length (nonce e) = 24" "length (authentication e) = 32"
    "length (ciphertext e) = length (ar_payload r) + 16"
  using assms by (auto simp: encrypt_def Let_def crypto_ok_def split: if_splits option.splits)

lemma encrypt_total:
  "seal_total C \<Longrightarrow> length (ar_payload r) \<le> MAX_ENCRYPTED_RECORD_PLAINTEXT_BYTES \<Longrightarrow> \<exists>e. encrypt C key r = Inr e"
  by (auto simp: encrypt_def Let_def seal_total_def split: option.splits)

lemma tail_of_Cons:
  "tail_of s a (p # ps) \<longleftrightarrow> ar_stream p = s \<and> ar_lsn p = Suc a \<and> ar_committed_lsn p = a \<and>
     a < u64_max \<and> tail_of s (Suc a) ps"
  by (auto simp: tail_of_def nth_Cons split: nat.splits)

text \<open>The loop accepts exactly the authenticated contiguous tails.\<close>

lemma check_tail_iff:
  assumes "a \<le> u64_max"
  shows "check_tail C key s (checked_add_u64 a (Suc 0)) rs = Inr (e', ps) \<longleftrightarrow>
    e' = checked_add_u64 (a + length ps) (Suc 0) \<and> tail_of s a ps \<and>
    list_all2 (\<lambda>r p. decrypt C key r = Inr p) rs ps"
  using assms
proof (induction rs arbitrary: a ps)
  case Nil
  then show ?case by (auto simp: tail_of_def)
next
  case (Cons r rs)
  show ?case
  proof (cases "a < u64_max")
    case False
    then have "checked_add_u64 a (Suc 0) = None" using Cons.prems by (simp add: checked_add_u64_def u64_max_def)
    with False show ?thesis by (auto simp: list_all2_Cons1 tail_of_Cons)
  next
    case True
    then have e: "checked_add_u64 a (Suc 0) = Some (Suc a)" by (simp add: checked_add_u64_def u64_max_def)
    have IH: "check_tail C key s (checked_add_u64 (Suc a) (Suc 0)) rs = Inr (e', ps) \<longleftrightarrow>
      e' = checked_add_u64 (Suc a + length ps) (Suc 0) \<and> tail_of s (Suc a) ps \<and>
      list_all2 (\<lambda>r p. decrypt C key r = Inr p) rs ps" for ps
      using Cons.IH [of "Suc a"] True by simp
    have "check_tail C key s (Some (Suc a)) (r # rs) = Inr (e', ps) \<longleftrightarrow>
        stream r = s \<and> lsn r = Suc a \<and> committed_lsn r = a \<and>
        (\<exists>p ps'. decrypt C key r = Inr p \<and> ps = p # ps' \<and>
           check_tail C key s (checked_add_u64 (Suc a) (Suc 0)) rs = Inr (e', ps'))"
      by (auto simp: bind_result_Inr_iff)
    then show ?thesis
      unfolding e IH using True decrypt_fields [of C key r]
      by (auto simp: list_all2_Cons1 tail_of_Cons)
  qed
qed

lemma recovery_complete_iff:
  assumes "tail_of s a ps" "a \<le> w"
  shows "recovery_complete a w ps \<longleftrightarrow> w = a + length ps"
proof (cases "ps = []")
  case False
  then have "ar_lsn (last ps) = a + length ps"
    using assms(1) by (auto simp: tail_of_def last_conv_nth)
  with False show ?thesis by (auto simp: recovery_complete_def)
qed (auto simp: recovery_complete_def)

lemma decrypt_recovery_iff:
  assumes "a \<le> u64_max"
  shows "decrypt_recovery C key s a c rs = Inr ps \<longleftrightarrow>
    tail_of s a ps \<and> list_all2 (\<lambda>r p. decrypt C key r = Inr p) (sort_key lsn rs) ps \<and>
    (\<forall>w. c = Some w \<longrightarrow> w = a + length ps)"
proof (cases c)
  case None
  then show ?thesis
    by (auto simp: decrypt_recovery_def bind_result_Inr_iff check_tail_iff [OF assms])
next
  case (Some w)
  show ?thesis
  proof (cases "w < a")
    case False
    then show ?thesis
      using recovery_complete_iff [of s a _ w]
      by (fastforce simp: Some decrypt_recovery_def bind_result_Inr_iff check_tail_iff [OF assms]
          split: if_splits)
  qed (auto simp: Some decrypt_recovery_def)
qed

section \<open>The checks before a batch is sent\<close>

lemma encrypt_all_iff:
  "encrypt_all C key rs = Inr es \<longleftrightarrow> list_all2 (\<lambda>r e. encrypt C key r = Inr e) rs es"
  by (induction rs arbitrary: es) (auto simp: bind_result_Inr_iff list_all2_Cons1)

lemma encrypt_valid:
  "crypto_ok C \<Longrightarrow> encrypt C key r = Inr e \<Longrightarrow> valid_plain r \<Longrightarrow> valid_record e"
  using encrypt_fields [of C key r e] encrypt_lengths [of C key r e]
  by (simp add: valid_record_def valid_plain_def)

lemma writer_batch_len_iff:
  "writer_batch_len m l rs = Inr n \<longleftrightarrow>
     list_all (\<lambda>r. length (ar_payload r) \<le> MAX_ENCRYPTED_RECORD_PLAINTEXT_BYTES) rs \<and>
     n = l + (\<Sum>r \<leftarrow> rs. 108 + m + length (ar_payload r)) \<and> (rs \<noteq> [] \<longrightarrow> n < u64_bound)"
proof (induction rs arbitrary: l)
  case (Cons r rs)
  show ?case
    by (auto simp: Cons.IH checked_add_u64_def ENCRYPTED_RECORD_BINARY_FIXED_BYTES_def
        ENCRYPTED_RECORD_AUTHENTICATION_BYTES_def XCHACHA20POLY1305_TAG_BYTES_def
        split: option.splits if_splits)
qed auto

lemma windows_Cons:
  "(\<forall>i. Suc i < length (p # c # rs) \<longrightarrow> P ((p # c # rs) ! i) ((p # c # rs) ! Suc i)) \<longleftrightarrow>
   P p c \<and> (\<forall>i. Suc i < length (c # rs) \<longrightarrow> P ((c # rs) ! i) ((c # rs) ! Suc i))"
  by (auto simp: nth_Cons split: nat.splits)

lemma writer_windows_iff:
  "writer_windows rs = Inr () \<longleftrightarrow> (\<forall>i. Suc i < length rs \<longrightarrow> plain_pair (rs ! i) (rs ! Suc i))"
proof (induction rs rule: writer_windows.induct)
  case (1 p c rs)
  have "writer_windows (p # c # rs) = Inr () \<longleftrightarrow> plain_pair p c \<and> writer_windows (c # rs) = Inr ()"
    by (auto simp: plain_pair_def checked_add_u64_def split: if_splits)
  moreover have "writer_windows (c # rs) = Inr () \<longleftrightarrow>
      (\<forall>i. Suc i < length (c # rs) \<longrightarrow> plain_pair ((c # rs) ! i) ((c # rs) ! Suc i))" if "plain_pair p c"
    using 1 [of "ar_lsn c"] that by (auto simp: plain_pair_def checked_add_u64_def)
  ultimately show ?case unfolding windows_Cons by blast
qed auto

lemma const_along:
  assumes "\<forall>i. Suc i < length xs \<longrightarrow> f (xs ! Suc i) = f (xs ! i)" "i < length xs"
  shows "f (xs ! i) = f (hd xs)"
  using assms(2)
proof (induction i)
  case 0
  then show ?case by (cases xs) auto
next
  case (Suc i)
  then show ?case using assms(1) by simp
qed

lemma writer_check_cases:
  assumes "writer_check rs = Inr ()"
  obtains f where "hd rs = f" "rs \<noteq> []" "length rs \<le> MAX_ENCRYPTED_RECORD_BATCH_RECORDS"
    "ar_committed_lsn f < ar_lsn f" "ar_stream f \<noteq> []"
    "length (ar_stream f) \<le> MAX_ENCRYPTED_RECORD_STREAM_BYTES"
    "4 + (\<Sum>r \<leftarrow> rs. 108 + length (ar_stream f) + length (ar_payload r)) \<le> MAX_ENCRYPTED_RECORD_BATCH_BYTES"
    "writer_windows rs = Inr ()"
    "list_all (\<lambda>r. length (ar_payload r) \<le> MAX_ENCRYPTED_RECORD_PLAINTEXT_BYTES) rs"
proof (cases rs)
  case (Cons f t)
  with assms that show ?thesis
    unfolding writer_check_def
    by (auto simp: bind_result_Inr_iff writer_batch_len_iff simp del: writer_batch_len.simps split: if_splits)
qed (use assms in \<open>simp add: writer_check_def\<close>)

lemma writer_check_consecutive:
  assumes "writer_check rs = Inr ()" "encrypt_all C key rs = Inr es"
  shows "consecutive es"
proof -
  obtain f where f: "hd rs = f" "rs \<noteq> []" "ar_committed_lsn f < ar_lsn f" "writer_windows rs = Inr ()"
    using assms(1) by (rule writer_check_cases)
  have l: "length es = length rs" and e: "\<And>i. i < length rs \<Longrightarrow> encrypt C key (rs ! i) = Inr (es ! i)"
    using assms(2) by (auto simp: encrypt_all_iff list_all2_conv_all_nth)
  have h: "hd es = es ! 0" "hd rs = rs ! 0" using f(2) l by (cases es; cases rs; simp)+
  note fields = encrypt_fields [OF e]
  have w: "\<forall>i. Suc i < length rs \<longrightarrow> validate_pair (es ! i) (es ! i) (es ! Suc i) = Inr ()"
    using f(4) by (auto simp: writer_windows_iff plain_pair_def validate_pair_iff fields u64_max_def)
  have "\<forall>i. Suc i < length es \<longrightarrow> stream (es ! Suc i) = stream (es ! i)"
    "\<forall>i. Suc i < length es \<longrightarrow> writer_epoch (es ! Suc i) = writer_epoch (es ! i)"
    using w by (simp_all add: validate_pair_iff l)
  note c = const_along [OF this(1)] const_along [OF this(2)]
  have "validate_pair (hd es) (es ! i) (es ! Suc i) = Inr ()" if "Suc i < length es" for i
    using w [rule_format, of i] that c [of "Suc i"] l by (simp add: validate_pair_iff)
  then have "validate_append_batch es = Inr ()"
    using f h l fields [of 0] unfolding validate_append_batch_def
    by (cases es) (auto simp: validate_windows_iff)
  then show ?thesis by (simp add: validate_append_batch_iff)
qed

lemma writer_check_bounded:
  assumes "crypto_ok C" "writer_check rs = Inr ()" "encrypt_all C key rs = Inr es" "list_all valid_plain rs"
  shows "list_all valid_record es \<and> batch_bounded es"
proof -
  obtain f where f: "hd rs = f" "rs \<noteq> []" "length rs \<le> MAX_ENCRYPTED_RECORD_BATCH_RECORDS"
    "ar_stream f \<noteq> []" "length (ar_stream f) \<le> MAX_ENCRYPTED_RECORD_STREAM_BYTES"
    "4 + (\<Sum>r \<leftarrow> rs. 108 + length (ar_stream f) + length (ar_payload r)) \<le> MAX_ENCRYPTED_RECORD_BATCH_BYTES"
    "writer_windows rs = Inr ()"
    "list_all (\<lambda>r. length (ar_payload r) \<le> MAX_ENCRYPTED_RECORD_PLAINTEXT_BYTES) rs"
    using assms(2) by (rule writer_check_cases)
  have l: "length es = length rs" and e: "\<And>i. i < length rs \<Longrightarrow> encrypt C key (rs ! i) = Inr (es ! i)"
    using assms(3) by (auto simp: encrypt_all_iff list_all2_conv_all_nth)
  have "\<forall>i. Suc i < length rs \<longrightarrow> ar_stream (rs ! Suc i) = ar_stream (rs ! i)"
    using f(7) by (simp add: writer_windows_iff plain_pair_def)
  then have s: "ar_stream (rs ! i) = ar_stream f" if "i < length rs" for i
    using const_along [of rs ar_stream i] f(1) that by blast
  have v: "valid_record (es ! i)" if "i < length rs" for i
    using encrypt_valid [OF assms(1) e] that assms(4) by (simp add: list_all_length)
  have p: "length (ar_payload (rs ! i)) \<le> MAX_ENCRYPTED_RECORD_PLAINTEXT_BYTES" if "i < length rs" for i
    using f(8) that by (simp add: list_all_length)
  have len: "length (stream (es ! i)) = length (ar_stream f)"
      "length (ciphertext (es ! i)) = length (ar_payload (rs ! i)) + 16" if "i < length rs" for i
    using encrypt_fields(1) [OF e [OF that]] encrypt_lengths(3) [OF assms(1) e [OF that]] s [OF that]
    by simp_all
  have wb: "wire_bounded (es ! i)" if "i < length rs" for i
    using len [OF that] p [OF that] f(4,5) unfolding wire_bounded_def
    by (auto simp: MAX_ENCRYPTED_RECORD_PLAINTEXT_BYTES_def XCHACHA20POLY1305_TAG_BYTES_def wire_limits)
  have "map (\<lambda>e. 4 + length (wire_bytes e)) es = map (\<lambda>r. 108 + length (ar_stream f) + length (ar_payload r)) rs"
    by (rule nth_equalityI) (simp_all add: l length_wire_bytes v len)
  then have "length (batch_bytes es) \<le> MAX_ENCRYPTED_RECORD_BATCH_BYTES"
    using f(6) unfolding length_batch_bytes by simp
  then show ?thesis
    using v wb l f(2,3) by (auto simp: batch_bounded_def list_all_length)
qed

lemma plain_crypto_ok: "crypto_ok plain_crypto"
  by (simp add: crypto_ok_def plain_crypto_def)

lemma plain_encrypt: "encrypt plain_crypto key (plain_record n) = Inr (plain_sealed n)"
  by (simp add: encrypt_def plain_crypto_def plain_record_def plain_sealed_def Let_def
      MAX_ENCRYPTED_RECORD_PLAINTEXT_BYTES_def MAX_ENCRYPTED_RECORD_CIPHERTEXT_BYTES_def
      XCHACHA20POLY1305_TAG_BYTES_def)

section \<open>Properties\<close>

text \<open>C30: Decryption inverts encryption: with ciphers that open what they sealed, every record that
  is encrypted decrypts under the same key to itself, with every field.\<close>

theorem encrypt_roundtrip:
  assumes "crypto_ok C" "encrypt C key r = Inr e"
  shows "decrypt C key e = Inr r"
  by (rule decrypt_encrypt [OF assms])

theorem encrypt_roundtrip_witness: "decrypt plain_crypto [] (plain_sealed 3) = Inr (plain_record 3)"
  by (rule encrypt_roundtrip [OF plain_crypto_ok plain_encrypt])

text \<open>C10: A recovery is accepted exactly when it is the whole authenticated tail. The response of
  the gateway, put in the order of its numbers, must decrypt record by record to a contiguous
  tail of the stream after \<open>a\<close>, each record naming its predecessor as committed; with a
  watermark the tail must end exactly there. Anything else is an error.\<close>

theorem recovery_is_tail:
  assumes "a \<le> u64_max"
  shows "decrypt_recovery C key s a c rs = Inr ps \<longleftrightarrow>
    tail_of s a ps \<and> list_all2 (\<lambda>r p. decrypt C key r = Inr p) (sort_key lsn rs) ps \<and>
    (\<forall>w. c = Some w \<longrightarrow> w = a + length ps)"
  by (rule decrypt_recovery_iff [OF assms])

theorem recovery_is_tail_witness:
  "decrypt_recovery plain_crypto [] ''t'' 3 (Some 5) [plain_sealed 4, plain_sealed 3] =
     Inr [plain_record 3, plain_record 4]"
proof -
  have "decrypt plain_crypto [] (plain_sealed n) = Inr (plain_record n)" for n
    by (rule decrypt_encrypt [OF plain_crypto_ok plain_encrypt])
  moreover have "tail_of ''t'' 3 [plain_record 3, plain_record 4]"
    by (simp add: tail_of_Cons plain_record_def rust_int) (simp add: tail_of_def rust_int)
  moreover have "sort_key lsn [plain_sealed 4, plain_sealed 3] = [plain_sealed 3, plain_sealed 4]"
    by (simp add: plain_sealed_def)
  ultimately show ?thesis
    using recovery_is_tail [of 3 plain_crypto "[]" "''t''" "Some 5" "[plain_sealed 4, plain_sealed 3]"]
    by (simp add: rust_int)
qed

text \<open>C14: The writer's checks are enough for the wire: a batch that passes them and is encrypted
  passes the order check of the gateway, is within every limit of the binary form, and decodes
  at the receiver to the records that were sent.\<close>

theorem checked_batch_is_sent:
  assumes "crypto_ok C" "list_all valid_plain rs" "writer_check rs = Inr ()" "encrypt_all C key rs = Inr es"
  shows "validate_append_batch es = Inr () \<and>
    (\<exists>bytes. encode_binary_batch es = Inr bytes \<and> decode_binary_batch bytes = Inr es)"
proof -
  have "list_all valid_record es" "batch_bounded es"
    using writer_check_bounded [OF assms(1,3,4,2)] by auto
  then show ?thesis
    using writer_check_consecutive [OF assms(3,4)]
    by (auto simp: validate_append_batch_iff encode_binary_batch_iff decode_binary_batch_iff)
qed

theorem checked_batch_is_sent_witness:
  "validate_append_batch [plain_sealed 3, plain_sealed 4] = Inr ()"
proof -
  let ?rs = "[plain_record 3, plain_record 4]"
  have "list_all valid_plain ?rs"
    by (simp add: valid_plain_def plain_record_def as_bytes_def rust_int)
  moreover have "writer_check ?rs = Inr ()"
    by (simp add: writer_check_def plain_record_def wire_limits checked_add_u64_def rust_int
        MAX_ENCRYPTED_RECORD_PLAINTEXT_BYTES_def XCHACHA20POLY1305_TAG_BYTES_def)
  moreover have "encrypt_all plain_crypto [] ?rs = Inr [plain_sealed 3, plain_sealed 4]"
    by (simp add: plain_encrypt)
  ultimately show ?thesis using checked_batch_is_sent [OF plain_crypto_ok] by blast
qed

end
