(* ===== verification/Memory_Replica.thy ===== *)
theory Memory_Replica
  imports Quorum_Client
begin

text \<open>
  The in-memory gateway (\<open>crates/walleye-bitr/src/lib.rs\<close>, \<open>MemoryReplica\<close>), which has the
  fencing and idempotency rules of a replica node, and the contract of a gateway that a
  recovering writer relies on. The theory shows that the in-memory gateway keeps the contract
  and that what a writer was acknowledged is what a recovery returns.
\<close>

section \<open>Definitions\<close>

record memory_replica =
  available :: bool
  m_highest_epoch :: "(string, nat) bt"
  m_records :: "(string \<times> nat, encrypted_record) bt"

definition memory_healthy :: memory_replica where
  "memory_healthy = \<lparr>available = True, m_highest_epoch = [], m_records = []\<rparr>"

definition memory_unavailable :: memory_replica where
  "memory_unavailable = \<lparr>available = False, m_highest_epoch = [], m_records = []\<rparr>"

definition m_epoch :: "memory_replica \<Rightarrow> string \<Rightarrow> nat" where
  "m_epoch m s = (case bt_get (m_highest_epoch m) s of Some e \<Rightarrow> e | None \<Rightarrow> 0)"

definition append_record :: "memory_replica \<Rightarrow> encrypted_record \<Rightarrow> memory_replica \<times> (unit, replica_error) result" where
  "append_record m r =
     (if \<not> available m then (m, Inl NodeUnavailable)
      else if lsn r \<le> committed_lsn r then (m, Inl (InvalidWatermark (lsn r) (committed_lsn r)))
      else let highest = m_epoch m (stream r)
           in if writer_epoch r < highest then (m, Inl WriterFenced)
              else case bt_get (m_records m) (stream r, lsn r) of
                  Some existing \<Rightarrow> if existing = r then (m, Inr ()) else (m, Inl LsnConflict)
                | None \<Rightarrow>
                    (m\<lparr>m_highest_epoch := bt_insert (stream r) (max (writer_epoch r) highest) (m_highest_epoch m),
                       m_records := bt_insert (stream r, lsn r) r (m_records m)\<rparr>, Inr ()))"

text \<open>The two loops of \<open>append_records\<close>: the checks of the whole batch, then its insertion.\<close>

fun check_batch :: "memory_replica \<Rightarrow> encrypted_record list \<Rightarrow> (unit, replica_error) result" where
  "check_batch m [] = Inr ()"
| "check_batch m (r # rs) =
     (if writer_epoch r < m_epoch m (stream r) then Inl WriterFenced
      else if (case bt_get (m_records m) (stream r, lsn r) of Some existing \<Rightarrow> existing \<noteq> r | None \<Rightarrow> False)
      then Inl LsnConflict
      else check_batch m rs)"

definition insert_one :: "memory_replica \<Rightarrow> encrypted_record \<Rightarrow> memory_replica" where
  "insert_one m r =
     m\<lparr>m_highest_epoch :=
         bt_insert (stream r) (max (writer_epoch r) (m_epoch m (stream r))) (m_highest_epoch m),
       m_records := (case bt_get (m_records m) (stream r, lsn r) of
           Some _ \<Rightarrow> m_records m | None \<Rightarrow> bt_insert (stream r, lsn r) r (m_records m))\<rparr>"

definition append_records ::
  "memory_replica \<Rightarrow> encrypted_record list \<Rightarrow> memory_replica \<times> (unit, replica_error) result" where
  "append_records m rs =
     (if \<not> available m then (m, Inl NodeUnavailable)
      else case bind_result (validate_append_batch rs) (\<lambda>_. check_batch m rs) of
          Inl e \<Rightarrow> (m, Inl e)
        | Inr _ \<Rightarrow> (foldl insert_one m rs, Inr ()))"

definition records_snapshot :: "memory_replica \<Rightarrow> string \<Rightarrow> encrypted_record list" where
  "records_snapshot m s = filter (\<lambda>r. stream r = s) (map snd (m_records m))"

text \<open>\<open>ReplicaGateway for MemoryReplica\<close>: no certificate is issued.\<close>

definition memory_gateway :: "memory_replica gateway" where
  "memory_gateway =
     \<lparr>gw_append = (\<lambda>m r. case append_record m r of (m', res) \<Rightarrow> (m', bind_result res (\<lambda>_. Inr None))),
      gw_append_many = (\<lambda>m rs. case append_records m rs of (m', res) \<Rightarrow> (m', bind_result res (\<lambda>_. Inr None))),
      gw_recover = (\<lambda>m s after. (m, Inr (filter (\<lambda>r. after < lsn r) (records_snapshot m s)))),
      gw_recover_with_watermark = (\<lambda>m s after c certificate.
        if certificate = [] then (m, Inl CommitCertificateMissing)
        else (m, Inr (filter (\<lambda>r. after < lsn r \<and> lsn r \<le> c) (records_snapshot m s))))\<rparr>"

section \<open>Specification\<close>

text \<open>Every record is filed under its own key, and the fence of a stream is the highest epoch of
  its records.\<close>

definition memory_wf :: "memory_replica \<Rightarrow> bool" where
  "memory_wf m \<longleftrightarrow> bt_wf (m_records m) \<and> bt_wf (m_highest_epoch m) \<and>
     (\<forall>s n r. map_of (m_records m) (s, n) = Some r \<longrightarrow>
        stream r = s \<and> lsn r = n \<and> committed_lsn r < n \<and>
        (\<exists>e. map_of (m_highest_epoch m) s = Some e \<and> writer_epoch r \<le> e)) \<and>
     (\<forall>s e. map_of (m_highest_epoch m) s = Some e \<longrightarrow>
        (\<exists>n r. map_of (m_records m) (s, n) = Some r \<and> writer_epoch r = e))"

text \<open>The writer's appends one after the other, stopping at the first that fails.\<close>

fun writer_appends ::
  "crypto \<Rightarrow> byte list \<Rightarrow> 'g gateway \<Rightarrow> 'g \<Rightarrow> append_record list \<Rightarrow> 'g \<times> (unit, replica_error) result" where
  "writer_appends C key G g [] = (g, Inr ())"
| "writer_appends C key G g (r # rs) =
     (case writer_append C key G g r of
        (g', Inl e) \<Rightarrow> (g', Inl e)
      | (g', Inr _) \<Rightarrow> writer_appends C key G g' rs)"

definition storable :: "memory_replica \<Rightarrow> encrypted_record \<Rightarrow> bool" where
  "storable m r \<longleftrightarrow> m_epoch m (stream r) \<le> writer_epoch r \<and>
     (\<forall>q. map_of (m_records m) (stream r, lsn r) = Some q \<longrightarrow> q = r)"

text \<open>What a gateway promises a writer: \<open>entry\<close> is the record it holds under a stream and number.\<close>

locale replica_gateway =
  fixes G :: "'g gateway"
    and wf :: "'g \<Rightarrow> bool"
    and entry :: "'g \<Rightarrow> string \<Rightarrow> nat \<Rightarrow> encrypted_record option"
  assumes entry_key: "wf g \<Longrightarrow> entry g s n = Some r \<Longrightarrow> stream r = s \<and> lsn r = n"
    and append_wf: "wf g \<Longrightarrow> gw_append G g r = (g', res) \<Longrightarrow> wf g'"
    and append_entry: "wf g \<Longrightarrow> gw_append G g r = (g', Inr c) \<Longrightarrow>
      entry g' s n = (if s = stream r \<and> n = lsn r then Some r else entry g s n)"
    and recover_entries: "wf g \<Longrightarrow> gw_recover G g s a = (g', Inr rs) \<Longrightarrow>
      distinct rs \<and> set rs = {r. \<exists>n > a. entry g s n = Some r}"
begin

lemma writer_append_entry:
  assumes "wf g" "writer_append C key G g p = (g', Inr k)"
  obtains e where "encrypt C key p = Inr e" "wf g'"
    "\<And>s n. entry g' s n = (if s = ar_stream p \<and> n = ar_lsn p then Some e else entry g s n)"
proof -
  obtain e c where e: "encrypt C key p = Inr e" "gw_append G g e = (g', Inr c)"
    using assms(2) by (auto simp: writer_append_def split: if_splits sum.splits prod.splits)
  show ?thesis
    using that [OF e(1)] append_wf [OF assms(1) e(2)] append_entry [OF assms(1) e(2)]
      encrypt_fields [OF e(1)] by simp
qed

text \<open>After successful appends of a tail the gateway holds its encryption, and nothing else changed.\<close>

lemma writer_appends_entries:
  assumes "wf g" "tail_of s a ps" "writer_appends C key G g ps = (g', Inr ())"
  obtains es where "wf g'" "list_all2 (\<lambda>p e. encrypt C key p = Inr e) ps es"
    "\<And>n. entry g' s n = (if a < n \<and> n \<le> a + length ps then Some (es ! (n - Suc a)) else entry g s n)"
  using assms
proof (induction ps arbitrary: a g thesis)
  case Nil
  then show ?case by (intro Nil.prems(1) [of "[]"]) auto
next
  case (Cons p ps)
  obtain g1 k where w: "writer_append C key G g p = (g1, Inr k)" "writer_appends C key G g1 ps = (g', Inr ())"
    using Cons.prems(4) by (auto split: prod.splits sum.splits)
  obtain e where e: "encrypt C key p = Inr e" "wf g1"
    "\<And>s n. entry g1 s n = (if s = ar_stream p \<and> n = ar_lsn p then Some e else entry g s n)"
    using writer_append_entry [OF Cons.prems(2) w(1)] by blast
  have p: "ar_stream p = s" "ar_lsn p = Suc a" "tail_of s (Suc a) ps"
    using Cons.prems(3) by (simp_all add: tail_of_Cons)
  show ?case
  proof (rule Cons.IH [OF _ e(2) p(3) w(2)])
    fix es
    assume es: "wf g'" "list_all2 (\<lambda>p e. encrypt C key p = Inr e) ps es"
      "\<And>n. entry g' s n = (if Suc a < n \<and> n \<le> Suc a + length ps then Some (es ! (n - Suc (Suc a))) else entry g1 s n)"
    have "entry g' s n = (if a < n \<and> n \<le> a + length (p # ps) then Some ((e # es) ! (n - Suc a)) else entry g s n)" for n
    proof (cases "n = Suc a")
      case False
      then show ?thesis unfolding es(3) e(3) using p by (cases "a < n") (auto simp: nth_Cons' Suc_diff_Suc)
    qed (simp add: es(3) e(3) p)
    then show thesis using es(1,2) e(1) by (intro Cons.prems(1) [of "e # es"]) simp_all
  qed
qed

lemma tail_sorted:
  assumes "tail_of s a ps" "list_all2 (\<lambda>p e. encrypt C key p = Inr e) ps es"
  shows "map lsn es = map (\<lambda>i. a + 1 + i) [0..<length es]"
  using assms encrypt_fields(3)
  by (intro nth_equalityI) (auto simp: tail_of_def list_all2_conv_all_nth)

lemma acknowledged_recovered:
  assumes "crypto_ok C" "wf g" "tail_of s a ps" "writer_appends C key G g ps = (g', Inr ())"
    "\<And>n. a < n \<Longrightarrow> entry g s n = None" "gw_recover G g' s a = (g2, Inr rs)"
  shows "writer_recover C key G g' s a = (g2, Inr ps)"
proof -
  obtain es where es: "wf g'" "list_all2 (\<lambda>p e. encrypt C key p = Inr e) ps es"
    and en: "\<And>n. entry g' s n = (if a < n \<and> n \<le> a + length ps then Some (es ! (n - Suc a)) else entry g s n)"
    using writer_appends_entries [OF assms(2-4)] by blast
  have l: "length ps = length es" using es(2) by (rule list_all2_lengthD)
  have held: "{r. \<exists>n > a. entry g' s n = Some r} = set es"
  proof (intro set_eqI iffI)
    fix r assume "r \<in> set es"
    then obtain i where "i < length es" "es ! i = r" by (auto simp: in_set_conv_nth)
    then show "r \<in> {r. \<exists>n > a. entry g' s n = Some r}" by (auto simp: en l intro!: exI [of _ "Suc (a + i)"])
  qed (auto simp: en l assms(5) split: if_splits intro!: nth_mem)
  have m: "map lsn es = map (\<lambda>i. a + 1 + i) [0..<length es]" by (rule tail_sorted [OF assms(3) es(2)])
  have "distinct (map lsn es)" "sorted (map lsn es)"
    unfolding m by (auto simp: distinct_map inj_on_def sorted_iff_nth_mono)
  then have d: "distinct es" "inj_on lsn (set es)" "sorted (map lsn es)" by (auto simp: distinct_map)
  have "distinct rs" "set rs = set es" using recover_entries [OF es(1) assms(6)] held by auto
  then have "mset rs = mset es" using d(1) by (simp add: set_eq_iff_mset_eq_distinct)
  then have sorted: "sort_key lsn rs = es"
    using d by (intro sort_key_inj_key_eq) (auto simp: \<open>set rs = set es\<close>)
  have "list_all2 (\<lambda>e p. decrypt C key e = Inr p) es ps"
    using es(2) decrypt_encrypt [OF assms(1)] by (auto simp: list_all2_conv_all_nth)
  moreover have "a \<le> u64_max" using assms(3) by (auto simp: tail_of_def)
  ultimately show ?thesis
    using assms(3,6) by (simp add: writer_recover_def decrypt_recovery_iff sorted)
qed

end

section \<open>The in-memory gateway\<close>

lemma append_record_cases:
  assumes "append_record m r = (m', res)"
  obtains (failed) e where "res = Inl e" "m' = m"
    | (held) "res = Inr ()" "m' = m" "map_of (m_records m) (stream r, lsn r) = Some r"
        "m_epoch m (stream r) \<le> writer_epoch r" "available m" "committed_lsn r < lsn r"
    | (stored) "res = Inr ()" "m' = insert_one m r" "map_of (m_records m) (stream r, lsn r) = None"
        "m_epoch m (stream r) \<le> writer_epoch r" "available m" "committed_lsn r < lsn r"
  using assms
  by (auto simp: append_record_def Let_def insert_one_def split: if_splits option.splits)

lemma insert_one_epoch:
  "m_epoch (insert_one m r) s =
     (if s = stream r then max (writer_epoch r) (m_epoch m (stream r)) else m_epoch m s)"
  by (simp add: m_epoch_def insert_one_def map_of_bt_insert)

lemma insert_one_records:
  "map_of (m_records (insert_one m r)) k =
     (if k = (stream r, lsn r) \<and> map_of (m_records m) k = None then Some r else map_of (m_records m) k)"
  by (auto simp: insert_one_def map_of_bt_insert split: option.splits)

lemma insert_one_available [simp]: "available (insert_one m r) = available m"
  by (simp add: insert_one_def)

lemma insert_one_wf:
  assumes "memory_wf m" "map_of (m_records m) (stream r, lsn r) = None"
    "m_epoch m (stream r) \<le> writer_epoch r" "committed_lsn r < lsn r"
  shows "memory_wf (insert_one m r)"
proof -
  have max: "max (writer_epoch r) (m_epoch m (stream r)) = writer_epoch r" using assms(3) by simp
  have he: "map_of (m_highest_epoch (insert_one m r)) s =
      (if s = stream r then Some (writer_epoch r) else map_of (m_highest_epoch m) s)" for s
    by (simp add: insert_one_def map_of_bt_insert max)
  have rec: "map_of (m_records (insert_one m r)) (s, n) =
      (if s = stream r \<and> n = lsn r then Some r else map_of (m_records m) (s, n))" for s n
    using assms(2) by (auto simp: insert_one_records)
  have le: "map_of (m_highest_epoch m) (stream r) = Some e \<Longrightarrow> e \<le> writer_epoch r" for e
    using assms(3) by (simp add: m_epoch_def)
  have "bt_wf (m_records (insert_one m r))" "bt_wf (m_highest_epoch (insert_one m r))"
    using assms(1) by (auto simp: memory_wf_def insert_one_def split: option.splits)
  moreover have "stream q = s \<and> lsn q = n \<and> committed_lsn q < n \<and>
      (\<exists>e. map_of (m_highest_epoch (insert_one m r)) s = Some e \<and> writer_epoch q \<le> e)"
    if "map_of (m_records (insert_one m r)) (s, n) = Some q" for s n q
  proof (cases "s = stream r \<and> n = lsn r")
    case True
    then show ?thesis using that assms(4) unfolding rec he by auto
  next
    case False
    then have "map_of (m_records m) (s, n) = Some q" using that unfolding rec by (auto split: if_splits)
    with assms(1) obtain e where "stream q = s \<and> lsn q = n \<and> committed_lsn q < n"
      "map_of (m_highest_epoch m) s = Some e" "writer_epoch q \<le> e" unfolding memory_wf_def by blast
    then show ?thesis using le le_trans unfolding he by auto
  qed
  moreover have "\<exists>n q. map_of (m_records (insert_one m r)) (s, n) = Some q \<and> writer_epoch q = e"
    if e: "map_of (m_highest_epoch (insert_one m r)) s = Some e" for s e
  proof (cases "s = stream r")
    case True
    then show ?thesis using e unfolding rec he by auto
  next
    case False
    then show ?thesis using e assms(1) unfolding rec he memory_wf_def by auto
  qed
  ultimately show ?thesis by (simp add: memory_wf_def)
qed

lemma append_record_wf: "memory_wf m \<Longrightarrow> append_record m r = (m', res) \<Longrightarrow> memory_wf m'"
  by (erule append_record_cases) (auto intro: insert_one_wf)

lemma snapshot_distinct:
  assumes "memory_wf m"
  shows "distinct (map snd (m_records m))"
proof -
  have "map (\<lambda>r. (stream r, lsn r)) (map snd (m_records m)) = map fst (m_records m)"
    using assms unfolding memory_wf_def
    by (auto simp: comp_def intro!: map_cong dest: bt_wf_distinct)
  then show ?thesis using assms by (metis bt_wf_distinct distinct_map memory_wf_def)
qed

lemma records_snapshot_set:
  assumes "memory_wf m"
  shows "set (records_snapshot m s) = {r. \<exists>n. map_of (m_records m) (s, n) = Some r}"
proof -
  have d: "distinct (map fst (m_records m))" using assms by (simp add: memory_wf_def bt_wf_distinct)
  have k: "(k, r) \<in> set (m_records m) \<Longrightarrow> k = (stream r, lsn r)" for k r
    using assms map_of_is_SomeI [OF d, of k r] unfolding memory_wf_def by (cases k) auto
  show ?thesis
    using d k by (auto simp: records_snapshot_def map_of_eq_Some_iff) (metis snd_conv image_eqI)+
qed

interpretation memory: replica_gateway memory_gateway memory_wf "\<lambda>m s n. map_of (m_records m) (s, n)"
proof
  show "stream r = s \<and> lsn r = n" if "memory_wf g" "map_of (m_records g) (s, n) = Some r" for g s n r
    using that by (simp add: memory_wf_def)
  show "memory_wf g'" if "memory_wf g" "gw_append memory_gateway g r = (g', res)" for g r g' res
    using that append_record_wf by (auto simp: memory_gateway_def split: prod.splits)
  show "map_of (m_records g') (s, n) = (if s = stream r \<and> n = lsn r then Some r else map_of (m_records g) (s, n))"
    if "memory_wf g" and app: "gw_append memory_gateway g r = (g', Inr c)" for g r g' c s n
  proof -
    obtain u where a: "append_record g r = (g', Inr u)"
      using app by (auto simp: memory_gateway_def bind_result_Inr_iff split: prod.splits)
    show ?thesis using a by (cases rule: append_record_cases) (auto simp: insert_one_records)
  qed
  show "distinct rs \<and> set rs = {r. \<exists>n > a. map_of (m_records g) (s, n) = Some r}"
    if w: "memory_wf g" and r: "gw_recover memory_gateway g s a = (g', Inr rs)" for g s a g' rs
  proof -
    have rs: "rs = filter (\<lambda>r. a < lsn r) (records_snapshot g s)" using r by (auto simp: memory_gateway_def)
    have key: "lsn r = n" if "map_of (m_records g) (s, n) = Some r" for n r
      using that w by (simp add: memory_wf_def)
    have "distinct (records_snapshot g s)"
      using snapshot_distinct [OF w] by (simp add: records_snapshot_def)
    moreover have "set rs = {r. (\<exists>n. map_of (m_records g) (s, n) = Some r) \<and> a < lsn r}"
      unfolding rs using records_snapshot_set [OF w, of s] by auto
    ultimately show ?thesis unfolding rs using key by auto
  qed
qed

section \<open>A batch is its records one by one\<close>

lemma check_batch_iff: "check_batch m rs = Inr () \<longleftrightarrow> (\<forall>r \<in> set rs. storable m r)"
  by (induction rs) (auto simp: storable_def split: option.splits)

lemma insert_one_held:
  assumes "memory_wf m" "map_of (m_records m) (stream r, lsn r) = Some r" "storable m r"
  shows "insert_one m r = m"
proof -
  obtain e where e: "map_of (m_highest_epoch m) (stream r) = Some e" "writer_epoch r \<le> e"
    using assms(1,2) unfolding memory_wf_def by blast
  then have "max (writer_epoch r) (m_epoch m (stream r)) = e"
    using assms(3) by (simp add: storable_def m_epoch_def)
  moreover have "bt_insert (stream r) e (m_highest_epoch m) = m_highest_epoch m"
    using assms(1) e(1) by (intro bt_wf_ext) (auto simp: memory_wf_def map_of_bt_insert)
  ultimately show ?thesis using assms(2) by (simp add: insert_one_def)
qed

lemma append_record_iff:
  assumes "memory_wf m" "available m" "committed_lsn r < lsn r"
  shows "append_record m r = (if storable m r then (insert_one m r, Inr ()) else (m, snd (append_record m r)))
    \<and> (\<not> storable m r \<longrightarrow> isl (snd (append_record m r)))"
proof (cases "storable m r")
  case True
  show ?thesis
  proof (cases "map_of (m_records m) (stream r, lsn r)")
    case None
    then show ?thesis using assms True
      by (auto simp: append_record_def storable_def insert_one_def)
  next
    case (Some q)
    then have "q = r" using True by (simp add: storable_def)
    then show ?thesis using assms True Some insert_one_held [OF assms(1)]
      by (auto simp: append_record_def storable_def)
  qed
next
  case False
  then show ?thesis using assms
    by (auto simp: append_record_def storable_def Let_def split: if_splits option.splits)
qed

lemma storable_after:
  assumes "stream q = stream r" "writer_epoch q = writer_epoch r" "lsn q \<noteq> lsn r"
    "m_epoch m (stream r) \<le> writer_epoch r"
  shows "storable (insert_one m r) q \<longleftrightarrow> storable m q"
  using assms by (simp add: storable_def insert_one_epoch insert_one_records)

lemma insert_one_storable_wf:
  assumes "memory_wf m" "storable m r" "committed_lsn r < lsn r"
  shows "memory_wf (insert_one m r)"
proof (cases "map_of (m_records m) (stream r, lsn r)")
  case None
  then show ?thesis using assms by (intro insert_one_wf) (auto simp: storable_def)
next
  case (Some q)
  then show ?thesis using assms insert_one_held [OF assms(1)] by (auto simp: storable_def)
qed

lemma consecutive_Cons:
  assumes "consecutive (r # rs)"
  shows "committed_lsn r < lsn r" "rs \<noteq> [] \<Longrightarrow> consecutive rs"
    "\<And>q. q \<in> set rs \<Longrightarrow> stream q = stream r \<and> writer_epoch q = writer_epoch r \<and> lsn r < lsn q"
proof -
  show "committed_lsn r < lsn r" using assms by (simp add: consecutive_def)
  have n: "stream (rs ! i) = stream r" "writer_epoch (rs ! i) = writer_epoch r"
    "lsn (rs ! i) = lsn r + Suc i" "committed_lsn (rs ! i) = lsn r + i"
    "lsn (rs ! i) \<le> u64_max" if "i < length rs" for i
    using conjunct2 [OF conjunct2 [OF assms [unfolded consecutive_def]], rule_format, of "Suc i"]
      conjunct2 [OF conjunct2 [OF assms [unfolded consecutive_def]], rule_format, of i] that by auto
  then show "\<And>q. q \<in> set rs \<Longrightarrow> stream q = stream r \<and> writer_epoch q = writer_epoch r \<and> lsn r < lsn q"
    by (auto simp: in_set_conv_nth)
  assume ne: "rs \<noteq> []"
  then have h: "hd rs = rs ! 0" "0 < length rs" by (simp_all add: hd_conv_nth)
  show "consecutive rs"
    unfolding consecutive_def h(1)
    using ne n(1,2,3,5) n(4) n(3,4) [OF h(2)] n(1,2) [OF h(2)] by (auto simp: gr0_conv_Suc)
qed

lemma append_each_batch:
  assumes "memory_wf m" "available m" "consecutive rs"
  shows "if \<forall>r \<in> set rs. storable m r then append_each append_record () m rs = (foldl insert_one m rs, Inr ())
    else isl (snd (append_each append_record () m rs))"
  using assms
proof (induction rs arbitrary: m)
  case (Cons r rs)
  note c = consecutive_Cons [OF Cons.prems(3)]
  note a = append_record_iff [OF Cons.prems(1,2) c(1)]
  show ?case
  proof (cases "storable m r")
    case True
    then have step: "append_each append_record () m (r # rs) = append_each append_record () (insert_one m r) rs"
      using a by simp
    have "(\<forall>q \<in> set rs. storable (insert_one m r) q) \<longleftrightarrow> (\<forall>q \<in> set rs. storable m q)"
      using storable_after c(3) True by (metis less_irrefl storable_def)
    moreover have "if \<forall>q \<in> set rs. storable (insert_one m r) q
        then append_each append_record () (insert_one m r) rs = (foldl insert_one (insert_one m r) rs, Inr ())
        else isl (snd (append_each append_record () (insert_one m r) rs))"
    proof (cases "rs = []")
      case False
      then show ?thesis
        using Cons.IH [OF insert_one_storable_wf [OF Cons.prems(1) True c(1)]] Cons.prems(2) c(2) by simp
    qed simp
    ultimately show ?thesis using True unfolding step by auto
  next
    case False
    with a obtain e where "append_record m r = (m, Inl e)"
      by (metis isl_def prod.collapse snd_conv)
    with False show ?thesis by simp
  qed
qed (simp add: consecutive_def)

section \<open>Properties\<close>

text \<open>C9: What a writer was acknowledged is what a recovery returns. When the appends of a contiguous
  tail all succeed against the in-memory gateway, which held nothing of the stream after \<open>a\<close>,
  a recovery after \<open>a\<close> returns exactly the appended records, in order. The hypothesis on the
  ciphers is their documented behaviour.\<close>

theorem acknowledged_is_recovered:
  assumes "crypto_ok C" "memory_wf m" "tail_of s a ps" "\<And>n. a < n \<Longrightarrow> map_of (m_records m) (s, n) = None"
    "writer_appends C key memory_gateway m ps = (m', Inr ())"
  shows "writer_recover C key memory_gateway m' s a = (m', Inr ps)"
  by (rule memory.acknowledged_recovered [OF assms(1-3,5,4)]) (simp_all add: memory_gateway_def)

text \<open>C15: A batch is all or nothing and means the same as its records one by one: a batch in order
  is accepted exactly when every single append in turn is, with the same final state, and a
  refused batch changes nothing.\<close>

theorem batch_is_appends:
  assumes "memory_wf m" "available m" "consecutive rs"
  shows "(append_records m rs = (m', Inr ()) \<longleftrightarrow> append_each append_record () m rs = (m', Inr ())) \<and>
    (isl (snd (append_records m rs)) \<longrightarrow> fst (append_records m rs) = m)"
proof -
  have v: "validate_append_batch rs = Inr ()" using assms(3) by (simp add: validate_append_batch_iff)
  have e: "if \<forall>r \<in> set rs. storable m r then append_each append_record () m rs = (foldl insert_one m rs, Inr ())
    else isl (snd (append_each append_record () m rs))" by (rule append_each_batch [OF assms])
  show ?thesis
  proof (cases "\<forall>r \<in> set rs. storable m r")
    case True
    then show ?thesis using e v assms(2) check_batch_iff [of m rs] by (auto simp: append_records_def)
  next
    case False
    then obtain x where "check_batch m rs = Inl x" using check_batch_iff [of m rs] by (cases "check_batch m rs") auto
    moreover have "isl (snd (append_each append_record () m rs))" using e unfolding if_not_P [OF False] .
    ultimately show ?thesis using v assms(2) by (auto simp: append_records_def)
  qed
qed

text \<open>A stored record is never replaced and old writers are fenced. An accepted append is held
  afterwards and every record held before still is; its writer epoch is at least that of every
  record of the stream, and the state stays well formed.\<close>

theorem append_keeps_records:
  assumes "memory_wf m" "append_record m r = (m', Inr ())"
  shows "memory_wf m' \<and> map_of (m_records m') (stream r, lsn r) = Some r \<and>
    map_of (m_records m) \<subseteq>\<^sub>m map_of (m_records m') \<and>
    (\<forall>n q. map_of (m_records m) (stream r, n) = Some q \<longrightarrow> writer_epoch q \<le> writer_epoch r)"
proof -
  have le: "writer_epoch q \<le> m_epoch m s" if "map_of (m_records m) (s, n) = Some q" for s n q
    using assms(1) that by (fastforce simp: memory_wf_def m_epoch_def)
  have w: "memory_wf m'" by (rule append_record_wf [OF assms])
  have "m_epoch m (stream r) \<le> writer_epoch r \<and> map_of (m_records m') (stream r, lsn r) = Some r \<and>
      map_of (m_records m) \<subseteq>\<^sub>m map_of (m_records m')"
    using assms(2) by (cases rule: append_record_cases) (auto simp: insert_one_records map_le_def)
  with w le le_trans show ?thesis by blast
qed

lemma memory_healthy_wf: "memory_wf memory_healthy"
  by (simp add: memory_wf_def memory_healthy_def)

theorem acknowledged_is_recovered_witness:
  "\<exists>m. writer_appends plain_crypto [] memory_gateway memory_healthy [plain_record 0, plain_record 1] = (m, Inr ()) \<and>
     writer_recover plain_crypto [] memory_gateway m ''t'' 0 = (m, Inr [plain_record 0, plain_record 1])"
proof -
  have t: "tail_of ''t'' 0 [plain_record 0, plain_record 1]"
    by (simp add: tail_of_Cons plain_record_def rust_int) (simp add: tail_of_def rust_int)
  have app: "writer_append plain_crypto [] memory_gateway m (plain_record n) =
      (case append_record m (plain_sealed n) of
         (m', res) \<Rightarrow> (m', bind_result res (\<lambda>_. Inr (replica_with_certificate ''t'' 1 (n + 1) None))))" for m n
    by (simp add: writer_append_def plain_encrypt)
      (auto simp: memory_gateway_def plain_record_def bind_result_Inl_iff bind_result_Inr_iff
        split: prod.splits sum.splits)
  obtain m where "writer_appends plain_crypto [] memory_gateway memory_healthy [plain_record 0, plain_record 1] = (m, Inr ())"
    by (auto simp: app append_record_def memory_healthy_def plain_sealed_def m_epoch_def)
  then show ?thesis
    using acknowledged_is_recovered [OF plain_crypto_ok memory_healthy_wf t]
    by (auto simp: memory_healthy_def)
qed

theorem batch_is_appends_witness:
  "\<exists>m. append_records memory_healthy [plain_sealed 0, plain_sealed 1] = (m, Inr ()) \<and>
     append_each append_record () memory_healthy [plain_sealed 0, plain_sealed 1] = (m, Inr ())"
proof -
  let ?rs = "[plain_sealed 0, plain_sealed 1]"
  have v: "validate_append_batch ?rs = Inr ()"
    by (simp add: validate_append_batch_def validate_pair_def plain_sealed_def checked_add_u64_def rust_int)
  then have c: "consecutive ?rs" by (simp add: validate_append_batch_iff)
  obtain m where "append_records memory_healthy ?rs = (m, Inr ())"
    using v by (auto simp: append_records_def memory_healthy_def m_epoch_def)
  then show ?thesis
    using batch_is_appends [OF memory_healthy_wf _ c] by (auto simp: memory_healthy_def)
qed

theorem append_keeps_records_witness:
  "\<exists>m. append_record memory_healthy (plain_sealed 0) = (m, Inr ()) \<and>
     map_of (m_records m) (''t'', 1) = Some (plain_sealed 0)"
proof -
  obtain m where "append_record memory_healthy (plain_sealed 0) = (m, Inr ())"
    by (simp add: append_record_def memory_healthy_def plain_sealed_def m_epoch_def)
  then show ?thesis
    using append_keeps_records [OF memory_healthy_wf] by (fastforce simp: plain_sealed_def)
qed

end
