(* ===== verification/Http_Replica.thy ===== *)
theory Http_Replica
  imports Quorum_Client
begin

text \<open>
  The HTTP client of the quorum gateway (\<open>crates/walleye-bitr/src/lib.rs\<close>, \<open>HttpReplica\<close>): the
  activation that precedes every call, the requests, and the mapping of a response to a result.
  The network is the function \<open>send\<close> from a request to a response, \<open>None\<close> where the transport
  fails; every operation returns the requests it made. Header and JSON decoding are other
  crates: they are the fields of \<open>decoders\<close>. Times are milliseconds.
\<close>

section \<open>Definitions\<close>

definition COMMIT_CERTIFICATE_HEADER :: string where
  "COMMIT_CERTIFICATE_HEADER = ''x-lakeday-replica-commit-certificate''"

definition ENCRYPTED_RECORD_CONTENT_TYPE :: string where
  "ENCRYPTED_RECORD_CONTENT_TYPE = ''application/octet-stream''"

definition CAPACITY_EXCEEDED_CODE :: string where
  "CAPACITY_EXCEEDED_CODE = ''replica_capacity_exceeded''"

definition ACTIVATION_RENEW_AFTER :: nat where "ACTIVATION_RENEW_AFTER = 1000"

record replica_activation =
  act_endpoint :: string
  act_bearer :: string
  last_success :: "nat option"

record http_replica =
  base_url :: string
  bearer :: string
  activation :: "replica_activation option"

record capacity_exceeded_body =
  cap_code :: string
  requested_bytes :: nat
  max_append_bytes :: nat
  cohort_id :: nat

record append_error_body =
  err_code :: string
  err_error :: string

text \<open>A response: its status, the raw certificate header, and its body as the chunks that arrive,
  the last of them \<open>None\<close> when reading fails.\<close>

record http_response =
  status :: nat
  certificate_header :: "byte list option"
  chunks :: "byte list option list"

record decoders =
  to_str :: "byte list \<Rightarrow> string option"
  append_error_json :: "byte list \<Rightarrow> append_error_body option"
  capacity_json :: "byte list \<Rightarrow> capacity_exceeded_body option"
  records_json :: "byte list option list \<Rightarrow> (encrypted_record list, string) result"

datatype http_request =
    Activate string string
  | PostAppend string string string "byte list"
  | PostAppendMany string string string "byte list"
  | GetRecords string string "(string \<times> string) list" "(string \<times> string) option"

fun trim_end_matches :: "char \<Rightarrow> string \<Rightarrow> string" where
  "trim_end_matches c s = rev (dropWhile (\<lambda>x. x = c) (rev s))"

definition http_new :: "string \<Rightarrow> string \<Rightarrow> http_replica" where
  "http_new url b = \<lparr>base_url = trim_end_matches CHR ''/'' url, bearer = b, activation = None\<rparr>"

definition with_activation :: "http_replica \<Rightarrow> string \<Rightarrow> string \<Rightarrow> http_replica" where
  "with_activation h endpoint b =
     h\<lparr>activation := Some \<lparr>act_endpoint = trim_end_matches CHR ''/'' endpoint, act_bearer = b,
                           last_success = None\<rparr>\<rparr>"

definition is_success :: "nat \<Rightarrow> bool" where "is_success s = (200 \<le> s \<and> s < 300)"

definition is_server_error :: "nat \<Rightarrow> bool" where "is_server_error s = (500 \<le> s \<and> s < 600)"

type_synonym send = "http_request \<Rightarrow> http_response option"

definition activate ::
  "send \<Rightarrow> nat \<Rightarrow> nat \<Rightarrow> http_replica \<Rightarrow> http_replica \<times> http_request list \<times> (unit, replica_error) result" where
  "activate send now later h =
     (case activation h of
        None \<Rightarrow> (h, [], Inr ())
      | Some a \<Rightarrow>
          if (case last_success a of Some t \<Rightarrow> now - t < ACTIVATION_RENEW_AFTER | None \<Rightarrow> False)
          then (h, [], Inr ())
          else let q = Activate (act_endpoint a @ ''/internal/v1/bitr/activate'') (act_bearer a)
               in case send q of
                    None \<Rightarrow> (h, [q], Inl GatewayUnavailable)
                  | Some r \<Rightarrow>
                      if is_success (status r)
                      then (h\<lparr>activation := Some (a\<lparr>last_success := Some later\<rparr>)\<rparr>, [q], Inr ())
                      else if status r = 401 \<or> status r = 403 then (h, [q], Inl GatewayUnauthorized)
                      else (h, [q], Inl GatewayUnavailable))"

definition status_error :: "nat \<Rightarrow> replica_error" where
  "status_error s =
     (if s = 401 \<or> s = 403 then GatewayUnauthorized
      else if s = 409 then WriterFenced
      else if s = 503 \<or> s = 504 then GatewayUnavailable
      else GatewayRejected s)"

text \<open>The loop over the chunks of an error body, which gives up above 4096 bytes.\<close>

fun read_error_body :: "byte list \<Rightarrow> byte list option list \<Rightarrow> byte list option" where
  "read_error_body bytes [] = Some bytes"
| "read_error_body bytes (Some chunk # rest) =
     (if length bytes + length chunk \<le> 4096 then read_error_body (bytes @ chunk) rest else None)"
| "read_error_body bytes (None # rest) = None"

text \<open>\<open>chars().take(n)\<close> on the UTF-8 bytes of a string: a character starts at every byte that is not
  a continuation byte.\<close>

fun take_chars :: "nat \<Rightarrow> string \<Rightarrow> string" where
  "take_chars n [] = []"
| "take_chars n (c # s) =
     (if utf8_cont (word_of_nat (of_char c)) then c # take_chars n s
      else if n = 0 then [] else c # take_chars (n - 1) s)"

definition gateway_error :: "decoders \<Rightarrow> http_response \<Rightarrow> replica_error" where
  "gateway_error D r =
     (if status r = 400 \<or> status r = 409 then
        case read_error_body [] (chunks r) of
          None \<Rightarrow> status_error (status r)
        | Some bytes \<Rightarrow>
            (case append_error_json D bytes of
               None \<Rightarrow> status_error (status r)
             | Some body \<Rightarrow>
                 if err_code body = ''invalid_watermark'' \<or> err_code body = ''recovery_failed''
                 then Protocol (take_chars 1024 (err_error body))
                 else if err_code body = ''lsn_conflict'' \<and> status r = 409 then LsnConflict
                 else status_error (status r))
      else status_error (status r))"

text \<open>The whole body, \<open>None\<close> when reading it fails.\<close>

fun read_body :: "byte list option list \<Rightarrow> byte list option" where
  "read_body [] = Some []"
| "read_body (Some chunk # rest) = map_option (\<lambda>bytes. chunk @ bytes) (read_body rest)"
| "read_body (None # rest) = None"

definition append_response :: "decoders \<Rightarrow> http_response \<Rightarrow> (string option, replica_error) result" where
  "append_response D r =
     (if status r = 204 then
        bind_result
          (case certificate_header r of
             None \<Rightarrow> Inr None
           | Some raw \<Rightarrow>
               (case to_str D raw of
                  None \<Rightarrow> Inl (Protocol ''commit certificate header is not valid UTF-8'')
                | Some text \<Rightarrow> Inr (Some text)))
          (\<lambda>certificate.
             if certificate = Some [] then Inl (Protocol ''commit certificate header is empty'')
             else Inr certificate)
      else if is_server_error (status r) then Inl (status_error (status r))
      else if status r = 413 then
        (case read_body (chunks r) of
           None \<Rightarrow> Inl (status_error (status r))
         | Some bytes \<Rightarrow>
             (case capacity_json D bytes of
                None \<Rightarrow> Inl (status_error (status r))
              | Some body \<Rightarrow>
                  if cap_code body = CAPACITY_EXCEEDED_CODE
                  then Inl (CapacityExceeded (cohort_id body) (requested_bytes body) (max_append_bytes body))
                  else Inl (status_error (status r))))
      else Inl (gateway_error D r))"

definition http_append ::
  "decoders \<Rightarrow> send \<Rightarrow> nat \<Rightarrow> nat \<Rightarrow> http_replica \<Rightarrow> encrypted_record \<Rightarrow>
   http_replica \<times> http_request list \<times> (string option, replica_error) result" where
  "http_append D send now later h r =
     (case activate send now later h of
        (h', qs, Inl e) \<Rightarrow> (h', qs, Inl e)
      | (h', qs, Inr _) \<Rightarrow>
          (case encode_binary r of
             Inl e \<Rightarrow> (h', qs, Inl e)
           | Inr body \<Rightarrow>
               let q = PostAppend (base_url h @ ''/v1/append'') (bearer h) ENCRYPTED_RECORD_CONTENT_TYPE body
               in (h', qs @ [q], case send q of
                     None \<Rightarrow> Inl GatewayUnavailable | Some response \<Rightarrow> append_response D response)))"

definition http_append_many ::
  "decoders \<Rightarrow> send \<Rightarrow> nat \<Rightarrow> nat \<Rightarrow> http_replica \<Rightarrow> encrypted_record list \<Rightarrow>
   http_replica \<times> http_request list \<times> (string option, replica_error) result" where
  "http_append_many D send now later h rs =
     (case activate send now later h of
        (h', qs, Inl e) \<Rightarrow> (h', qs, Inl e)
      | (h', qs, Inr _) \<Rightarrow>
          (case bind_result (validate_append_batch rs) (\<lambda>_. encode_binary_batch rs) of
             Inl e \<Rightarrow> (h', qs, Inl e)
           | Inr body \<Rightarrow>
               let q = PostAppendMany (base_url h @ ''/v1/append-many'') (bearer h)
                         ENCRYPTED_RECORD_CONTENT_TYPE body
               in (h', qs @ [q], case send q of
                     None \<Rightarrow> Inl GatewayUnavailable | Some response \<Rightarrow> append_response D response)))"

definition fetch_records ::
  "decoders \<Rightarrow> send \<Rightarrow> nat \<Rightarrow> nat \<Rightarrow> http_replica \<Rightarrow> string \<Rightarrow> nat \<Rightarrow> nat option \<Rightarrow> string option \<Rightarrow>
   http_replica \<times> http_request list \<times> (encrypted_record list, replica_error) result" where
  "fetch_records D send now later h s after c certificate =
     (case activate send now later h of
        (h', qs, Inl e) \<Rightarrow> (h', qs, Inl e)
      | (h', qs, Inr _) \<Rightarrow>
          if certificate = Some [] then (h', qs, Inl CommitCertificateMissing)
          else
          let query = [(''stream'', s), (''after_lsn'', show_nat after)] @
                (case c of Some w \<Rightarrow> [(''committed_lsn'', show_nat w)] | None \<Rightarrow> []);
              q = GetRecords (base_url h @ ''/v1/records'') (bearer h) query
                    (map_option (\<lambda>x. (COMMIT_CERTIFICATE_HEADER, x)) certificate)
          in (h', qs @ [q], case send q of
                None \<Rightarrow> Inl GatewayUnavailable
              | Some response \<Rightarrow>
                  if \<not> is_success (status response) then Inl (gateway_error D response)
                  else case records_json D (chunks response) of
                      Inl message \<Rightarrow> Inl (Protocol (''invalid recovery response: '' @ message))
                    | Inr rs \<Rightarrow> Inr rs))"

definition http_recover ::
  "decoders \<Rightarrow> send \<Rightarrow> nat \<Rightarrow> nat \<Rightarrow> http_replica \<Rightarrow> string \<Rightarrow> nat \<Rightarrow>
   http_replica \<times> http_request list \<times> (encrypted_record list, replica_error) result" where
  "http_recover D send now later h s after = fetch_records D send now later h s after None None"

definition http_recover_with_watermark ::
  "decoders \<Rightarrow> send \<Rightarrow> nat \<Rightarrow> nat \<Rightarrow> http_replica \<Rightarrow> string \<Rightarrow> nat \<Rightarrow> nat \<Rightarrow> string \<Rightarrow>
   http_replica \<times> http_request list \<times> (encrypted_record list, replica_error) result" where
  "http_recover_with_watermark D send now later h s after c certificate =
     fetch_records D send now later h s after (Some c) (Some certificate)"

section \<open>Specification\<close>

text \<open>The client may talk to the gateway: it needs no activation, an activation is less than a
  second old, or one has just succeeded.\<close>

definition admitted :: "send \<Rightarrow> nat \<Rightarrow> http_replica \<Rightarrow> http_request list \<Rightarrow> bool" where
  "admitted send now h qs \<longleftrightarrow>
     (case activation h of
        None \<Rightarrow> True
      | Some a \<Rightarrow> (\<exists>t. last_success a = Some t \<and> now - t < ACTIVATION_RENEW_AFTER) \<or>
          (\<exists>r. qs \<noteq> [] \<and> hd qs = Activate (act_endpoint a @ ''/internal/v1/bitr/activate'') (act_bearer a) \<and>
             send (hd qs) = Some r \<and> is_success (status r)))"

definition quiet_gateway :: send where
  "quiet_gateway q = Some \<lparr>status = 204, certificate_header = None, chunks = []\<rparr>"

definition no_decoders :: decoders where
  "no_decoders = \<lparr>to_str = (\<lambda>_. None), append_error_json = (\<lambda>_. None), capacity_json = (\<lambda>_. None),
     records_json = (\<lambda>_. Inl ''none'')\<rparr>"

lemma activate_admitted:
  assumes "activate send now later h = (h', qs, Inr u)"
  shows "admitted send now h (qs @ rest)" "base_url h' = base_url h" "bearer h' = bearer h"
  using assms
  by (auto simp: activate_def admitted_def Let_def split: option.splits if_splits)

lemma activate_requests:
  assumes "activate send now later h = (h', qs, res)" "q \<in> set qs"
  shows "\<exists>url b. q = Activate url b"
  using assms by (auto simp: activate_def Let_def split: option.splits if_splits)

lemma append_response_ok:
  assumes "append_response D r = Inr certificate"
  shows "status r = 204 \<and> certificate \<noteq> Some []"
proof -
  have "status r = 204"
    using assms by (auto simp: append_response_def split: if_splits option.splits)
  then show ?thesis
    using assms by (auto simp: append_response_def bind_result_Inr_iff split: if_splits option.splits)
qed

lemma http_append_ok:
  assumes "http_append D send now later h r = (h', qs, Inr certificate)"
  shows "\<exists>body response. encode_binary r = Inr body \<and>
    last qs = PostAppend (base_url h @ ''/v1/append'') (bearer h) ENCRYPTED_RECORD_CONTENT_TYPE body \<and>
    send (last qs) = Some response \<and> status response = 204 \<and> certificate \<noteq> Some [] \<and> admitted send now h qs"
proof -
  obtain h1 qs1 u where a: "activate send now later h = (h1, qs1, Inr u)"
    using assms by (auto simp: http_append_def split: prod.splits sum.splits)
  from assms a activate_admitted [OF a] show ?thesis
    by (auto simp: http_append_def Let_def dest!: append_response_ok split: sum.splits option.splits)
qed

lemma http_append_many_ok:
  assumes "http_append_many D send now later h rs = (h', qs, Inr certificate)"
  shows "\<exists>body response. consecutive rs \<and> encode_binary_batch rs = Inr body \<and>
    last qs = PostAppendMany (base_url h @ ''/v1/append-many'') (bearer h) ENCRYPTED_RECORD_CONTENT_TYPE body \<and>
    send (last qs) = Some response \<and> status response = 204 \<and> certificate \<noteq> Some [] \<and> admitted send now h qs"
proof -
  obtain h1 qs1 u where a: "activate send now later h = (h1, qs1, Inr u)"
    using assms by (auto simp: http_append_many_def split: prod.splits sum.splits)
  from assms a activate_admitted [OF a] show ?thesis
    by (auto simp: http_append_many_def Let_def bind_result_Inr_iff bind_result_Inl_iff
        validate_append_batch_iff [symmetric] dest!: append_response_ok split: sum.splits option.splits)
qed

section \<open>Properties\<close>

text \<open>C31: The client reports an append as durable only on the gateway's own answer. When a batch
  append returns a certificate or none, the batch passed the order check, its canonical bytes
  were the last request, the answer to it was 204 with a certificate that is not empty, and
  before that the activation was fresh or has just succeeded.\<close>

theorem http_append_many_acknowledged:
  assumes "http_append_many D send now later h rs = (h', qs, Inr certificate)"
  shows "\<exists>body response. consecutive rs \<and> encode_binary_batch rs = Inr body \<and>
    last qs = PostAppendMany (base_url h @ ''/v1/append-many'') (bearer h) ENCRYPTED_RECORD_CONTENT_TYPE body \<and>
    send (last qs) = Some response \<and> status response = 204 \<and> certificate \<noteq> Some [] \<and> admitted send now h qs"
  by (rule http_append_many_ok [OF assms])

theorem http_append_many_acknowledged_witness:
  "\<exists>h' qs. http_append_many no_decoders quiet_gateway 5 6 (with_activation (http_new ''u'' ''b'') ''e'' ''k'')
       [sample_record] = (h', qs, Inr None) \<and> consecutive [sample_record]"
proof -
  let ?h = "with_activation (http_new ''u'' ''b'') ''e'' ''k''"
  obtain bs where bs: "encode_binary_batch [sample_record] = Inr bs"
    using sample_record_ok encode_binary_batch_iff [of "[sample_record]"] by simp
  have v: "validate_append_batch [sample_record] = Inr ()"
    by (simp add: validate_append_batch_def sample_record_def)
  obtain h' qs where "http_append_many no_decoders quiet_gateway 5 6 ?h [sample_record] = (h', qs, Inr None)"
    using bs v by (auto simp: http_append_many_def activate_def with_activation_def http_new_def
        quiet_gateway_def is_success_def append_response_def Let_def)
  then show ?thesis using http_append_many_acknowledged by blast
qed



end
