(* ===== verification/Node_Log.thy ===== *)
theory Node_Log
  imports Records "HOL-Library.Countable"
begin

text \<open>
  The log file of a storage node and the indexes it stands for
  (\<open>crates/walleye-bitr-server/src/lib.rs\<close>, the replay loop of \<open>DiskReplica::open_internal\<close> with
  \<open>index_record\<close> and \<open>withdraw_suffix\<close>). The file is a list of bytes, one JSON document per line.
  serde_json is a parameter, \<open>json\<close>: how an entry is written and what each of the \<open>from_slice\<close>
  calls of the loop makes of a line; \<open>json_ok\<close> is what is relied on of it. \<open>apply_entry\<close> is
  the meaning of one entry, and the theory shows that the replay of a file of whole lines applies its
  entries in order, that a torn last line is cut off, and that every entry keeps \<open>index_wf\<close>.
\<close>

section \<open>Definitions\<close>

record trimmed_prefix =
  tp_stream :: string
  archived_lsn :: nat
  tp_writer_epoch :: nat

record node_index =
  highest_epoch :: "(string, nat) bt"
  records :: "(string \<times> nat, encrypted_record) bt"
  committed :: "(string \<times> nat, encrypted_record) bt"
  trimmed :: "(string, trimmed_prefix) bt"

text \<open>A line of the log: a bare record, or a tagged entry (\<open>NodeCommitEntry\<close>, \<open>NodeSupersedeEntry\<close>,
  \<open>NodeTrimEntry\<close>).\<close>

datatype log_entry =
    RecordEntry encrypted_record
  | CommitEntry encrypted_record
  | SupersedeEntry string nat nat
  | TrimEntry string nat nat

datatype json_syntax = SynOk | SynEof string | SynBad string

record json =
  js_to_vec :: "log_entry \<Rightarrow> byte list"
  js_syntax :: "byte list \<Rightarrow> json_syntax"
  js_kind :: "byte list \<Rightarrow> string"
  js_record :: "byte list \<Rightarrow> (encrypted_record, string) result"
  js_commit :: "byte list \<Rightarrow> (encrypted_record, string) result"
  js_supersede :: "byte list \<Rightarrow> (string \<times> nat \<times> nat, string) result"
  js_trim :: "byte list \<Rightarrow> (string \<times> nat \<times> nat, string) result"

definition newline :: byte where "newline = 10"
definition carriage_return :: byte where "carriage_return = 13"

definition record_key :: "encrypted_record \<Rightarrow> string \<times> nat" where
  "record_key r = (stream r, lsn r)"

definition empty_index :: node_index where
  "empty_index = \<lparr>highest_epoch = [], records = [], committed = [], trimmed = []\<rparr>"

definition below_trim :: "node_index \<Rightarrow> string \<Rightarrow> nat \<Rightarrow> bool" where
  "below_trim idx s n = (case bt_get (trimmed idx) s of Some p \<Rightarrow> n \<le> archived_lsn p | None \<Rightarrow> False)"

definition epoch_or_zero :: "node_index \<Rightarrow> string \<Rightarrow> nat" where
  "epoch_or_zero idx s = (case bt_get (highest_epoch idx) s of Some e \<Rightarrow> e | None \<Rightarrow> 0)"

definition index_record :: "node_index \<Rightarrow> encrypted_record \<Rightarrow> (node_index, replica_error) result" where
  "index_record idx r =
     (let idx' = idx\<lparr>highest_epoch := bt_insert (stream r)
            (case bt_get (highest_epoch idx) (stream r) of Some e \<Rightarrow> max e (writer_epoch r) | None \<Rightarrow> writer_epoch r)
            (highest_epoch idx),
          records := bt_insert (record_key r) r (records idx)\<rparr>
      in case bt_get (records idx) (record_key r) of
           Some existing \<Rightarrow>
             if existing \<noteq> r then Inl (NodeStorage ''replica log contains conflicting records for one LSN'')
             else Inr idx'
         | None \<Rightarrow> Inr idx')"

text \<open>The epochs a stream's fence is recomputed from.\<close>

definition stream_epochs :: "node_index \<Rightarrow> string \<Rightarrow> nat list" where
  "stream_epochs idx s =
     map (\<lambda>e. writer_epoch (snd e)) (filter (\<lambda>e. fst (fst e) = s) (records idx)) @
     (case bt_get (trimmed idx) s of Some p \<Rightarrow> [tp_writer_epoch p] | None \<Rightarrow> [])"

definition withdraw_suffix :: "string \<Rightarrow> nat \<Rightarrow> node_index \<Rightarrow> node_index" where
  "withdraw_suffix s from_lsn idx =
     (let keep = (\<lambda>k. fst k \<noteq> s \<or> snd k < from_lsn);
          idx' = idx\<lparr>records := bt_retain keep (records idx), committed := bt_retain keep (committed idx)\<rparr>;
          epochs = stream_epochs idx' s
      in idx'\<lparr>highest_epoch :=
           (if epochs = [] then bt_remove s (highest_epoch idx)
            else bt_insert s (fold max epochs 0) (highest_epoch idx))\<rparr>)"

text \<open>What the loop does with a decoded line.\<close>

fun apply_entry :: "log_entry \<Rightarrow> node_index \<Rightarrow> (node_index, replica_error) result" where
  "apply_entry (RecordEntry r) idx =
     (if below_trim idx (stream r) (lsn r)
      then Inl (NodeStorage ''node log contains a record below its compacted prefix'')
      else index_record idx r)"
| "apply_entry (CommitEntry r) idx =
     Inr (if bt_get (records idx) (record_key r) = Some r
          then idx\<lparr>committed := bt_insert (record_key r) r (committed idx)\<rparr>
          else idx)"
| "apply_entry (SupersedeEntry s from_lsn _) idx = Inr (withdraw_suffix s from_lsn idx)"
| "apply_entry (TrimEntry s n e) idx =
     (if s = [] \<or> n = 0 \<or> bt_has (trimmed idx) s
      then Inl (NodeStorage ''invalid or duplicate node trim entry'')
      else Inr (idx\<lparr>highest_epoch := bt_insert s e (highest_epoch idx),
                     trimmed := bt_insert s \<lparr>tp_stream = s, archived_lsn = n, tp_writer_epoch = e\<rparr> (trimmed idx)\<rparr>))"

definition decode_line :: "json \<Rightarrow> byte list \<Rightarrow> (log_entry, replica_error) result" where
  "decode_line J line =
     (case js_record J line of
        Inr r \<Rightarrow> Inr (RecordEntry r)
      | Inl _ \<Rightarrow>
          let kind = js_kind J line
          in if kind = ''commit'' then
               (case js_commit J line of
                  Inl e \<Rightarrow> Inl (NodeStorage (''invalid node log entry: '' @ e))
                | Inr r \<Rightarrow> Inr (CommitEntry r))
             else if kind = ''supersede'' then
               (case js_supersede J line of
                  Inl e \<Rightarrow> Inl (NodeStorage (''invalid node supersede entry: '' @ e))
                | Inr (s, n, e) \<Rightarrow> Inr (SupersedeEntry s n e))
             else if kind = ''trim'' then
               (case js_trim J line of
                  Inl e \<Rightarrow> Inl (NodeStorage (''invalid node trim entry: '' @ e))
                | Inr (s, n, e) \<Rightarrow> Inr (TrimEntry s n e))
             else Inl (NodeStorage ''unknown node log entry kind''))"

text \<open>\<open>bytes.split(|byte| *byte == b'\n')\<close>: there is always at least one piece.\<close>

fun split_lines :: "byte list \<Rightarrow> byte list list" where
  "split_lines [] = [[]]"
| "split_lines (b # bs) =
     (if b = newline then [] # split_lines bs
      else case split_lines bs of [] \<Rightarrow> [[b]] | l # ls \<Rightarrow> (b # l) # ls)"

definition strip_cr :: "byte list \<Rightarrow> byte list" where
  "strip_cr l = (if l \<noteq> [] \<and> last l = carriage_return then butlast l else l)"

text \<open>The loop, from the line that starts at \<open>pos\<close>; the result has the length the file is cut to, if
  it is.\<close>

fun replay ::
  "json \<Rightarrow> bool \<Rightarrow> nat \<Rightarrow> byte list list \<Rightarrow> node_index \<Rightarrow> (node_index \<times> nat option, replica_error) result" where
  "replay J trailing pos [] idx = Inr (idx, None)"
| "replay J trailing pos (raw # rest) idx =
     (let final_partial = (rest = [] \<and> \<not> trailing);
          line = strip_cr raw;
          after = saturating_add_u64 pos (length raw + 1)
      in if line = [] then replay J trailing after rest idx
         else case js_syntax J line of
             SynEof e \<Rightarrow>
               if final_partial then Inr (idx, Some pos)
               else Inl (NodeStorage (''invalid node log entry: '' @ e))
           | SynBad e \<Rightarrow> Inl (NodeStorage (''invalid node log entry: '' @ e))
           | SynOk \<Rightarrow>
               bind_result (decode_line J line) (\<lambda>entry.
                 bind_result (apply_entry entry idx) (\<lambda>idx'.
                   replay J trailing after rest idx')))"

text \<open>The file as it is after opening, and the indexes.\<close>

definition open_log :: "json \<Rightarrow> byte list \<Rightarrow> (byte list \<times> node_index, replica_error) result" where
  "open_log J bytes =
     bind_result (replay J (bytes \<noteq> [] \<and> last bytes = newline) 0 (split_lines bytes) empty_index)
       (\<lambda>(idx, cut). Inr (case cut of Some n \<Rightarrow> take n bytes | None \<Rightarrow> bytes, idx))"

section \<open>Specification\<close>

fun apply_entries :: "log_entry list \<Rightarrow> node_index \<Rightarrow> (node_index, replica_error) result" where
  "apply_entries [] idx = Inr idx"
| "apply_entries (e # es) idx = bind_result (apply_entry e idx) (apply_entries es)"

definition json_line :: "json \<Rightarrow> log_entry \<Rightarrow> byte list" where
  "json_line J e = js_to_vec J e @ [newline]"

definition json_lines :: "json \<Rightarrow> log_entry list \<Rightarrow> byte list" where
  "json_lines J es = concat (map (json_line J) es)"

text \<open>What is relied on of serde_json: an entry is written as one non-empty line, is read back as
  itself and as no other kind of entry, and what is left of it when the end is missing is an
  unexpected end of input.\<close>

definition json_ok :: "json \<Rightarrow> bool" where
  "json_ok J \<longleftrightarrow>
     (\<forall>e. js_to_vec J e \<noteq> [] \<and> newline \<notin> set (js_to_vec J e) \<and> carriage_return \<notin> set (js_to_vec J e) \<and>
          js_syntax J (js_to_vec J e) = SynOk \<and>
          (\<forall>n. 0 < n \<and> n < length (js_to_vec J e) \<longrightarrow> (\<exists>m. js_syntax J (take n (js_to_vec J e)) = SynEof m)) \<and>
          (case e of
             RecordEntry r \<Rightarrow> js_record J (js_to_vec J e) = Inr r
           | CommitEntry r \<Rightarrow> (\<exists>m. js_record J (js_to_vec J e) = Inl m) \<and> js_kind J (js_to_vec J e) = ''commit'' \<and>
               js_commit J (js_to_vec J e) = Inr r
           | SupersedeEntry s n w \<Rightarrow> (\<exists>m. js_record J (js_to_vec J e) = Inl m) \<and>
               js_kind J (js_to_vec J e) = ''supersede'' \<and> js_supersede J (js_to_vec J e) = Inr (s, n, w)
           | TrimEntry s n w \<Rightarrow> (\<exists>m. js_record J (js_to_vec J e) = Inl m) \<and>
               js_kind J (js_to_vec J e) = ''trim'' \<and> js_trim J (js_to_vec J e) = Inr (s, n, w)))"

text \<open>The epochs a stream's records and archived prefix have.\<close>

definition epochs :: "node_index \<Rightarrow> string \<Rightarrow> nat set" where
  "epochs idx s = {writer_epoch r |r n. map_of (records idx) (s, n) = Some r} \<union>
     {tp_writer_epoch p |p. map_of (trimmed idx) s = Some p}"

text \<open>Records are filed under their keys and above the archived prefix, only stored records are
  committed, and the fence of a stream is the highest of its epochs.\<close>

definition index_wf :: "node_index \<Rightarrow> bool" where
  "index_wf idx \<longleftrightarrow>
     bt_wf (highest_epoch idx) \<and> bt_wf (records idx) \<and> bt_wf (committed idx) \<and> bt_wf (trimmed idx) \<and>
     (\<forall>s n r. map_of (records idx) (s, n) = Some r \<longrightarrow> stream r = s \<and> lsn r = n \<and> \<not> below_trim idx s n) \<and>
     (\<forall>k r. map_of (committed idx) k = Some r \<longrightarrow> map_of (records idx) k = Some r) \<and>
     (\<forall>s p. map_of (trimmed idx) s = Some p \<longrightarrow> tp_stream p = s \<and> s \<noteq> [] \<and> 0 < archived_lsn p) \<and>
     (\<forall>s. map_of (highest_epoch idx) s = (if epochs idx s = {} then None else Some (Max (epochs idx s))))"

definition top_epoch :: "nat set \<Rightarrow> nat option" where
  "top_epoch E = (if E = {} then None else Some (Max E))"

text \<open>A record that is new, or already there, is filed.\<close>

definition filed :: "node_index \<Rightarrow> encrypted_record \<Rightarrow> node_index" where
  "filed idx r = idx\<lparr>highest_epoch := bt_insert (stream r) (max (epoch_or_zero idx (stream r)) (writer_epoch r)) (highest_epoch idx),
     records := bt_insert (record_key r) r (records idx)\<rparr>"

definition commit_mark :: "node_index \<Rightarrow> encrypted_record \<Rightarrow> node_index" where
  "commit_mark idx r = idx\<lparr>committed := bt_insert (record_key r) r (committed idx)\<rparr>"

definition trim_entry :: "trimmed_prefix \<Rightarrow> log_entry" where
  "trim_entry p = TrimEntry (tp_stream p) (archived_lsn p) (tp_writer_epoch p)"

definition record_entries :: "(string \<times> nat, encrypted_record) bt \<Rightarrow> (string \<times> nat) \<times> encrypted_record \<Rightarrow> log_entry list" where
  "record_entries c e = RecordEntry (snd e) # (if bt_get c (fst e) = Some (snd e) then [CommitEntry (snd e)] else [])"

text \<open>The lines a compaction writes for the indexes it retains.\<close>

definition dump_entries :: "node_index \<Rightarrow> log_entry list" where
  "dump_entries idx = map (\<lambda>e. trim_entry (snd e)) (trimmed idx) @
     concat (map (record_entries (committed idx)) (records idx))"

text \<open>A codec that satisfies \<open>json_ok\<close>: an entry is its number, in unary, with an end mark.\<close>

definition demo_record_code :: "encrypted_record \<Rightarrow> nat" where
  "demo_record_code r = list_encode [list_encode (map of_char (stream r)), writer_epoch r, lsn r, committed_lsn r,
     list_encode (map unat (nonce r)), list_encode (map unat (ciphertext r)), list_encode (map unat (authentication r))]"

definition demo_record_of :: "nat \<Rightarrow> encrypted_record" where
  "demo_record_of c = (let l = list_decode c in
     \<lparr>stream = map char_of (list_decode (l ! 0)), writer_epoch = l ! 1, lsn = l ! 2, committed_lsn = l ! 3,
      nonce = map of_nat (list_decode (l ! 4)), ciphertext = map of_nat (list_decode (l ! 5)),
      authentication = map of_nat (list_decode (l ! 6))\<rparr>)"

definition demo_triple_code :: "string \<Rightarrow> nat \<Rightarrow> nat \<Rightarrow> nat" where
  "demo_triple_code s n w = list_encode [list_encode (map of_char s), n, w]"

definition demo_triple_of :: "nat \<Rightarrow> string \<times> nat \<times> nat" where
  "demo_triple_of c = (let l = list_decode c in (map char_of (list_decode (l ! 0)), l ! 1, l ! 2))"

fun demo_raw :: "log_entry \<Rightarrow> nat" where
  "demo_raw (RecordEntry r) = prod_encode (0, demo_record_code r)"
| "demo_raw (CommitEntry r) = prod_encode (1, demo_record_code r)"
| "demo_raw (SupersedeEntry s n w) = prod_encode (2, demo_triple_code s n w)"
| "demo_raw (TrimEntry s n w) = prod_encode (3, demo_triple_code s n w)"

definition demo_raw_of :: "nat \<Rightarrow> log_entry" where
  "demo_raw_of c = (let (tag, body) = prod_decode c; (s, n, w) = demo_triple_of body in
     if tag = 0 then RecordEntry (demo_record_of body)
     else if tag = 1 then CommitEntry (demo_record_of body)
     else if tag = 2 then SupersedeEntry s n w else TrimEntry s n w)"

definition demo_record :: "nat \<Rightarrow> encrypted_record" where
  "demo_record n = \<lparr>stream = ''t/s'', writer_epoch = 1, lsn = n, committed_lsn = n - 1,
     nonce = [], ciphertext = [], authentication = []\<rparr>"

text \<open>Entries with small numbers.\<close>

definition demo_entries :: "log_entry list" where
  "demo_entries = [RecordEntry (demo_record 1), RecordEntry (demo_record 2), CommitEntry (demo_record 1),
     CommitEntry (demo_record 2), SupersedeEntry ''t/s'' 2 9, TrimEntry ''t/s'' 1 1]"

definition demo_code :: "log_entry \<Rightarrow> nat" where
  "demo_code e = (let p = length (takeWhile (\<lambda>x. x \<noteq> e) demo_entries) in
     if p < length demo_entries then p else length demo_entries + demo_raw e)"

definition demo_entry_of :: "nat \<Rightarrow> log_entry" where
  "demo_entry_of c = (if c < length demo_entries then demo_entries ! c else demo_raw_of (c - length demo_entries))"

definition demo_line_entry :: "byte list \<Rightarrow> log_entry" where
  "demo_line_entry l = demo_entry_of (length l - 1)"

definition demo_json :: json where
  "demo_json =
     \<lparr>js_to_vec = (\<lambda>e. replicate (demo_code e) 1 @ [2]),
      js_syntax = (\<lambda>l. if l = [] \<or> last l \<noteq> 2 then SynEof ''EOF''
        else if 2 \<in> set (butlast l) then SynBad ''trailing characters'' else SynOk),
      js_kind = (\<lambda>l. case demo_line_entry l of
          RecordEntry _ \<Rightarrow> '''' | CommitEntry _ \<Rightarrow> ''commit'' | SupersedeEntry _ _ _ \<Rightarrow> ''supersede''
        | TrimEntry _ _ _ \<Rightarrow> ''trim''),
      js_record = (\<lambda>l. case demo_line_entry l of RecordEntry r \<Rightarrow> Inr r | _ \<Rightarrow> Inl ''missing field''),
      js_commit = (\<lambda>l. case demo_line_entry l of CommitEntry r \<Rightarrow> Inr r | _ \<Rightarrow> Inl ''missing field''),
      js_supersede = (\<lambda>l. case demo_line_entry l of SupersedeEntry s n w \<Rightarrow> Inr (s, n, w) | _ \<Rightarrow> Inl ''missing field''),
      js_trim = (\<lambda>l. case demo_line_entry l of TrimEntry s n w \<Rightarrow> Inr (s, n, w) | _ \<Rightarrow> Inl ''missing field'')\<rparr>"

section \<open>Lines\<close>

lemma split_lines_ne [simp]: "split_lines bs \<noteq> []"
  by (induction bs) (auto split: list.split)

lemma split_lines_line: "newline \<notin> set l \<Longrightarrow> split_lines (l @ newline # bs) = l # split_lines bs"
  by (induction l) auto

lemma split_lines_last: "newline \<notin> set l \<Longrightarrow> split_lines l = [l]"
  by (induction l) auto

lemma json_lines_simps [simp]:
  "json_lines J [] = []"
  "json_lines J (e # es) = js_to_vec J e @ newline # json_lines J es"
  "json_lines J (es @ fs) = json_lines J es @ json_lines J fs"
  by (simp_all add: json_lines_def json_line_def)

lemma last_json_lines: "es \<noteq> [] \<Longrightarrow> last (json_lines J es) = newline"
  by (induction es) (auto simp: json_lines_def json_line_def)

lemma json_lines_Nil_iff [simp]: "json_lines J es = [] \<longleftrightarrow> es = []"
  by (cases es) auto

lemma json_to_vec:
  assumes "json_ok J"
  shows "js_to_vec J e \<noteq> []" "newline \<notin> set (js_to_vec J e)" "carriage_return \<notin> set (js_to_vec J e)"
    "js_syntax J (js_to_vec J e) = SynOk"
    "0 < n \<Longrightarrow> n < length (js_to_vec J e) \<Longrightarrow> \<exists>m. js_syntax J (take n (js_to_vec J e)) = SynEof m"
  using assms unfolding json_ok_def by blast+

lemma decode_json:
  assumes "json_ok J"
  shows "decode_line J (js_to_vec J e) = Inr e"
proof -
  have "case e of
             RecordEntry r \<Rightarrow> js_record J (js_to_vec J e) = Inr r
           | CommitEntry r \<Rightarrow> (\<exists>m. js_record J (js_to_vec J e) = Inl m) \<and> js_kind J (js_to_vec J e) = ''commit'' \<and>
               js_commit J (js_to_vec J e) = Inr r
           | SupersedeEntry s n w \<Rightarrow> (\<exists>m. js_record J (js_to_vec J e) = Inl m) \<and>
               js_kind J (js_to_vec J e) = ''supersede'' \<and> js_supersede J (js_to_vec J e) = Inr (s, n, w)
           | TrimEntry s n w \<Rightarrow> (\<exists>m. js_record J (js_to_vec J e) = Inl m) \<and>
               js_kind J (js_to_vec J e) = ''trim'' \<and> js_trim J (js_to_vec J e) = Inr (s, n, w)"
    using assms unfolding json_ok_def by blast
  then show ?thesis by (cases e) (auto simp: decode_line_def)
qed

lemma strip_cr_json:
  assumes "json_ok J"
  shows "strip_cr (take n (js_to_vec J e)) = take n (js_to_vec J e)"
proof (cases "take n (js_to_vec J e) = []")
  case False
  then have "last (take n (js_to_vec J e)) \<in> set (js_to_vec J e)" by (metis in_set_takeD last_in_set)
  then show ?thesis using json_to_vec(3) [OF assms, of e] by (auto simp: strip_cr_def)
qed (simp add: strip_cr_def)

declare replay.simps(2) [simp del]

lemma split_lines_json:
  "json_ok J \<Longrightarrow> split_lines (json_lines J es @ bs) = map (js_to_vec J) es @ split_lines bs"
  by (induction es) (simp_all add: split_lines_line json_to_vec)

lemma apply_entries_append:
  "apply_entries (es @ fs) idx = bind_result (apply_entries es idx) (apply_entries fs)"
  by (induction es arbitrary: idx) (auto simp: bind_result_def split: sum.split)

lemma replay_line:
  assumes "json_ok J"
  shows "replay J t pos (js_to_vec J e # rest) idx =
    bind_result (apply_entry e idx) (replay J t (saturating_add_u64 pos (length (js_to_vec J e) + 1)) rest)"
  using assms strip_cr_json [OF assms, of "length (js_to_vec J e)" e]
  by (simp add: replay.simps(2) json_to_vec decode_json Let_def)

lemma replay_lines:
  assumes "json_ok J" "pos + length (json_lines J es) \<le> u64_max"
  shows "replay J t pos (map (js_to_vec J) es @ rest) idx =
    bind_result (apply_entries es idx) (replay J t (pos + length (json_lines J es)) rest)"
  using assms(2)
proof (induction es arbitrary: pos idx)
  case (Cons e es)
  have "saturating_add_u64 pos (length (js_to_vec J e) + 1) = pos + (length (js_to_vec J e) + 1)"
    using Cons.prems by (simp add: saturating_add_u64_def)
  then have "replay J t pos (map (js_to_vec J) (e # es) @ rest) idx =
      bind_result (apply_entry e idx) (replay J t (pos + (length (js_to_vec J e) + 1)) (map (js_to_vec J) es @ rest))"
    using replay_line [OF assms(1)] by simp
  also have "\<dots> = bind_result (apply_entry e idx) (\<lambda>idx'. bind_result (apply_entries es idx')
      (replay J t (pos + (length (js_to_vec J e) + 1) + length (json_lines J es)) rest))"
    using Cons.prems by (intro bind_result_cong refl Cons.IH) simp
  also have "pos + (length (js_to_vec J e) + 1) + length (json_lines J es) = pos + length (json_lines J (e # es))"
    by simp
  finally show ?case by (simp add: bind_result_def split: sum.split)
qed simp

text \<open>A file of whole lines is replayed entry by entry.\<close>

lemma open_lines:
  assumes "json_ok J" "length (json_lines J es) \<le> u64_max"
  shows "open_log J (json_lines J es) = bind_result (apply_entries es empty_index) (\<lambda>idx. Inr (json_lines J es, idx))"
proof -
  have "replay J t 0 (split_lines (json_lines J es)) empty_index =
      bind_result (apply_entries es empty_index) (replay J t (length (json_lines J es)) [[]])" for t
    using replay_lines [OF assms(1), of 0 es t "[[]]"] split_lines_json [OF assms(1), of es "[]"] assms(2) by simp
  then show ?thesis
    by (simp add: open_log_def replay.simps(2) strip_cr_def bind_result_def split: sum.split)
qed

text \<open>What is left of an unfinished line is cut off; only its newline may be missing.\<close>

lemma open_torn:
  assumes "json_ok J" "length (json_lines J es) + k \<le> u64_max" "k \<le> length (js_to_vec J e)"
  shows "open_log J (json_lines J es @ take k (js_to_vec J e)) =
    (if k < length (js_to_vec J e)
     then bind_result (apply_entries es empty_index) (\<lambda>idx. Inr (json_lines J es, idx))
     else bind_result (apply_entries (es @ [e]) empty_index) (\<lambda>idx. Inr (json_lines J es @ js_to_vec J e, idx)))"
proof (cases "k = 0")
  case True
  then show ?thesis using open_lines [OF assms(1), of es] assms json_to_vec(1) [OF assms(1), of e] by auto
next
  case False
  let ?part = "take k (js_to_vec J e)"
  have ne: "?part \<noteq> []" using False json_to_vec(1) [OF assms(1)] by auto
  have nl: "newline \<notin> set ?part" using json_to_vec(2) [OF assms(1), of e] by (auto dest: in_set_takeD)
  then have "last ?part \<noteq> newline" using ne last_in_set by metis
  then have t: "(json_lines J es @ ?part \<noteq> [] \<and> last (json_lines J es @ ?part) = newline) = False"
    using ne by simp
  have sp: "split_lines (json_lines J es @ ?part) = map (js_to_vec J) es @ [?part]"
    using split_lines_json [OF assms(1)] split_lines_last [OF nl] by simp
  have re: "replay J False 0 (split_lines (json_lines J es @ ?part)) empty_index =
      bind_result (apply_entries es empty_index) (replay J False (length (json_lines J es)) [?part])"
    unfolding sp using replay_lines [OF assms(1), of 0 es False "[?part]"] assms(2) by simp
  have op: "open_log J (json_lines J es @ ?part) =
      bind_result (bind_result (apply_entries es empty_index) (replay J False (length (json_lines J es)) [?part]))
        (\<lambda>(idx, cut). Inr (case cut of Some n \<Rightarrow> take n (json_lines J es @ ?part) | None \<Rightarrow> json_lines J es @ ?part, idx))"
    unfolding open_log_def t re ..
  show ?thesis
  proof (cases "k < length (js_to_vec J e)")
    case True
    then obtain m where "js_syntax J ?part = SynEof m" using json_to_vec(5) [OF assms(1)] False by blast
    then have "replay J False (length (json_lines J es)) [?part] idx = Inr (idx, Some (length (json_lines J es)))" for idx
      using ne strip_cr_json [OF assms(1), of k e] by (simp add: replay.simps(2) Let_def)
    then show ?thesis using True by (cases "apply_entries es empty_index") (simp_all add: op)
  next
    case full: False
    then have "?part = js_to_vec J e" using assms(3) by simp
    then show ?thesis using full replay_line [OF assms(1), of False _ e "[]"] unfolding op
      by (cases "apply_entries es empty_index") (simp_all add: apply_entries_append bind_result_def split: sum.split)
  qed
qed

section \<open>Indexes\<close>

lemma finite_epochs: "finite (epochs idx s)"
proof -
  have "{writer_epoch r |r n. map_of (records idx) (s, n) = Some r} \<subseteq> writer_epoch ` ran (map_of (records idx))"
    by (auto simp: ran_def)
  then have "finite {writer_epoch r |r n. map_of (records idx) (s, n) = Some r}"
    by (rule finite_subset) (simp add: finite_ran finite_dom_map_of)
  moreover have "{tp_writer_epoch p |p. map_of (trimmed idx) s = Some p} \<subseteq> tp_writer_epoch ` ran (map_of (trimmed idx))"
    by (auto simp: ran_def)
  then have "finite {tp_writer_epoch p |p. map_of (trimmed idx) s = Some p}"
    by (rule finite_subset) (simp add: finite_ran finite_dom_map_of)
  ultimately show ?thesis by (simp add: epochs_def)
qed

lemma top_epoch_insert:
  "finite E \<Longrightarrow> top_epoch (insert w E) = Some (case top_epoch E of Some e \<Rightarrow> max e w | None \<Rightarrow> w)"
  by (auto simp: top_epoch_def max.commute)

lemma index_wfD:
  assumes "index_wf idx"
  shows "bt_wf (highest_epoch idx)" "bt_wf (records idx)" "bt_wf (committed idx)" "bt_wf (trimmed idx)"
    "map_of (records idx) (s, n) = Some r \<Longrightarrow> stream r = s \<and> lsn r = n \<and> \<not> below_trim idx s n"
    "map_of (committed idx) k = Some r \<Longrightarrow> map_of (records idx) k = Some r"
    "map_of (trimmed idx) s = Some p \<Longrightarrow> tp_stream p = s \<and> s \<noteq> [] \<and> 0 < archived_lsn p"
    "map_of (highest_epoch idx) s = top_epoch (epochs idx s)"
  using assms unfolding index_wf_def top_epoch_def by blast+

lemma index_wfI:
  assumes "bt_wf (highest_epoch idx)" "bt_wf (records idx)" "bt_wf (committed idx)" "bt_wf (trimmed idx)"
    "\<And>s n r. map_of (records idx) (s, n) = Some r \<Longrightarrow> stream r = s \<and> lsn r = n \<and> \<not> below_trim idx s n"
    "\<And>k r. map_of (committed idx) k = Some r \<Longrightarrow> map_of (records idx) k = Some r"
    "\<And>s p. map_of (trimmed idx) s = Some p \<Longrightarrow> tp_stream p = s \<and> s \<noteq> [] \<and> 0 < archived_lsn p"
    "\<And>s. map_of (highest_epoch idx) s = top_epoch (epochs idx s)"
  shows "index_wf idx"
  using assms unfolding index_wf_def top_epoch_def by blast

text \<open>The fences are determined by the rest of the indexes.\<close>

lemma index_ext:
  assumes "index_wf a" "index_wf b" "map_of (records a) = map_of (records b)"
    "map_of (committed a) = map_of (committed b)" "map_of (trimmed a) = map_of (trimmed b)"
  shows "a = b"
proof -
  have "epochs a s = epochs b s" for s using assms(3,5) by (simp add: epochs_def)
  then have "map_of (highest_epoch a) = map_of (highest_epoch b)"
    using index_wfD(8) [OF assms(1)] index_wfD(8) [OF assms(2)] by (simp add: fun_eq_iff)
  then have "highest_epoch a = highest_epoch b"
    using index_wfD(1) [OF assms(1)] index_wfD(1) [OF assms(2)] by (metis bt_wf_ext)
  moreover have "records a = records b" "committed a = committed b" "trimmed a = trimmed b"
    using assms index_wfD(2-4) [OF assms(1)] index_wfD(2-4) [OF assms(2)] by (metis bt_wf_ext)+
  ultimately show ?thesis by simp
qed

lemma empty_index_wf: "index_wf empty_index"
  by (rule index_wfI) (simp_all add: empty_index_def epochs_def top_epoch_def)

lemma below_trim_trimmed: "trimmed a = trimmed b \<Longrightarrow> below_trim a = below_trim b"
  by (simp add: below_trim_def fun_eq_iff)

lemma epochs_filed:
  assumes "map_of (records idx) (record_key r) \<in> {None, Some r}"
  shows "epochs (filed idx r) s = (if s = stream r then insert (writer_epoch r) (epochs idx s) else epochs idx s)"
proof -
  have key: "map_of (records idx) (stream r, lsn r) = Some q \<Longrightarrow> q = r" for q
    using assms by (auto simp: record_key_def)
  have look: "map_of (records (filed idx r)) (t, n) =
      (if t = stream r \<and> n = lsn r then Some r else map_of (records idx) (t, n))" for t n
    by (auto simp: filed_def record_key_def map_of_bt_insert)
  have "{writer_epoch q |q n. map_of (records (filed idx r)) (s, n) = Some q} =
      (if s = stream r then {writer_epoch r} else {}) \<union> {writer_epoch q |q n. map_of (records idx) (s, n) = Some q}"
    unfolding look using key by (auto split: if_splits) metis+
  then show ?thesis by (auto simp: epochs_def filed_def)
qed

lemma apply_record:
  assumes "\<not> below_trim idx (stream r) (lsn r)" "map_of (records idx) (record_key r) \<in> {None, Some r}"
  shows "apply_entry (RecordEntry r) idx = Inr (filed idx r)"
  using assms by (auto simp: index_record_def filed_def epoch_or_zero_def Let_def split: option.split)

lemma filed_wf:
  assumes "index_wf idx" "\<not> below_trim idx (stream r) (lsn r)" "map_of (records idx) (record_key r) \<in> {None, Some r}"
  shows "index_wf (filed idx r)"
proof (rule index_wfI)
  note wf = index_wfD [OF assms(1)]
  have bt: "below_trim (filed idx r) = below_trim idx" by (rule below_trim_trimmed) (simp add: filed_def)
  show "bt_wf (highest_epoch (filed idx r))" "bt_wf (records (filed idx r))" "bt_wf (committed (filed idx r))"
    "bt_wf (trimmed (filed idx r))" using wf(1-4) by (simp_all add: filed_def)
  show "stream q = s \<and> lsn q = n \<and> \<not> below_trim (filed idx r) s n" if "map_of (records (filed idx r)) (s, n) = Some q" for s n q
    unfolding bt using that wf(5) [of s n q] assms(2) by (auto simp: filed_def map_of_bt_insert record_key_def split: if_splits)
  show "map_of (records (filed idx r)) k = Some q" if "map_of (committed (filed idx r)) k = Some q" for k q
    using that wf(6) [of k q] assms(3) by (auto simp: filed_def map_of_bt_insert)
  show "tp_stream p = s \<and> s \<noteq> [] \<and> 0 < archived_lsn p" if "map_of (trimmed (filed idx r)) s = Some p" for s p
    using that wf(7) [of s p] by (simp add: filed_def)
  show "map_of (highest_epoch (filed idx r)) s = top_epoch (epochs (filed idx r) s)" for s
    using wf(8) [of s] wf(8) [of "stream r"] unfolding epochs_filed [OF assms(3)]
    by (auto simp: top_epoch_insert finite_epochs filed_def map_of_bt_insert epoch_or_zero_def
        split: option.split)
qed

lemma apply_commit: "map_of (records idx) (record_key r) = Some r \<Longrightarrow> apply_entry (CommitEntry r) idx = Inr (commit_mark idx r)"
  by (simp add: commit_mark_def)

lemma commit_mark_wf:
  assumes "index_wf idx" "map_of (records idx) (record_key r) = Some r"
  shows "index_wf (commit_mark idx r)"
proof (rule index_wfI)
  note wf = index_wfD [OF assms(1)]
  have bt: "below_trim (commit_mark idx r) = below_trim idx" by (rule below_trim_trimmed) (simp add: commit_mark_def)
  show "map_of (records (commit_mark idx r)) k = Some q" if "map_of (committed (commit_mark idx r)) k = Some q" for k q
    using that wf(6) [of k q] assms(2) by (auto simp: commit_mark_def map_of_bt_insert split: if_splits)
  show "stream q = s \<and> lsn q = n \<and> \<not> below_trim (commit_mark idx r) s n" if "map_of (records (commit_mark idx r)) (s, n) = Some q" for s n q
    unfolding bt using that wf(5) [of s n q] by (simp add: commit_mark_def)
  show "map_of (highest_epoch (commit_mark idx r)) s = top_epoch (epochs (commit_mark idx r) s)" for s
    using wf(8) [of s] by (simp add: commit_mark_def epochs_def)
qed (use index_wfD [OF assms(1)] in \<open>simp_all add: commit_mark_def\<close>)

lemma fold_max_Max: "es \<noteq> [] \<Longrightarrow> fold max es (0 :: nat) = Max (set es)"
  by (metis Max.set_eq_fold Max_insert List.finite_set bot_nat_0.extremum list.simps(15) max_0L set_empty)

lemma set_stream_epochs: "bt_wf (records idx) \<Longrightarrow> set (stream_epochs idx s) = epochs idx s"
proof -
  assume "bt_wf (records idx)"
  then have "distinct (map fst (records idx))" by (rule bt_wf_distinct)
  then have "{writer_epoch r |r n. map_of (records idx) (s, n) = Some r} =
      (\<lambda>e. writer_epoch (snd e)) ` {e \<in> set (records idx). fst (fst e) = s}"
    by (force simp: image_def)
  then show ?thesis
    by (auto simp: stream_epochs_def epochs_def split: option.split)
qed

lemma withdraw_suffix_fields:
  "map_of (records (withdraw_suffix s n idx)) k = (if fst k = s \<and> n \<le> snd k then None else map_of (records idx) k)"
  "map_of (committed (withdraw_suffix s n idx)) k = (if fst k = s \<and> n \<le> snd k then None else map_of (committed idx) k)"
  "trimmed (withdraw_suffix s n idx) = trimmed idx"
  by (auto simp: withdraw_suffix_def Let_def map_of_bt_retain)

lemma withdraw_suffix_wf:
  assumes "index_wf idx"
  shows "index_wf (withdraw_suffix s n idx)"
proof (rule index_wfI)
  let ?w = "withdraw_suffix s n idx"
  let ?kept = "idx\<lparr>records := bt_retain (\<lambda>k. fst k \<noteq> s \<or> snd k < n) (records idx),
      committed := bt_retain (\<lambda>k. fst k \<noteq> s \<or> snd k < n) (committed idx)\<rparr>"
  note wf = index_wfD [OF assms(1)]
  have bt: "below_trim ?w = below_trim idx" by (rule below_trim_trimmed) (rule withdraw_suffix_fields)
  show "bt_wf (highest_epoch ?w)" "bt_wf (records ?w)" "bt_wf (committed ?w)" "bt_wf (trimmed ?w)"
    using wf(1-4) by (simp_all add: withdraw_suffix_def Let_def)
  show "stream q = t \<and> lsn q = m \<and> \<not> below_trim ?w t m" if "map_of (records ?w) (t, m) = Some q" for t m q
    unfolding bt using that wf(5) [of t m q] by (simp add: withdraw_suffix_fields split: if_splits)
  show "map_of (records ?w) k = Some q" if "map_of (committed ?w) k = Some q" for k q
    using that wf(6) [of k q] by (auto simp: withdraw_suffix_fields split: if_splits)
  show "tp_stream p = t \<and> t \<noteq> [] \<and> 0 < archived_lsn p" if "map_of (trimmed ?w) t = Some p" for t p
    using that wf(7) [of t p] by (simp add: withdraw_suffix_fields)
  have ep: "epochs ?w t = epochs ?kept t" for t
    by (simp add: epochs_def withdraw_suffix_def Let_def)
  have other: "t \<noteq> s \<Longrightarrow> epochs ?kept t = epochs idx t" for t
    by (auto simp: epochs_def map_of_bt_retain)
  have st: "set (stream_epochs ?kept s) = epochs ?kept s"
    using wf(2) by (intro set_stream_epochs) simp
  have top: "top_epoch (epochs ?kept s) =
      (if stream_epochs ?kept s = [] then None else Some (fold max (stream_epochs ?kept s) 0))"
    unfolding st [symmetric] top_epoch_def by (simp add: fold_max_Max)
  have h: "highest_epoch ?w = (if stream_epochs ?kept s = [] then bt_remove s (highest_epoch idx)
      else bt_insert s (fold max (stream_epochs ?kept s) 0) (highest_epoch idx))"
    by (simp add: withdraw_suffix_def Let_def)
  show "map_of (highest_epoch ?w) t = top_epoch (epochs ?w t)" for t
  proof (cases "t = s")
    case True
    show ?thesis unfolding ep h True top by (simp add: map_of_bt_insert map_of_bt_remove)
  next
    case False
    then show ?thesis unfolding ep h using other [OF False] wf(8) [of t]
      by (simp add: map_of_bt_insert map_of_bt_remove)
  qed
qed

text \<open>A trim entry before any record of its stream.\<close>

lemma apply_trim:
  assumes "index_wf idx" "s \<noteq> []" "0 < n" "map_of (trimmed idx) s = None" "\<And>m. map_of (records idx) (s, m) = None"
  shows "\<exists>idx'. apply_entry (TrimEntry s n w) idx = Inr idx' \<and> index_wf idx' \<and>
    records idx' = records idx \<and> committed idx' = committed idx \<and>
    map_of (trimmed idx') = (map_of (trimmed idx))(s \<mapsto> \<lparr>tp_stream = s, archived_lsn = n, tp_writer_epoch = w\<rparr>)"
proof -
  note wf = index_wfD [OF assms(1)]
  let ?p = "\<lparr>tp_stream = s, archived_lsn = n, tp_writer_epoch = w\<rparr>"
  let ?i = "idx\<lparr>highest_epoch := bt_insert s w (highest_epoch idx), trimmed := bt_insert s ?p (trimmed idx)\<rparr>"
  have ep: "epochs ?i t = (if t = s then {w} else epochs idx t)" for t
    using assms(4,5) by (auto simp: epochs_def map_of_bt_insert)
  have "index_wf ?i"
  proof (rule index_wfI)
    show "stream q = t \<and> lsn q = m \<and> \<not> below_trim ?i t m" if "map_of (records ?i) (t, m) = Some q" for t m q
      using that wf(5) [of t m q] assms(5) [of m] by (auto simp: below_trim_def map_of_bt_insert)
    show "map_of (highest_epoch ?i) t = top_epoch (epochs ?i t)" for t
      unfolding ep using wf(8) [of t] by (simp add: map_of_bt_insert top_epoch_def)
  qed (use wf(1-4,6,7) assms(2,3) in \<open>auto simp: map_of_bt_insert split: if_splits\<close>)
  moreover have "apply_entry (TrimEntry s n w) idx = Inr ?i"
    using assms(2-4) by (simp add: bt_has_iff)
  ultimately show ?thesis by (simp add: map_of_bt_insert)
qed

section \<open>Compacted logs\<close>

lemma map_add_entry: "map_of es k = None \<Longrightarrow> m ++ map_of ((k, v) # es) = m(k \<mapsto> v) ++ map_of es"
  by (auto simp: map_add_def fun_eq_iff split: option.split)

lemma apply_trims:
  assumes "index_wf idx" "records idx = []" "distinct (map fst ts)"
    "\<And>s p. (s, p) \<in> set ts \<Longrightarrow> tp_stream p = s \<and> s \<noteq> [] \<and> 0 < archived_lsn p \<and> map_of (trimmed idx) s = None"
  shows "\<exists>idx'. apply_entries (map (\<lambda>e. trim_entry (snd e)) ts) idx = Inr idx' \<and> index_wf idx' \<and> records idx' = [] \<and>
    committed idx' = committed idx \<and> map_of (trimmed idx') = map_of (trimmed idx) ++ map_of ts"
  using assms
proof (induction ts arbitrary: idx)
  case (Cons e ts)
  obtain s p where e: "e = (s, p)" by fastforce
  have p: "tp_stream p = s" "s \<noteq> []" "0 < archived_lsn p" "map_of (trimmed idx) s = None"
    using Cons.prems(4) [of s p] e by simp_all
  have pe: "\<lparr>tp_stream = s, archived_lsn = archived_lsn p, tp_writer_epoch = tp_writer_epoch p\<rparr> = p"
    using p(1) by simp
  obtain i where i: "apply_entry (trim_entry p) idx = Inr i" "index_wf i" "records i = []" "committed i = committed idx"
      "map_of (trimmed i) = (map_of (trimmed idx))(s \<mapsto> p)"
    using apply_trim [OF Cons.prems(1) p(2-4), of "tp_writer_epoch p"] Cons.prems(2) pe p(1)
    unfolding trim_entry_def by fastforce
  have sn: "s \<notin> fst ` set ts" "distinct (map fst ts)" using Cons.prems(3) e by auto
  have "tp_stream q = t \<and> t \<noteq> [] \<and> 0 < archived_lsn q \<and> map_of (trimmed i) t = None" if "(t, q) \<in> set ts" for t q
    using Cons.prems(4) [of t q] that sn i(5) by (force simp: e)
  then obtain i' where i': "apply_entries (map (\<lambda>e. trim_entry (snd e)) ts) i = Inr i'" "index_wf i'" "records i' = []"
      "committed i' = committed i" "map_of (trimmed i') = map_of (trimmed i) ++ map_of ts"
    using Cons.IH [OF i(2,3) sn(2)] by blast
  have "map_of (trimmed idx) ++ map_of (e # ts) = map_of (trimmed i) ++ map_of ts"
    unfolding e i(5) using sn(1) by (intro map_add_entry) (simp add: map_of_eq_None_iff)
  then have "map_of (trimmed i') = map_of (trimmed idx) ++ map_of (e # ts)" using i'(5) by argo
  moreover have "apply_entries (map (\<lambda>e. trim_entry (snd e)) (e # ts)) idx = Inr i'" using i(1) i'(1) e by simp
  ultimately show ?case using i(4) i' by metis
qed simp

lemma apply_retained:
  assumes "index_wf idx" "distinct (map fst rs)"
    "\<And>k r. (k, r) \<in> set rs \<Longrightarrow> k = record_key r \<and> \<not> below_trim idx (stream r) (lsn r) \<and> map_of (records idx) k = None"
  shows "\<exists>idx'. apply_entries (concat (map (record_entries c) rs)) idx = Inr idx' \<and> index_wf idx' \<and> trimmed idx' = trimmed idx \<and>
    map_of (records idx') = map_of (records idx) ++ map_of rs \<and>
    (\<forall>k. map_of (committed idx') k = (case map_of rs k of
        Some r \<Rightarrow> if map_of c k = Some r then Some r else map_of (committed idx) k
      | None \<Rightarrow> map_of (committed idx) k))"
  using assms
proof (induction rs arbitrary: idx)
  case (Cons e rs)
  obtain k r where e: "e = (k, r)" by fastforce
  have r: "k = record_key r" "\<not> below_trim idx (stream r) (lsn r)" "map_of (records idx) k = None"
    using Cons.prems(3) [of k r] unfolding e by auto
  have f: "apply_entry (RecordEntry r) idx = Inr (filed idx r)" "index_wf (filed idx r)"
    using apply_record [of idx r] filed_wf [OF Cons.prems(1), of r] r by simp_all
  have fr: "map_of (records (filed idx r)) k = Some r"
    using r(1) by (simp add: filed_def map_of_bt_insert)
  define i where "i = (if map_of c k = Some r then commit_mark (filed idx r) r else filed idx r)"
  have ap: "apply_entries (record_entries c e) idx = Inr i" and wi: "index_wf i"
    using f fr r(1) apply_commit [of "filed idx r" r] commit_mark_wf [of "filed idx r" r]
    by (simp_all add: record_entries_def i_def e del: apply_entry.simps)
  have rec: "map_of (records i) = (map_of (records idx))(k \<mapsto> r)" and tr: "trimmed i = trimmed idx"
    and com: "map_of (committed i) = (if map_of c k = Some r then (map_of (committed idx))(k \<mapsto> r) else map_of (committed idx))"
    using r(1) by (simp_all add: i_def filed_def commit_mark_def map_of_bt_insert)
  have kn: "k \<notin> fst ` set rs" "distinct (map fst rs)" using Cons.prems(2) e by auto
  have "l = record_key q \<and> \<not> below_trim i (stream q) (lsn q) \<and> map_of (records i) l = None" if "(l, q) \<in> set rs" for l q
    using Cons.prems(3) [of l q] that kn rec below_trim_trimmed [OF tr] by (force simp: e)
  then obtain i' where i': "apply_entries (concat (map (record_entries c) rs)) i = Inr i'" "index_wf i'" "trimmed i' = trimmed i"
      "map_of (records i') = map_of (records i) ++ map_of rs"
      "\<And>k. map_of (committed i') k = (case map_of rs k of
        Some r \<Rightarrow> if map_of c k = Some r then Some r else map_of (committed i) k
      | None \<Rightarrow> map_of (committed i) k)"
    using Cons.IH [OF wi kn(2)] by blast
  have rk: "map_of rs k = None" using kn(1) by (simp add: map_of_eq_None_iff)
  have "map_of (records idx) ++ map_of (e # rs) = map_of (records i) ++ map_of rs"
    unfolding e rec using rk by (rule map_add_entry)
  then have "map_of (records i') = map_of (records idx) ++ map_of (e # rs)" using i'(4) by argo
  moreover have "map_of (committed i') l = (case map_of (e # rs) l of
        Some r \<Rightarrow> if map_of c l = Some r then Some r else map_of (committed idx) l
      | None \<Rightarrow> map_of (committed idx) l)" for l
    unfolding i'(5) com using rk e by (auto split: option.split)
  moreover have "apply_entries (concat (map (record_entries c) (e # rs))) idx = Inr i'"
    using ap i'(1) by (simp add: apply_entries_append)
  ultimately show ?case using i'(2,3) tr by metis
qed simp

text \<open>Replaying the lines of a compaction gives the retained indexes.\<close>

lemma replay_dump:
  assumes "index_wf idx"
  shows "apply_entries (dump_entries idx) empty_index = Inr idx"
proof -
  note wf = index_wfD [OF assms]
  have tr: "map_of (trimmed idx) s = Some p" if "(s, p) \<in> set (trimmed idx)" for s p
    using that bt_wf_distinct [OF wf(4)] by simp
  have "tp_stream p = s \<and> s \<noteq> [] \<and> 0 < archived_lsn p \<and> map_of (trimmed empty_index) s = None" if "(s, p) \<in> set (trimmed idx)" for s p
    using wf(7) [OF tr [OF that]] by (simp add: empty_index_def)
  then obtain i where i: "apply_entries (map (\<lambda>e. trim_entry (snd e)) (trimmed idx)) empty_index = Inr i" "index_wf i"
      "records i = []" "committed i = []" "map_of (trimmed i) = map_of (trimmed idx)"
    using apply_trims [OF empty_index_wf _ bt_wf_distinct [OF wf(4)]] by (auto simp: empty_index_def)
  have "trimmed i = trimmed idx" using i(5) index_wfD(4) [OF i(2)] wf(4) by (metis bt_wf_ext)
  then have bt: "below_trim i = below_trim idx" by (rule below_trim_trimmed)
  have "k = record_key r \<and> \<not> below_trim i (stream r) (lsn r) \<and> map_of (records i) k = None" if "(k, r) \<in> set (records idx)" for k r
  proof -
    obtain s n where k: "k = (s, n)" by fastforce
    have "map_of (records idx) (s, n) = Some r" using that bt_wf_distinct [OF wf(2)] k by simp
    then show ?thesis unfolding bt using wf(5) [of s n r] i(3) k by (auto simp: record_key_def)
  qed
  then obtain i' where i': "apply_entries (concat (map (record_entries (committed idx)) (records idx))) i = Inr i'" "index_wf i'"
      "trimmed i' = trimmed i" "map_of (records i') = map_of (records i) ++ map_of (records idx)"
      "\<forall>k. map_of (committed i') k = (case map_of (records idx) k of
        Some r \<Rightarrow> if map_of (committed idx) k = Some r then Some r else map_of (committed i) k
      | None \<Rightarrow> map_of (committed i) k)"
    using apply_retained [OF i(2) bt_wf_distinct [OF wf(2)], of "committed idx"] by blast
  have "map_of (committed i') k = map_of (committed idx) k" for k
    using i'(5) [rule_format, of k] i(4) wf(6) [of k] by (cases "map_of (committed idx) k") (auto split: option.split)
  then have "i' = idx"
    using i' i by (intro index_ext [OF i'(2) assms]) (simp_all add: fun_eq_iff)
  then show ?thesis using i(1) i'(1) by (simp add: dump_entries_def apply_entries_append)
qed

section \<open>Torn writes\<close>

lemma torn_lines:
  obtains j part where "take k (json_lines J es) = json_lines J (take j es) @ part" "j \<le> length es"
    "part = [] \<or> j < length es \<and> (\<exists>m. m \<le> length (js_to_vec J (es ! j)) \<and> part = take m (js_to_vec J (es ! j)))"
    "length (json_lines J es) \<le> k \<Longrightarrow> j = length es \<and> part = []"
proof (induction es arbitrary: k thesis)
  case Nil
  show ?case by (rule Nil [of 0 "[]"]) auto
next
  case (Cons e es)
  show ?case
  proof (cases "k \<le> length (js_to_vec J e)")
    case True
    show ?thesis
      by (rule Cons.prems [of 0 "take k (js_to_vec J e)"]) (use True in auto)
  next
    case False
    obtain j part where IH: "take (k - length (js_to_vec J e) - 1) (json_lines J es) = json_lines J (take j es) @ part"
        "j \<le> length es" "part = [] \<or> j < length es \<and> (\<exists>m. m \<le> length (js_to_vec J (es ! j)) \<and> part = take m (js_to_vec J (es ! j)))"
        "length (json_lines J es) \<le> k - length (js_to_vec J e) - 1 \<Longrightarrow> j = length es \<and> part = []"
      using Cons.IH by blast
    have k: "k = length (js_to_vec J e) + Suc (k - length (js_to_vec J e) - 1)" using False by simp
    have "take k (json_lines J (e # es)) = js_to_vec J e @ newline # take (k - length (js_to_vec J e) - 1) (json_lines J es)"
      by (subst k) (simp add: take_Cons')
    then show ?thesis
      using IH False by (intro Cons.prems [of "Suc j" part]) auto
  qed
qed

text \<open>Opening a log whose last write of several lines was torn: a prefix of the entries is there.\<close>

lemma open_torn_lines:
  assumes "json_ok J" "length (json_lines J (fs @ es)) \<le> u64_max"
  shows "\<exists>j f. j \<le> length es \<and> (length (json_lines J es) \<le> k \<longrightarrow> j = length es) \<and>
    open_log J (json_lines J fs @ take k (json_lines J es)) =
      bind_result (apply_entries (fs @ take j es) empty_index) (\<lambda>idx. Inr (f, idx))"
proof -
  obtain j part where tk: "take k (json_lines J es) = json_lines J (take j es) @ part" "j \<le> length es"
      "part = [] \<or> j < length es \<and> (\<exists>m. m \<le> length (js_to_vec J (es ! j)) \<and> part = take m (js_to_vec J (es ! j)))"
      "length (json_lines J es) \<le> k \<Longrightarrow> j = length es \<and> part = []"
    using torn_lines [of k J es] by blast
  have "length (take k (json_lines J es)) \<le> length (json_lines J es)" by simp
  then have len: "length (json_lines J (fs @ take j es)) + length part \<le> u64_max"
    using assms(2) unfolding tk(1) by simp
  show ?thesis
  proof (cases "part = []")
    case True
    then show ?thesis using open_lines [OF assms(1), of "fs @ take j es"] len tk
      by (intro exI [of _ j] exI [of _ "json_lines J (fs @ take j es)"]) auto
  next
    case False
    then obtain m where m: "j < length es" "m \<le> length (js_to_vec J (es ! j))" "part = take m (js_to_vec J (es ! j))"
      using tk(3) by blast
    have op: "open_log J (json_lines J fs @ take k (json_lines J es)) =
        open_log J (json_lines J (fs @ take j es) @ take m (js_to_vec J (es ! j)))"
      unfolding tk(1) m(3) by simp
    have lm: "length (json_lines J (fs @ take j es)) + m \<le> u64_max" using len m by simp
    note ot = open_torn [OF assms(1) lm m(2)]
    have nk: "\<not> length (json_lines J es) \<le> k" using tk(4) False by blast
    show ?thesis
    proof (cases "m < length (js_to_vec J (es ! j))")
      case True
      then show ?thesis unfolding op using ot nk tk(2)
        by (intro exI [of _ j] exI [of _ "json_lines J (fs @ take j es)"]) simp
    next
      case False
      have "fs @ take (Suc j) es = (fs @ take j es) @ [es ! j]" using m(1) by (simp add: take_Suc_conv_app_nth)
      then show ?thesis unfolding op using ot nk m(1) False
        by (intro exI [of _ "Suc j"] exI [of _ "json_lines J (fs @ take j es) @ js_to_vec J (es ! j)"]) simp
    qed
  qed
qed

lemma demo_record_inverse: "demo_record_of (demo_record_code r) = r"
  by (simp add: demo_record_of_def demo_record_code_def Let_def o_def eval_nat_numeral)

lemma demo_triple_inverse: "demo_triple_of (demo_triple_code s n w) = (s, n, w)"
  by (simp add: demo_triple_of_def demo_triple_code_def Let_def o_def eval_nat_numeral)

lemma demo_raw_inverse: "demo_raw_of (demo_raw e) = e"
  by (cases e) (simp_all add: demo_raw_of_def demo_record_inverse demo_triple_inverse split: prod.split)

lemma demo_inverse: "demo_entry_of (demo_code e) = e"
proof (cases "length (takeWhile (\<lambda>x. x \<noteq> e) demo_entries) < length demo_entries")
  case True
  then show ?thesis
    using nth_length_takeWhile [OF True] by (simp add: demo_entry_of_def demo_code_def Let_def)
next
  case False
  then show ?thesis by (simp add: demo_entry_of_def demo_code_def Let_def demo_raw_inverse)
qed

lemma demo_line: "demo_line_entry (replicate (demo_code e) 1 @ [2]) = e"
  by (simp add: demo_line_entry_def demo_inverse)

lemma demo_json_ok: "json_ok demo_json"
proof -
  have pre: "js_syntax demo_json (take n (js_to_vec demo_json e)) = SynEof ''EOF''"
    if "0 < n" "n < length (js_to_vec demo_json e)" for n e
  proof -
    have "take n (js_to_vec demo_json e) = replicate n 1" using that by (simp add: demo_json_def)
    then show ?thesis using that(1) by (cases n) (auto simp: demo_json_def last_replicate)
  qed
  have "js_to_vec demo_json e \<noteq> [] \<and> newline \<notin> set (js_to_vec demo_json e) \<and>
      carriage_return \<notin> set (js_to_vec demo_json e) \<and> js_syntax demo_json (js_to_vec demo_json e) = SynOk" for e
    by (simp add: demo_json_def newline_def carriage_return_def)
  moreover have "case e of
             RecordEntry r \<Rightarrow> js_record demo_json (js_to_vec demo_json e) = Inr r
           | CommitEntry r \<Rightarrow> (\<exists>m. js_record demo_json (js_to_vec demo_json e) = Inl m) \<and> js_kind demo_json (js_to_vec demo_json e) = ''commit'' \<and>
               js_commit demo_json (js_to_vec demo_json e) = Inr r
           | SupersedeEntry s n w \<Rightarrow> (\<exists>m. js_record demo_json (js_to_vec demo_json e) = Inl m) \<and>
               js_kind demo_json (js_to_vec demo_json e) = ''supersede'' \<and> js_supersede demo_json (js_to_vec demo_json e) = Inr (s, n, w)
           | TrimEntry s n w \<Rightarrow> (\<exists>m. js_record demo_json (js_to_vec demo_json e) = Inl m) \<and>
               js_kind demo_json (js_to_vec demo_json e) = ''trim'' \<and> js_trim demo_json (js_to_vec demo_json e) = Inr (s, n, w)" for e
    by (cases e) (simp_all add: demo_json_def demo_line)
  ultimately show ?thesis unfolding json_ok_def using pre by blast
qed

end
