(* ===== verification/Placement_Store.thy ===== *)
theory Placement_Store
  imports Prelude
begin

text \<open>
  Stream-local placement fences (\<open>crates/walleye-bitr-server/src/placement.rs\<close>). A gate per stream
  admits appends at exactly its placement; a fence marks the gate as transitioning, waits until
  the admitted appends have drained, writes the sidecar file and only then moves the gate. The
  two waits of \<open>install_fence\<close> make it two steps here, \<open>fence_begin\<close> and \<open>fence_finish\<close>; what
  lies between is under the lock of the gate. A poisoned lock, which needs a panic of another
  thread, is not modelled. The sidecar is modelled after JSON decoding; writing it ends in one
  of the outcomes of \<open>persist_outcome\<close>.
\<close>

section \<open>Definitions\<close>

definition PLACEMENT_STATE_VERSION :: nat where "PLACEMENT_STATE_VERSION = 1"

record placement_epoch =
  epoch :: nat
  route_digest :: string

definition bootstrap :: placement_epoch where
  "bootstrap = \<lparr>epoch = 0, route_digest = []\<rparr>"

datatype placement_error =
    InvalidStream
  | InvalidEpoch
  | Storage string
  | Transitioning
  | Stale placement_epoch placement_epoch
  | Future placement_epoch placement_epoch
  | Conflict placement_epoch placement_epoch
  | Decreasing placement_epoch placement_epoch
  | FenceConflict placement_epoch placement_epoch

definition placement_error_text :: "placement_error \<Rightarrow> string" where
  "placement_error_text e =
     (case e of
        InvalidStream \<Rightarrow> ''placement stream must not be empty''
      | InvalidEpoch \<Rightarrow> ''placement epoch zero must have no digest and higher epochs require a route digest''
      | Storage reason \<Rightarrow> ''placement storage failed: '' @ reason
      | Transitioning \<Rightarrow> ''stream placement is transitioning''
      | Stale current received \<Rightarrow>
          ''stale stream placement epoch '' @ show_nat (epoch received) @ '' (current '' @ show_nat (epoch current) @ '')''
      | Future current received \<Rightarrow>
          ''stream placement epoch '' @ show_nat (epoch received) @ '' is ahead of current '' @ show_nat (epoch current)
      | Conflict current received \<Rightarrow>
          ''stream placement epoch '' @ show_nat (epoch received) @
          '' has a conflicting route digest (current '' @ show_nat (epoch current) @ '')''
      | Decreasing current requested \<Rightarrow>
          ''stream placement cannot move from epoch '' @ show_nat (epoch current) @
          '' backwards to '' @ show_nat (epoch requested)
      | FenceConflict current requested \<Rightarrow>
          ''stream placement epoch '' @ show_nat (epoch requested) @
          '' already names another route (requested '' @ show_nat (epoch current) @ '')'')"

text \<open>The sidecar file: absent, unreadable, not a document, or a document with its version.\<close>

datatype sidecar =
    Missing
  | Unreadable string
  | Garbage string
  | Document nat "(string, placement_epoch) bt"

text \<open>\<open>Persisted\<close>: written, renamed and synced. \<open>PersistFailed\<close>: an error, with whether the rename
  had already replaced the file.\<close>

datatype persist_outcome = Persisted | PersistFailed bool string

record gate_state =
  g_placement :: placement_epoch
  admitted :: nat
  transitioning :: bool

record placement_store =
  sidecar_file :: sidecar
  gates :: "(string, gate_state) bt"
  persisted :: "(string, placement_epoch) bt"
  failed_closed :: bool

definition validate_epoch :: "placement_epoch \<Rightarrow> (unit, placement_error) result" where
  "validate_epoch p =
     (if epoch p = 0 \<and> route_digest p \<noteq> [] \<or> 0 < epoch p \<and> trim (route_digest p) = []
      then Inl InvalidEpoch else Inr ())"

fun validate_streams :: "(string, placement_epoch) bt \<Rightarrow> (unit, placement_error) result" where
  "validate_streams [] = Inr ()"
| "validate_streams ((s, p) # rest) =
     (if trim s = [] then Inl (Storage ''placement state contains an empty stream'')
      else case validate_epoch p of
          Inl _ \<Rightarrow> Inl (Storage ''invalid placement epoch'')
        | Inr _ \<Rightarrow> validate_streams rest)"

definition read_state_optional ::
  "sidecar \<Rightarrow> ((string, placement_epoch) bt option, placement_error) result" where
  "read_state_optional f =
     (case f of
        Missing \<Rightarrow> Inr None
      | Unreadable e \<Rightarrow> Inl (Storage e)
      | Garbage e \<Rightarrow> Inl (Storage (''invalid placement state: '' @ e))
      | Document version streams \<Rightarrow>
          if version \<noteq> PLACEMENT_STATE_VERSION then Inl (Storage ''unsupported placement state version'')
          else bind_result (validate_streams streams) (\<lambda>_. Inr (Some streams)))"

definition read_state :: "sidecar \<Rightarrow> ((string, placement_epoch) bt, placement_error) result" where
  "read_state f =
     bind_result (read_state_optional f) (\<lambda>o'. Inr (case o' of Some m \<Rightarrow> m | None \<Rightarrow> []))"

definition read_state_required :: "sidecar \<Rightarrow> ((string, placement_epoch) bt, placement_error) result" where
  "read_state_required f =
     bind_result (read_state_optional f) (\<lambda>o'. case o' of
        Some m \<Rightarrow> Inr m
      | None \<Rightarrow> Inl (Storage ''placement sidecar is missing after initialization''))"

definition persist_state ::
  "persist_outcome \<Rightarrow> sidecar \<Rightarrow> (string, placement_epoch) bt \<Rightarrow> sidecar \<times> (unit, placement_error) result" where
  "persist_state io f streams =
     (case io of
        Persisted \<Rightarrow> (Document PLACEMENT_STATE_VERSION streams, Inr ())
      | PersistFailed replaced e \<Rightarrow>
          (if replaced then Document PLACEMENT_STATE_VERSION streams else f, Inl (Storage e)))"

definition from_persisted :: "sidecar \<Rightarrow> (string, placement_epoch) bt \<Rightarrow> placement_store" where
  "from_persisted f m = \<lparr>sidecar_file = f, gates = [], persisted = m, failed_closed = False\<rparr>"

definition store_open :: "sidecar \<Rightarrow> (placement_store, placement_error) result" where
  "store_open f = bind_result (read_state f) (\<lambda>m. Inr (from_persisted f m))"

definition open_existing :: "sidecar \<Rightarrow> (placement_store, placement_error) result" where
  "open_existing f = bind_result (read_state_required f) (\<lambda>m. Inr (from_persisted f m))"

fun validate_legacy :: "(string, placement_epoch) bt \<Rightarrow> (unit, placement_error) result" where
  "validate_legacy [] = Inr ()"
| "validate_legacy ((s, p) # rest) =
     (if trim s = [] then Inl (Storage ''legacy placement state contains an empty stream'')
      else case validate_epoch p of
          Inl _ \<Rightarrow> Inl (Storage ''invalid legacy placement epoch'')
        | Inr _ \<Rightarrow> validate_legacy rest)"

text \<open>Returns the file as it is afterwards, with the store or the error.\<close>

definition bootstrap_legacy ::
  "persist_outcome \<Rightarrow> sidecar \<Rightarrow> (string, placement_epoch) bt \<Rightarrow>
   sidecar \<times> (placement_store, placement_error) result" where
  "bootstrap_legacy io f routes =
     (case bind_result (validate_legacy routes) (\<lambda>_. read_state_optional f) of
        Inl e \<Rightarrow> (f, Inl e)
      | Inr (Some m) \<Rightarrow>
          if m \<noteq> routes
          then (f, Inl (Storage ''existing placement sidecar disagrees with legacy control routes''))
          else (f, Inr (from_persisted f m))
      | Inr None \<Rightarrow>
          (case persist_state io f routes of
             (f', Inl e) \<Rightarrow> (f', Inl e)
           | (f', Inr _) \<Rightarrow> (f', Inr (from_persisted f' routes))))"

definition ensure_healthy :: "placement_store \<Rightarrow> (unit, placement_error) result" where
  "ensure_healthy st =
     (if failed_closed st
      then Inl (Storage ''placement store is fail-closed after an uncertain sidecar write'')
      else Inr ())"

definition durable_placement :: "placement_store \<Rightarrow> string \<Rightarrow> placement_epoch" where
  "durable_placement st s = (case bt_get (persisted st) s of Some p \<Rightarrow> p | None \<Rightarrow> bootstrap)"

text \<open>Finds or creates the gate of a stream.\<close>

definition gate :: "placement_store \<Rightarrow> string \<Rightarrow> (placement_store \<times> gate_state, placement_error) result" where
  "gate st s =
     (if trim s = [] then Inl InvalidStream
      else case bt_get (gates st) s of
          Some g \<Rightarrow> Inr (st, g)
        | None \<Rightarrow>
            let g = \<lparr>g_placement = durable_placement st s, admitted = 0, transitioning = False\<rparr>
            in Inr (st\<lparr>gates := bt_insert s g (gates st)\<rparr>, g))"

definition set_gate :: "placement_store \<Rightarrow> string \<Rightarrow> gate_state \<Rightarrow> placement_store" where
  "set_gate st s g = st\<lparr>gates := bt_insert s g (gates st)\<rparr>"

definition compare_admission :: "placement_epoch \<Rightarrow> placement_epoch \<Rightarrow> (unit, placement_error) result" where
  "compare_admission current received =
     (if epoch received < epoch current then Inl (Stale current received)
      else if epoch current < epoch received then Inl (Future current received)
      else if route_digest received = route_digest current then Inr ()
      else Inl (Conflict current received))"

definition current_placement :: "placement_store \<Rightarrow> string \<Rightarrow> placement_store \<times> (placement_epoch, placement_error) result" where
  "current_placement st s =
     (case bind_result (ensure_healthy st) (\<lambda>_. gate st s) of
        Inl e \<Rightarrow> (st, Inl e)
      | Inr (st', g) \<Rightarrow> (st', Inr (g_placement g)))"

definition admit ::
  "placement_store \<Rightarrow> string \<Rightarrow> placement_epoch \<Rightarrow> placement_store \<times> (placement_epoch, placement_error) result" where
  "admit st s p =
     (case bind_result (ensure_healthy st) (\<lambda>_. bind_result (validate_epoch p) (\<lambda>_. gate st s)) of
        Inl e \<Rightarrow> (st, Inl e)
      | Inr (st', g) \<Rightarrow>
          if transitioning g then (st', Inl Transitioning)
          else case compare_admission (g_placement g) p of
              Inl e \<Rightarrow> (st', Inl e)
            | Inr _ \<Rightarrow> (set_gate st' s (g\<lparr>admitted := saturating_add_u64 (admitted g) 1\<rparr>), Inr p))"

text \<open>Releasing a lease, explicitly or by dropping it.\<close>

definition release_lease :: "placement_store \<Rightarrow> string \<Rightarrow> placement_store" where
  "release_lease st s =
     (case bt_get (gates st) s of
        None \<Rightarrow> st
      | Some g \<Rightarrow> set_gate st s (g\<lparr>admitted := admitted g - 1\<rparr>))"

datatype fence_start = FenceWait | FenceDone | FenceOwned

text \<open>\<open>install_fence\<close> up to the moment it owns the transition: it waits while another fence does,
  is done when the placement is already there, or sets the transition bit.\<close>

definition fence_begin ::
  "placement_store \<Rightarrow> string \<Rightarrow> placement_epoch \<Rightarrow> placement_store \<times> (fence_start, placement_error) result" where
  "fence_begin st s requested =
     (case bind_result (ensure_healthy st) (\<lambda>_. bind_result (validate_epoch requested) (\<lambda>_. gate st s)) of
        Inl e \<Rightarrow> (st, Inl e)
      | Inr (st', g) \<Rightarrow>
          if transitioning g then (st', Inr FenceWait)
          else if epoch requested < epoch (g_placement g)
          then (st', Inl (Decreasing (g_placement g) requested))
          else if epoch requested = epoch (g_placement g)
          then (if requested = g_placement g then (st', Inr FenceDone)
                else (st', Inl (FenceConflict (g_placement g) requested)))
          else (set_gate st' s (g\<lparr>transitioning := True\<rparr>), Inr FenceOwned))"

text \<open>\<open>install_fence\<close> once the admitted appends have drained: \<open>None\<close> while they have not.\<close>

definition fence_finish ::
  "persist_outcome \<Rightarrow> placement_store \<Rightarrow> string \<Rightarrow> placement_epoch \<Rightarrow>
   (placement_store \<times> (unit, placement_error) result) option" where
  "fence_finish io st s requested =
     (case bt_get (gates st) s of
        None \<Rightarrow> None
      | Some g \<Rightarrow>
          if admitted g \<noteq> 0 then None
          else
          let reopened = set_gate st s (g\<lparr>transitioning := False\<rparr>)
          in Some
            (if failed_closed st
             then (reopened, Inl (Storage ''placement store is fail-closed after an uncertain sidecar write''))
             else if (case bt_get (persisted st) s of Some p \<Rightarrow> p \<noteq> g_placement g | None \<Rightarrow> False)
             then (reopened\<lparr>failed_closed := True\<rparr>, Inl (Storage ''placement gate disagrees with durable sidecar''))
             else
             let new = bt_insert s requested (persisted st)
             in case persist_state io (sidecar_file st) new of
                  (f, Inl e) \<Rightarrow> (reopened\<lparr>sidecar_file := f, failed_closed := True\<rparr>, Inl e)
                | (f, Inr _) \<Rightarrow>
                    ((set_gate st s (g\<lparr>g_placement := requested, transitioning := False\<rparr>))
                       \<lparr>sidecar_file := f, persisted := new\<rparr>, Inr ())))"

definition store_snapshot :: "placement_store \<Rightarrow> ((string, placement_epoch) bt, placement_error) result" where
  "store_snapshot st = bind_result (ensure_healthy st) (\<lambda>_. Inr (persisted st))"

definition contains_stream :: "placement_store \<Rightarrow> string \<Rightarrow> (bool, placement_error) result" where
  "contains_stream st s =
     bind_result (ensure_healthy st) (\<lambda>_.
       if trim s = [] then Inl InvalidStream else Inr (bt_has (persisted st) s))"

definition is_transitioning :: "placement_store \<Rightarrow> string \<Rightarrow> placement_store \<times> (bool, placement_error) result" where
  "is_transitioning st s =
     (case gate st s of Inl e \<Rightarrow> (st, Inl e) | Inr (st', g) \<Rightarrow> (st', Inr (transitioning g)))"

section \<open>Specification\<close>

text \<open>A node with its store, the leases that are out, and the fence that owns each transition. A
  restart loses everything but the sidecar.\<close>

record placement_world =
  pw_store :: placement_store
  leases :: "(string \<times> placement_epoch) list"
  fencing :: "string \<rightharpoonup> placement_epoch"

inductive placement_step :: "placement_world \<Rightarrow> placement_world \<Rightarrow> bool" where
  admit_ok: "admit (pw_store w) s p = (st, Inr q) \<Longrightarrow> length (leases w) < u64_max \<Longrightarrow>
    placement_step w (w\<lparr>pw_store := st, leases := (s, q) # leases w\<rparr>)"
| admit_refused: "admit (pw_store w) s p = (st, Inl e) \<Longrightarrow> placement_step w (w\<lparr>pw_store := st\<rparr>)"
| release: "(s, p) \<in> set (leases w) \<Longrightarrow>
    placement_step w (w\<lparr>pw_store := release_lease (pw_store w) s, leases := remove1 (s, p) (leases w)\<rparr>)"
| fence_owned: "fence_begin (pw_store w) s p = (st, Inr FenceOwned) \<Longrightarrow>
    placement_step w (w\<lparr>pw_store := st, fencing := (fencing w)(s \<mapsto> p)\<rparr>)"
| fence_other: "fence_begin (pw_store w) s p = (st, res) \<Longrightarrow> res \<noteq> Inr FenceOwned \<Longrightarrow>
    placement_step w (w\<lparr>pw_store := st\<rparr>)"
| fence_end: "fencing w s = Some p \<Longrightarrow> fence_finish io (pw_store w) s p = Some (st, res) \<Longrightarrow>
    placement_step w (w\<lparr>pw_store := st, fencing := (fencing w)(s := None)\<rparr>)"
| restart: "store_open (sidecar_file (pw_store w)) = Inr st \<Longrightarrow>
    placement_step w \<lparr>pw_store = st, leases = [], fencing = Map.empty\<rparr>"

definition placement_start :: placement_world where
  "placement_start = \<lparr>pw_store = from_persisted Missing [], leases = [], fencing = Map.empty\<rparr>"

inductive placement_reachable :: "placement_world \<Rightarrow> bool" where
  init: "placement_reachable placement_start"
| step: "placement_reachable w \<Longrightarrow> placement_step w w' \<Longrightarrow> placement_reachable w'"

text \<open>The placement of a stream that a restart would read.\<close>

definition sidecar_map :: "sidecar \<Rightarrow> (string, placement_epoch) bt" where
  "sidecar_map f = (case f of Document _ m \<Rightarrow> m | _ \<Rightarrow> [])"

definition placed :: "(string, placement_epoch) bt \<Rightarrow> string \<Rightarrow> placement_epoch" where
  "placed m s = (case bt_get m s of Some p \<Rightarrow> p | None \<Rightarrow> bootstrap)"

text \<open>What a lookup of the gate of \<open>s\<close> would find.\<close>

definition gate_of :: "placement_store \<Rightarrow> string \<Rightarrow> gate_state" where
  "gate_of st s = (case bt_get (gates st) s of
     Some g \<Rightarrow> g
   | None \<Rightarrow> \<lparr>g_placement = durable_placement st s, admitted = 0, transitioning = False\<rparr>)"

definition valid_streams :: "(string, placement_epoch) bt \<Rightarrow> bool" where
  "valid_streams m \<longleftrightarrow> bt_wf m \<and>
     (\<forall>s p. map_of m s = Some p \<longrightarrow> trim s \<noteq> [] \<and> validate_epoch p = Inr ())"

text \<open>The sidecar holds the state of the store, unless an uncertain write has failed it closed; then
  it may be ahead of the store, never behind.\<close>

definition sidecar_inv :: "placement_store \<Rightarrow> bool" where
  "sidecar_inv st \<longleftrightarrow> valid_streams (persisted st) \<and>
     (sidecar_file st = Missing \<and> persisted st = [] \<or>
      (\<exists>m. sidecar_file st = Document PLACEMENT_STATE_VERSION m \<and> valid_streams m \<and>
         (\<forall>s. placed m s = placed (persisted st) s \<or> epoch (placed (persisted st) s) < epoch (placed m s)) \<and>
         (\<not> failed_closed st \<longrightarrow> m = persisted st)))"

text \<open>Every gate has the durable placement, counts the leases that are out, and has its transition
  bit set exactly while a fence owns it.\<close>

definition gate_inv :: "placement_world \<Rightarrow> string \<Rightarrow> bool" where
  "gate_inv w s \<longleftrightarrow>
     g_placement (gate_of (pw_store w) s) = placed (persisted (pw_store w)) s \<and>
     admitted (gate_of (pw_store w) s) = length (filter (\<lambda>l. fst l = s) (leases w)) \<and>
     transitioning (gate_of (pw_store w) s) = (fencing w s \<noteq> None) \<and>
     (\<forall>p. (s, p) \<in> set (leases w) \<longrightarrow> p = placed (persisted (pw_store w)) s) \<and>
     (\<forall>p. fencing w s = Some p \<longrightarrow> epoch (placed (persisted (pw_store w)) s) < epoch p \<and>
          trim s \<noteq> [] \<and> validate_epoch p = Inr ())"

definition placement_inv :: "placement_world \<Rightarrow> bool" where
  "placement_inv w \<longleftrightarrow> (\<forall>s. gate_inv w s) \<and> sidecar_inv (pw_store w)"

definition demo_fence :: placement_epoch where
  "demo_fence = \<lparr>epoch = 1, route_digest = ''r''\<rparr>"

definition demo_leased :: placement_world where
  "demo_leased = placement_start\<lparr>pw_store := fst (admit (pw_store placement_start) ''s'' bootstrap),
     leases := [(''s'', bootstrap)]\<rparr>"

definition demo_fencing :: placement_world where
  "demo_fencing = demo_leased\<lparr>pw_store := fst (fence_begin (pw_store demo_leased) ''s'' demo_fence),
     fencing := [''s'' \<mapsto> demo_fence]\<rparr>"

definition demo_drained :: placement_world where
  "demo_drained = demo_fencing\<lparr>pw_store := release_lease (pw_store demo_fencing) ''s'', leases := []\<rparr>"

section \<open>Gates\<close>

lemma durable_gates [simp]: "durable_placement (st\<lparr>gates := gs\<rparr>) = durable_placement st"
  by (simp add: durable_placement_def fun_eq_iff)

lemma durable_set_gate [simp]: "durable_placement (set_gate st s g) = durable_placement st"
  by (simp add: set_gate_def)

lemma gate_of_set_gate [simp]: "gate_of (set_gate st s g) = (gate_of st)(s := g)"
  by (auto simp: gate_of_def set_gate_def map_of_bt_insert fun_eq_iff split: option.split)

lemma set_gate_fields [simp]:
  "sidecar_file (set_gate st s g) = sidecar_file st" "persisted (set_gate st s g) = persisted st"
  "failed_closed (set_gate st s g) = failed_closed st"
  by (simp_all add: set_gate_def)

lemma gate_result:
  assumes "gate st s = Inr (st', g)"
  shows "trim s \<noteq> [] \<and> g = gate_of st s \<and> (st' = st \<or> st' = set_gate st s g)"
proof -
  have ne: "trim s \<noteq> []" using assms by (auto simp: gate_def)
  show ?thesis
  proof (cases "bt_get (gates st) s")
    case None
    then show ?thesis using assms ne by (auto simp: gate_def gate_of_def set_gate_def Let_def)
  next
    case (Some g')
    then show ?thesis using assms ne by (auto simp: gate_def gate_of_def)
  qed
qed

lemma gate_cases:
  assumes "gate st s = Inr (st', g)"
  shows "g = gate_of st s" "gate_of st' = gate_of st" "trim s \<noteq> []"
    "sidecar_file st' = sidecar_file st" "persisted st' = persisted st" "failed_closed st' = failed_closed st"
    "durable_placement st' = durable_placement st"
  using gate_result [OF assms] by auto

lemma admit_cases:
  assumes "admit st s p = (st', res)"
  obtains (refused) e where "res = Inl e" "gate_of st' = gate_of st" "durable_placement st' = durable_placement st"
      "sidecar_file st' = sidecar_file st" "persisted st' = persisted st" "failed_closed st' = failed_closed st"
    | (ok) "res = Inr p" "\<not> failed_closed st" "\<not> transitioning (gate_of st s)" "p = g_placement (gate_of st s)"
      "gate_of st' = (gate_of st)(s := (gate_of st s)\<lparr>admitted := saturating_add_u64 (admitted (gate_of st s)) 1\<rparr>)"
      "durable_placement st' = durable_placement st"
      "sidecar_file st' = sidecar_file st" "persisted st' = persisted st" "failed_closed st' = failed_closed st"
proof (cases "bind_result (ensure_healthy st) (\<lambda>_. bind_result (validate_epoch p) (\<lambda>_. gate st s))")
  case (Inl e)
  then have "res = Inl e" "st' = st" using assms by (auto simp: admit_def)
  then show ?thesis by (intro refused [of e]) simp_all
next
  case (Inr a)
  obtain st1 g where a: "a = (st1, g)" by fastforce
  have h: "\<not> failed_closed st" and g: "gate st s = Inr (st1, g)"
    using Inr a by (auto simp: bind_result_Inr_iff ensure_healthy_def split: if_splits)
  note gc = gate_cases [OF g]
  show ?thesis
  proof (cases "transitioning g")
    case True
    then show ?thesis using assms Inr a gc by (intro refused [of Transitioning]) (auto simp: admit_def)
  next
    case False
    show ?thesis
    proof (cases "compare_admission (g_placement g) p")
      case (Inl e)
      then show ?thesis using assms a gc False \<open>bind_result _ _ = Inr a\<close>
        by (intro refused [of e]) (auto simp: admit_def)
    next
      case c: (Inr u)
      have "p = g_placement g"
        using c by (auto simp: compare_admission_def split: if_splits)
      then show ?thesis
        using assms ok h gc False c \<open>bind_result _ _ = Inr a\<close> a by (auto simp: admit_def fun_eq_iff)
    qed
  qed
qed

lemma fence_begin_cases:
  assumes "fence_begin st s p = (st', res)"
  obtains (other) "res \<noteq> Inr FenceOwned" "gate_of st' = gate_of st" "durable_placement st' = durable_placement st"
      "sidecar_file st' = sidecar_file st" "persisted st' = persisted st" "failed_closed st' = failed_closed st"
    | (owned) "res = Inr FenceOwned" "\<not> transitioning (gate_of st s)" "epoch (g_placement (gate_of st s)) < epoch p"
      "validate_epoch p = Inr ()" "trim s \<noteq> []"
      "gate_of st' = (gate_of st)(s := (gate_of st s)\<lparr>transitioning := True\<rparr>)"
      "durable_placement st' = durable_placement st"
      "sidecar_file st' = sidecar_file st" "persisted st' = persisted st" "failed_closed st' = failed_closed st"
proof (cases "bind_result (ensure_healthy st) (\<lambda>_. bind_result (validate_epoch p) (\<lambda>_. gate st s))")
  case (Inl e)
  then have "res = Inl e" "st' = st" using assms by (auto simp: fence_begin_def)
  then show ?thesis by (intro other) simp_all
next
  case (Inr a)
  obtain st1 g where a: "a = (st1, g)" by fastforce
  have v: "validate_epoch p = Inr ()" and g: "gate st s = Inr (st1, g)"
    using Inr a by (auto simp: bind_result_Inr_iff)
  note gc = gate_cases [OF g]
  show ?thesis
  proof (cases "res = Inr FenceOwned")
    case True
    then show ?thesis
      using assms owned v gc Inr a by (auto simp: fence_begin_def fun_eq_iff split: if_splits)
  next
    case False
    then show ?thesis
      using assms other gc Inr a by (auto simp: fence_begin_def split: if_splits)
  qed
qed

lemma fence_finish_cases:
  assumes "fence_finish io st s p = Some (st', res)" "g_placement (gate_of st s) = durable_placement st s"
  obtains (failed) e f where "res = Inl e" "admitted (gate_of st s) = 0" "failed_closed st'"
      "gate_of st' = (gate_of st)(s := (gate_of st s)\<lparr>transitioning := False\<rparr>)"
      "persisted st' = persisted st" "sidecar_file st' = f"
      "f = sidecar_file st \<or> \<not> failed_closed st \<and> f = Document PLACEMENT_STATE_VERSION (bt_insert s p (persisted st))"
    | (installed) "res = Inr ()" "admitted (gate_of st s) = 0" "\<not> failed_closed st" "\<not> failed_closed st'"
      "gate_of st' = (gate_of st)(s := (gate_of st s)\<lparr>g_placement := p, transitioning := False\<rparr>)"
      "persisted st' = bt_insert s p (persisted st)"
      "sidecar_file st' = Document PLACEMENT_STATE_VERSION (bt_insert s p (persisted st))"
proof -
  obtain g where g: "bt_get (gates st) s = Some g" "admitted g = 0"
    using assms(1) by (auto simp: fence_finish_def split: option.splits if_splits)
  then have gs: "gate_of st s = g" by (simp add: gate_of_def)
  have agree: "(case bt_get (persisted st) s of Some q \<Rightarrow> q \<noteq> g_placement g | None \<Rightarrow> False) = False"
    using assms(2) gs by (auto simp: durable_placement_def split: option.splits)
  let ?open = "set_gate st s (g\<lparr>transitioning := False\<rparr>)"
  have upd: "gate_of (x\<lparr>failed_closed := b\<rparr>) = gate_of x" "gate_of (x\<lparr>sidecar_file := f\<rparr>) = gate_of x" for x b f
    by (simp_all add: gate_of_def durable_placement_def fun_eq_iff split: option.split)
  show ?thesis
  proof (cases "failed_closed st")
    case True
    then have "res = Inl (Storage ''placement store is fail-closed after an uncertain sidecar write'')" "st' = ?open"
      using assms(1) g by (auto simp: fence_finish_def Let_def)
    then show ?thesis using True g gs by (intro failed) simp_all
  next
    case False
    show ?thesis
    proof (cases io)
      case Persisted
      let ?n = "bt_insert s p (persisted st)"
      have r: "res = Inr ()" "st' = (set_gate st s (g\<lparr>g_placement := p, transitioning := False\<rparr>))
          \<lparr>sidecar_file := Document PLACEMENT_STATE_VERSION ?n, persisted := ?n\<rparr>"
        using assms(1) g agree False Persisted
        by (auto simp: fence_finish_def persist_state_def Let_def)
      have "gate_of st' = (gate_of st)(s := g\<lparr>g_placement := p, transitioning := False\<rparr>)"
        unfolding r(2)
        by (auto simp: gate_of_def set_gate_def map_of_bt_insert durable_placement_def fun_eq_iff split: option.split)
      then show ?thesis using r gs g False by (intro installed) simp_all
    next
      case (PersistFailed replaced e)
      have r: "res = Inl (Storage e)" "st' = ?open\<lparr>sidecar_file :=
          (if replaced then Document PLACEMENT_STATE_VERSION (bt_insert s p (persisted st)) else sidecar_file st),
          failed_closed := True\<rparr>"
        using assms(1) g agree False PersistFailed
        by (auto simp: fence_finish_def persist_state_def Let_def)
      show ?thesis
        by (rule failed [OF r(1)]) (auto simp: r(2) upd gs g False)
    qed
  qed
qed

section \<open>The invariant\<close>

lemma durable_placed: "durable_placement st s = placed (persisted st) s"
  by (simp add: durable_placement_def placed_def)

lemma placed_insert [simp]: "placed (bt_insert s p m) t = (if t = s then p else placed m t)"
  by (simp add: placed_def map_of_bt_insert)

lemma valid_streams_insert:
  "valid_streams m \<Longrightarrow> trim s \<noteq> [] \<Longrightarrow> validate_epoch p = Inr () \<Longrightarrow> valid_streams (bt_insert s p m)"
  by (auto simp: valid_streams_def map_of_bt_insert)

lemma validate_streams_iff:
  assumes "valid_streams m"
  shows "validate_streams m = Inr ()"
proof -
  have "distinct (map fst m)" using assms by (simp add: valid_streams_def bt_wf_distinct)
  then have "\<forall>(s, p) \<in> set m. trim s \<noteq> [] \<and> validate_epoch p = Inr ()"
    using assms by (auto simp: valid_streams_def)
  then show ?thesis by (induction m rule: validate_streams.induct) auto
qed

lemma store_open_valid:
  assumes "valid_streams m"
  shows "store_open (Document PLACEMENT_STATE_VERSION m) = Inr (from_persisted (Document PLACEMENT_STATE_VERSION m) m)"
  by (simp add: store_open_def read_state_def read_state_optional_def validate_streams_iff [OF assms])

lemma placement_inv_fresh:
  assumes "valid_streams m" "f = Document PLACEMENT_STATE_VERSION m \<or> f = Missing \<and> m = []"
  shows "placement_inv \<lparr>pw_store = from_persisted f m, leases = [], fencing = Map.empty\<rparr>"
  using assms by (auto simp: placement_inv_def gate_inv_def sidecar_inv_def from_persisted_def gate_of_def durable_placed)

lemma placement_inv_start: "placement_inv placement_start"
  unfolding placement_start_def by (rule placement_inv_fresh) (simp_all add: valid_streams_def)

lemma inv_same:
  assumes "placement_inv w" "gate_of st = gate_of (pw_store w)" "persisted st = persisted (pw_store w)"
    "sidecar_file st = sidecar_file (pw_store w)" "failed_closed st = failed_closed (pw_store w)"
  shows "placement_inv (w\<lparr>pw_store := st\<rparr>)"
  using assms by (simp add: placement_inv_def gate_inv_def sidecar_inv_def)

lemma inv_gates:
  assumes "placement_inv w" "sidecar_inv st"
    "\<And>t. t \<noteq> s \<Longrightarrow> gate_of st t = gate_of (pw_store w) t \<and> placed (persisted st) t = placed (persisted (pw_store w)) t
      \<and> fc t = fencing w t \<and> filter (\<lambda>l. fst l = t) ls = filter (\<lambda>l. fst l = t) (leases w)"
    "gate_inv \<lparr>pw_store = st, leases = ls, fencing = fc\<rparr> s"
  shows "placement_inv \<lparr>pw_store = st, leases = ls, fencing = fc\<rparr>"
proof -
  have "gate_inv \<lparr>pw_store = st, leases = ls, fencing = fc\<rparr> t" if "t \<noteq> s" for t
  proof -
    note eqs = assms(3) [OF that]
    have f: "filter (\<lambda>l. fst l = t) ls = filter (\<lambda>l. fst l = t) (leases w)"
      using eqs by blast
    have in_filter: "(t, p) \<in> set xs \<longleftrightarrow> (t, p) \<in> set (filter (\<lambda>l. fst l = t) xs)" for p xs
      by simp
    have "(t, p) \<in> set ls \<longleftrightarrow> (t, p) \<in> set (leases w)" for p
      using in_filter [of p ls] in_filter [of p "leases w"] unfolding f by blast
    moreover have "gate_inv w t" using assms(1) unfolding placement_inv_def by blast
    ultimately show ?thesis using eqs by (simp add: gate_inv_def)
  qed
  then have "gate_inv \<lparr>pw_store = st, leases = ls, fencing = fc\<rparr> t" for t
    by (cases "t = s") (simp_all only: assms(4))
  then show ?thesis by (simp add: placement_inv_def assms(2))
qed

lemma world_eq:
  "w\<lparr>pw_store := st, leases := ls\<rparr> = \<lparr>pw_store = st, leases = ls, fencing = fencing w\<rparr>"
  "w\<lparr>pw_store := st, fencing := fc\<rparr> = \<lparr>pw_store = st, leases = leases w, fencing = fc\<rparr>"
  by simp_all

lemma inv_admit:
  assumes "placement_inv w" "admit (pw_store w) s p = (st, Inr q)" "length (leases w) < u64_max"
  shows "placement_inv (w\<lparr>pw_store := st, leases := (s, q) # leases w\<rparr>)"
  using assms(2)
proof (cases rule: admit_cases)
  case ok
  have gi: "gate_inv w s" using assms(1) by (simp add: placement_inv_def)
  have "length (filter (\<lambda>l. fst l = s) (leases w)) \<le> length (leases w)" by simp
  then have "length (filter (\<lambda>l. fst l = s) (leases w)) < u64_max" using assms(3) by linarith
  then have n: "saturating_add_u64 (length (filter (\<lambda>l. fst l = s) (leases w))) 1 =
      Suc (length (filter (\<lambda>l. fst l = s) (leases w)))"
    by (simp add: saturating_add_u64_def)
  have "placement_inv \<lparr>pw_store = st, leases = (s, q) # leases w, fencing = fencing w\<rparr>"
  proof (rule inv_gates [OF assms(1)])
    show "sidecar_inv st" using assms(1) ok by (auto simp: placement_inv_def sidecar_inv_def)
    show "gate_inv \<lparr>pw_store = st, leases = (s, q) # leases w, fencing = fencing w\<rparr> s"
      using gi ok n by (auto simp: gate_inv_def)
  qed (use ok in auto)
  then show ?thesis by (simp add: world_eq)
qed simp

lemma inv_release:
  assumes "placement_inv w" "(s, p) \<in> set (leases w)"
  shows "placement_inv (w\<lparr>pw_store := release_lease (pw_store w) s, leases := remove1 (s, p) (leases w)\<rparr>)"
proof -
  have gi: "gate_inv w s" using assms(1) by (simp add: placement_inv_def)
  have in_f: "(s, p) \<in> set (filter (\<lambda>l. fst l = s) (leases w))" using assms(2) by simp
  then have "0 < admitted (gate_of (pw_store w) s)"
    using gi unfolding gate_inv_def by (metis length_pos_if_in_set)
  then obtain g where g: "bt_get (gates (pw_store w)) s = Some g"
    by (auto simp: gate_of_def split: option.splits)
  have r: "release_lease (pw_store w) s = set_gate (pw_store w) s ((gate_of (pw_store w) s)\<lparr>admitted := admitted (gate_of (pw_store w) s) - 1\<rparr>)"
    using g by (simp add: release_lease_def gate_of_def)
  have fil: "filter (\<lambda>l. fst l = t) (remove1 (s, p) (leases w)) =
      (if t = s then remove1 (s, p) (filter (\<lambda>l. fst l = s) (leases w)) else filter (\<lambda>l. fst l = t) (leases w))" for t
    by (auto simp: filter_remove1 remove1_idem)
  have "placement_inv \<lparr>pw_store = release_lease (pw_store w) s, leases = remove1 (s, p) (leases w), fencing = fencing w\<rparr>"
  proof (rule inv_gates [OF assms(1), where s = s])
    show "sidecar_inv (release_lease (pw_store w) s)"
      using assms(1) by (simp add: r placement_inv_def sidecar_inv_def)
    show "gate_inv \<lparr>pw_store = release_lease (pw_store w) s, leases = remove1 (s, p) (leases w), fencing = fencing w\<rparr> s"
      using gi in_f by (auto simp: gate_inv_def r fil length_remove1 dest: notin_set_remove1)
  qed (simp_all add: r fil)
  then show ?thesis by (simp add: world_eq)
qed

lemma inv_fence_owned:
  assumes "placement_inv w" "fence_begin (pw_store w) s p = (st, Inr FenceOwned)"
  shows "placement_inv (w\<lparr>pw_store := st, fencing := (fencing w)(s \<mapsto> p)\<rparr>)"
  using assms(2)
proof (cases rule: fence_begin_cases)
  case owned
  have gi: "gate_inv w s" using assms(1) by (simp add: placement_inv_def)
  have "placement_inv \<lparr>pw_store = st, leases = leases w, fencing = (fencing w)(s \<mapsto> p)\<rparr>"
  proof (rule inv_gates [OF assms(1)])
    show "sidecar_inv st" using assms(1) owned by (auto simp: placement_inv_def sidecar_inv_def)
    show "gate_inv \<lparr>pw_store = st, leases = leases w, fencing = (fencing w)(s \<mapsto> p)\<rparr> s"
      using gi owned by (auto simp: gate_inv_def)
  qed (use owned in auto)
  then show ?thesis by (simp add: world_eq)
qed simp

lemma inv_fence_end:
  assumes "placement_inv w" "fencing w s = Some p" "fence_finish io (pw_store w) s p = Some (st, res)"
  shows "placement_inv (w\<lparr>pw_store := st, fencing := (fencing w)(s := None)\<rparr>)"
proof -
  have gi: "gate_inv w s" using assms(1) by (simp add: placement_inv_def)
  have si: "sidecar_inv (pw_store w)" using assms(1) by (simp add: placement_inv_def)
  have p: "epoch (placed (persisted (pw_store w)) s) < epoch p" "trim s \<noteq> []" "validate_epoch p = Inr ()"
    using gi assms(2) by (auto simp: gate_inv_def)
  have vs: "valid_streams (bt_insert s p (persisted (pw_store w)))"
    using si p by (simp add: sidecar_inv_def valid_streams_insert)
  have dur: "g_placement (gate_of (pw_store w) s) = durable_placement (pw_store w) s"
    using gi by (simp add: gate_inv_def durable_placed)
  from assms(3) dur have "placement_inv \<lparr>pw_store = st, leases = leases w, fencing = (fencing w)(s := None)\<rparr>"
  proof (cases rule: fence_finish_cases)
    case (failed e f)
    show ?thesis
    proof (rule inv_gates [OF assms(1)])
      show "sidecar_inv st" using failed(7)
      proof
        assume "f = sidecar_file (pw_store w)"
        then show ?thesis using si failed by (auto simp: sidecar_inv_def)
      next
        assume "\<not> failed_closed (pw_store w) \<and> f = Document PLACEMENT_STATE_VERSION (bt_insert s p (persisted (pw_store w)))"
        then show ?thesis using si failed vs p by (auto simp: sidecar_inv_def)
      qed
      show "gate_inv \<lparr>pw_store = st, leases = leases w, fencing = (fencing w)(s := None)\<rparr> s"
        using gi failed by (auto simp: gate_inv_def)
    qed (use failed in auto)
  next
    case installed
    have none: "filter (\<lambda>l. fst l = s) (leases w) = []" using installed(2) gi by (simp add: gate_inv_def)
    then have "(s, q) \<notin> set (leases w)" for q by (auto simp: filter_empty_conv)
    then show ?thesis
    proof (intro inv_gates [OF assms(1)])
      show "sidecar_inv st" using si installed vs by (auto simp: sidecar_inv_def)
    qed (use installed gi none in \<open>auto simp: gate_inv_def\<close>)
  qed
  then show ?thesis by (simp add: world_eq)
qed

lemma inv_open:
  assumes "sidecar_inv st"
  shows "\<exists>m. store_open (sidecar_file st) = Inr (from_persisted (sidecar_file st) m) \<and> valid_streams m \<and>
    (sidecar_file st = Document PLACEMENT_STATE_VERSION m \<or> sidecar_file st = Missing \<and> m = []) \<and>
    (\<forall>s. placed m s = placed (persisted st) s \<or> epoch (placed (persisted st) s) < epoch (placed m s))"
proof (cases "sidecar_file st = Missing \<and> persisted st = []")
  case True
  then show ?thesis
    by (intro exI [of _ "[]"]) (simp add: store_open_def read_state_def read_state_optional_def valid_streams_def)
next
  case False
  then obtain m where m: "sidecar_file st = Document PLACEMENT_STATE_VERSION m" "valid_streams m"
      "\<forall>s. placed m s = placed (persisted st) s \<or> epoch (placed (persisted st) s) < epoch (placed m s)"
    using assms unfolding sidecar_inv_def by blast
  then show ?thesis using store_open_valid [OF m(2)] by (intro exI [of _ m]) simp
qed

lemma inv_restart:
  assumes "placement_inv w" "store_open (sidecar_file (pw_store w)) = Inr st"
  shows "placement_inv \<lparr>pw_store = st, leases = [], fencing = Map.empty\<rparr>"
proof -
  obtain m where m: "store_open (sidecar_file (pw_store w)) = Inr (from_persisted (sidecar_file (pw_store w)) m)"
      "valid_streams m" "sidecar_file (pw_store w) = Document PLACEMENT_STATE_VERSION m \<or>
        sidecar_file (pw_store w) = Missing \<and> m = []"
    using assms(1) inv_open [of "pw_store w"] unfolding placement_inv_def by blast
  then have "st = from_persisted (sidecar_file (pw_store w)) m" using assms(2) by simp
  then show ?thesis using placement_inv_fresh [OF m(2,3)] by simp
qed

lemma placement_inv_step:
  assumes "placement_step w w'" "placement_inv w"
  shows "placement_inv w'"
  using assms
proof (cases rule: placement_step.cases)
  case (admit_refused s p st e)
  from admit_refused(2) show ?thesis unfolding admit_refused(1)
    by (cases rule: admit_cases) (auto intro: inv_same [OF assms(2)])
next
  case (fence_other s p st res)
  from fence_other(2) show ?thesis unfolding fence_other(1)
    by (cases rule: fence_begin_cases) (use fence_other(3) in \<open>auto intro: inv_same [OF assms(2)]\<close>)
qed (auto intro: inv_admit inv_release inv_fence_owned inv_fence_end inv_restart)

lemma placement_reachable_inv: "placement_reachable w \<Longrightarrow> placement_inv w"
  by (induction rule: placement_reachable.induct) (auto intro: placement_inv_start placement_inv_step)

lemma step_placed:
  assumes "placement_inv w" "placement_step w w'"
  shows "placed (persisted (pw_store w')) s = placed (persisted (pw_store w)) s \<or>
    epoch (placed (persisted (pw_store w)) s) < epoch (placed (persisted (pw_store w')) s)"
  using assms(2)
proof (cases rule: placement_step.cases)
  case (fence_end t p io st res)
  have gi: "gate_inv w t" using assms(1) by (simp add: placement_inv_def)
  then have "g_placement (gate_of (pw_store w) t) = durable_placement (pw_store w) t"
    by (simp add: gate_inv_def durable_placed)
  with fence_end(3) show ?thesis
    by (cases rule: fence_finish_cases) (use gi fence_end in \<open>auto simp: gate_inv_def\<close>)
next
  case (restart st)
  have "sidecar_inv (pw_store w)" using assms(1) by (simp add: placement_inv_def)
  then obtain m where "store_open (sidecar_file (pw_store w)) = Inr (from_persisted (sidecar_file (pw_store w)) m)"
      "placed m s = placed (persisted (pw_store w)) s \<or> epoch (placed (persisted (pw_store w)) s) < epoch (placed m s)"
    using inv_open by blast
  then show ?thesis using restart by (auto simp: from_persisted_def)
qed (auto simp: release_lease_def split: option.splits elim!: admit_cases fence_begin_cases)

lemma admit_iff:
  assumes "\<not> failed_closed st" "\<not> transitioning (gate_of st s)" "trim s \<noteq> []" "validate_epoch (g_placement (gate_of st s)) = Inr ()"
  shows "(\<exists>r. snd (admit st s q) = Inr r) \<longleftrightarrow> q = g_placement (gate_of st s)"
proof
  assume "\<exists>r. snd (admit st s q) = Inr r"
  then obtain st' r where "admit st s q = (st', Inr r)" by (cases "admit st s q") auto
  then show "q = g_placement (gate_of st s)" by (cases rule: admit_cases) auto
next
  assume q: "q = g_placement (gate_of st s)"
  obtain st' g where g: "gate st s = Inr (st', g)"
    using assms(3) by (cases "bt_get (gates st) s") (auto simp: gate_def Let_def)
  then have "g = gate_of st s" by (rule gate_cases)
  then show "\<exists>r. snd (admit st s q) = Inr r"
    using assms g q by (simp add: admit_def ensure_healthy_def compare_admission_def)
qed

lemma admit_transitioning:
  assumes "transitioning (gate_of st s)"
  shows "\<exists>e. snd (admit st s q) = Inl e"
proof -
  obtain st' res where r: "admit st s q = (st', res)" by fastforce
  then show ?thesis by (cases rule: admit_cases) (use r assms in auto)
qed


lemma no_lease: "filter (\<lambda>l. fst l = s) ls = [] \<longleftrightarrow> (\<nexists>q. (s, q) \<in> set ls)"
  by (auto simp: filter_empty_conv)


section \<open>The properties\<close>

lemmas demo_defs = placement_start_def demo_leased_def demo_fencing_def demo_drained_def demo_fence_def bootstrap_def
  from_persisted_def admit_def fence_begin_def release_lease_def fence_finish_def ensure_healthy_def validate_epoch_def
  gate_def set_gate_def durable_placement_def compare_admission_def saturating_add_u64_def u64_max_def u64_bound_def
  persist_state_def trim_def is_ws_def Let_def

lemma demo_admit: "admit (pw_store placement_start) ''s'' bootstrap = (pw_store demo_leased, Inr bootstrap)"
  by (simp add: demo_defs)

lemma demo_begin: "fence_begin (pw_store demo_leased) ''s'' demo_fence = (pw_store demo_fencing, Inr FenceOwned)"
  by (simp add: demo_defs)

lemma demo_step1: "placement_step placement_start demo_leased"
  using placement_step.admit_ok [OF demo_admit] by (simp add: demo_leased_def placement_start_def u64_max_def u64_bound_def)

lemma demo_step2: "placement_step demo_leased demo_fencing"
  using placement_step.fence_owned [OF demo_begin] by (simp add: demo_fencing_def demo_leased_def placement_start_def)

lemma demo_step3: "placement_step demo_fencing demo_drained"
  using placement_step.release [of "''s''" bootstrap demo_fencing]
  by (simp add: demo_drained_def demo_fencing_def demo_leased_def placement_start_def)

lemma demo_reachable:
  "placement_reachable demo_leased" "placement_reachable demo_fencing" "placement_reachable demo_drained"
  using placement_reachable.init demo_step1 demo_step2 demo_step3 by (blast intro: placement_reachable.step)+

lemma demo_owned: "fencing demo_fencing ''s'' = Some demo_fence" "fencing demo_drained ''s'' = Some demo_fence"
  by (simp_all add: demo_drained_def demo_fencing_def)

lemma demo_finish: "map_option snd (fence_finish Persisted (pw_store demo_drained) ''s'' demo_fence) = Some (Inr ())"
  by (simp add: demo_defs)

text \<open>C2: In every run of admissions, releases, fences (with every outcome of the sidecar write) and
  restarts, when a fence has installed a placement of a stream, no lease on the stream is out, the
  placement is the one the sidecar holds, and from then on an append of the stream is admitted under
  exactly that placement.\<close>

theorem installed_fence_excludes_old_placement:
  assumes "placement_reachable w" "fencing w s = Some p"
    "fence_finish io (pw_store w) s p = Some (st, Inr ())"
  shows "(\<nexists>q. (s, q) \<in> set (leases w)) \<and>
    sidecar_file st = Document PLACEMENT_STATE_VERSION (persisted st) \<and> placed (persisted st) s = p \<and>
    (\<forall>q. (\<exists>r. snd (admit st s q) = Inr r) \<longleftrightarrow> q = p)"
proof -
  have inv: "placement_inv w" using assms(1) by (rule placement_reachable_inv)
  then have gi: "gate_inv w s" by (simp add: placement_inv_def)
  then have g: "g_placement (gate_of (pw_store w) s) = durable_placement (pw_store w) s"
    by (simp add: gate_inv_def durable_placed)
  from assms(3) g show ?thesis
  proof (cases rule: fence_finish_cases)
    case installed
    have "filter (\<lambda>l. fst l = s) (leases w) = []" using installed(2) gi by (simp add: gate_inv_def)
    then have "\<nexists>q. (s, q) \<in> set (leases w)" by (simp add: no_lease)
    then show ?thesis
      using installed gi assms(2) admit_iff [of st s] by (auto simp: gate_inv_def)
  qed simp
qed

theorem installed_fence_excludes_old_placement_witness:
  "\<exists>st. fence_finish Persisted (pw_store demo_drained) ''s'' demo_fence = Some (st, Inr ()) \<and>
     placed (persisted st) ''s'' = demo_fence \<and> \<not> (\<exists>r. snd (admit st ''s'' bootstrap) = Inr r)"
proof -
  obtain st where st: "fence_finish Persisted (pw_store demo_drained) ''s'' demo_fence = Some (st, Inr ())"
    using demo_finish by (cases "fence_finish Persisted (pw_store demo_drained) ''s'' demo_fence") auto
  have "bootstrap \<noteq> demo_fence" by (simp add: bootstrap_def demo_fence_def)
  then show ?thesis
    using installed_fence_excludes_old_placement [OF demo_reachable(3) demo_owned(2) st] st by auto
qed

text \<open>C16: Every lease that is out carries exactly the placement the store has for its stream, also
  while a fence is waiting, and while a fence owns the stream no further append is admitted.\<close>

theorem leases_carry_current_placement:
  assumes "placement_reachable w"
  shows "(\<forall>s p. (s, p) \<in> set (leases w) \<longrightarrow> p = placed (persisted (pw_store w)) s) \<and>
    (\<forall>s q. fencing w s \<noteq> None \<longrightarrow> (\<exists>e. snd (admit (pw_store w) s q) = Inl e))"
proof -
  have gi: "gate_inv w s" for s
    using placement_reachable_inv [OF assms] by (simp add: placement_inv_def)
  show ?thesis
  proof (intro conjI allI impI)
    fix s p assume "(s, p) \<in> set (leases w)"
    then show "p = placed (persisted (pw_store w)) s" using gi [of s] by (simp add: gate_inv_def)
  next
    fix s q assume "fencing w s \<noteq> None"
    then have "transitioning (gate_of (pw_store w) s)" using gi [of s] by (simp add: gate_inv_def)
    then show "\<exists>e. snd (admit (pw_store w) s q) = Inl e" by (rule admit_transitioning)
  qed
qed

theorem leases_carry_current_placement_witness:
  "(''s'', bootstrap) \<in> set (leases demo_fencing) \<and> bootstrap = placed (persisted (pw_store demo_fencing)) ''s'' \<and>
   (\<exists>e. snd (admit (pw_store demo_fencing) ''s'' bootstrap) = Inl e)"
proof -
  have "(''s'', bootstrap) \<in> set (leases demo_fencing)" by (simp add: demo_fencing_def demo_leased_def)
  then show ?thesis using leases_carry_current_placement [OF demo_reachable(2)] demo_owned by blast
qed

text \<open>C17: The placement of a stream never goes back and never changes within an epoch: each step of
  a run, a restart from the sidecar after a failed write included, keeps it or moves it to a strictly
  larger epoch.\<close>

theorem placement_epochs_grow:
  assumes "placement_reachable w" "placement_step w w'"
  shows "placed (persisted (pw_store w')) s = placed (persisted (pw_store w)) s \<or>
    epoch (placed (persisted (pw_store w)) s) < epoch (placed (persisted (pw_store w')) s)"
  using placement_reachable_inv [OF assms(1)] assms(2) by (rule step_placed)

theorem placement_epochs_grow_witness:
  "placed (persisted (pw_store demo_drained)) ''s'' = placed (persisted (pw_store demo_fencing)) ''s'' \<or>
   epoch (placed (persisted (pw_store demo_fencing)) ''s'') < epoch (placed (persisted (pw_store demo_drained)) ''s'')"
  by (rule placement_epochs_grow [OF demo_reachable(2) demo_step3])

text \<open>C32: The sidecar of every run can be reopened, whatever became of the last write: the store it
  gives is healthy and has, for every stream, the placement of before or one of a larger epoch.\<close>

theorem sidecar_always_reopens:
  assumes "placement_reachable w"
  shows "\<exists>st. store_open (sidecar_file (pw_store w)) = Inr st \<and> \<not> failed_closed st \<and>
    (\<forall>s. placed (persisted st) s = placed (persisted (pw_store w)) s \<or>
         epoch (placed (persisted (pw_store w)) s) < epoch (placed (persisted st) s))"
proof -
  have "sidecar_inv (pw_store w)"
    using placement_reachable_inv [OF assms] by (simp add: placement_inv_def)
  then obtain m where "store_open (sidecar_file (pw_store w)) = Inr (from_persisted (sidecar_file (pw_store w)) m)"
    "\<And>s. placed m s = placed (persisted (pw_store w)) s \<or> epoch (placed (persisted (pw_store w)) s) < epoch (placed m s)"
    using inv_open by blast
  then show ?thesis by (auto simp: from_persisted_def)
qed

theorem sidecar_always_reopens_witness:
  "\<exists>st. store_open (sidecar_file (pw_store demo_fencing)) = Inr st \<and> \<not> failed_closed st"
  using sidecar_always_reopens [OF demo_reachable(2)] by blast



end
