(* ===== verification/Manifest.thy ===== *)
theory Manifest
  imports Records Placement_Store
begin

text \<open>
  The placement manifest (\<open>crates/walleye-bitr-server/src/lib.rs\<close>): members and cohorts, the immutable
  stream ranges that route a log sequence number to a cohort, and the checks every manifest passes.
  SHA-256 and the JSON encoder are parameters, the fields of \<open>external\<close>.
\<close>

section \<open>Definitions\<close>

definition REPLICATION_FACTOR :: nat where "REPLICATION_FACTOR = 3"

definition MANIFEST_VERSION :: nat where "MANIFEST_VERSION = 1"

datatype member_status = MJoining | MActive | MDraining | MRemoved

record durable_member =
  dm_id :: string
  dm_url :: string
  dm_status :: member_status
  dm_cohort_id :: nat
  dm_name :: string
  dm_machine_id :: string
  dm_volume_id :: string
  dm_ordinal :: nat
  dm_tier :: string
  dm_max_append_bytes :: nat

datatype cohort_status = CJoining | CActive | CDraining | CRetired

record durable_cohort =
  dc_id :: nat
  dc_members :: "string list"
  dc_status :: cohort_status
  dc_tier :: string
  dc_max_append_bytes :: nat

record stream_segment =
  start_lsn :: nat
  end_lsn :: "nat option"
  cohort_id :: nat
  member_ids :: "string list"
  member_hash :: string
  seg_writer_epoch :: nat
  manifest_revision :: nat
  seg_placement_epoch :: nat
  operation_id :: string
  seg_tier :: string
  max_append_bytes :: nat

type_synonym segments = "(string, stream_segment list) bt"

record replica_manifest =
  rm_version :: nat
  rm_revision :: nat
  rm_digest :: string
  rm_writer_epoch :: nat
  rm_cohort_id :: nat
  rm_member_set_hash :: string
  rm_write_cohort_id :: nat
  rm_segments :: segments
  rm_operation_id :: string
  rm_tier :: string
  rm_max_append_bytes :: nat

record external =
  x_sha256 :: "byte list \<Rightarrow> byte list"
  x_json_segments :: "segments \<Rightarrow> byte list"

definition hex_digit :: "nat \<Rightarrow> char" where
  "hex_digit n = char_of (if n < 10 then 48 + n else 87 + n)"

definition hex_encode :: "byte list \<Rightarrow> string" where
  "hex_encode bs = concat (map (\<lambda>b. [hex_digit (unat b div 16), hex_digit (unat b mod 16)]) bs)"

definition route_digest_input :: "string \<Rightarrow> stream_segment \<Rightarrow> byte list" where
  "route_digest_input s route =
     as_bytes ''lakeday-cloud/stream-placement/v1'' @ [0] @ as_bytes s @ [0] @
     to_le_bytes 8 (start_lsn route) @ to_le_bytes 8 (cohort_id route) @ to_le_bytes 8 (seg_writer_epoch route) @
     concat (map (\<lambda>m. as_bytes m @ [0]) (member_ids route))"

definition placement_for_route :: "(byte list \<Rightarrow> byte list) \<Rightarrow> string \<Rightarrow> stream_segment \<Rightarrow> placement_epoch" where
  "placement_for_route sha256 s route =
     \<lparr>epoch = (if seg_placement_epoch route = 0 then max (manifest_revision route) 1 else seg_placement_epoch route),
      route_digest = hex_encode (sha256 (route_digest_input s route))\<rparr>"

definition members_hash :: "'a external_scheme \<Rightarrow> durable_member list \<Rightarrow> string" where
  "members_hash x ms =
     hex_encode (x_sha256 x (as_bytes ''lakeday-cloud/cohort-members/v1'' @ [0] @
       concat (map (\<lambda>m. as_bytes (dm_id m) @ [0] @ as_bytes (dm_url m) @ [0]) ms)))"

definition manifest_digest :: "'a external_scheme \<Rightarrow> segments \<Rightarrow> string" where
  "manifest_digest x segs =
     hex_encode (x_sha256 x (as_bytes ''lakeday-cloud/replica-manifest/v1'' @ [0] @ x_json_segments x segs))"

text \<open>The loop over the ranges of one stream; \<open>expected\<close> is where the next range has to start.\<close>

fun validate_ranges :: "nat \<Rightarrow> stream_segment list \<Rightarrow> (unit, replica_error) result" where
  "validate_ranges expected [] = Inr ()"
| "validate_ranges expected (g # gs) =
     (if start_lsn g \<noteq> expected
         \<or> (case end_lsn g of Some e \<Rightarrow> e < start_lsn g | None \<Rightarrow> gs \<noteq> [])
         \<or> \<not> ascending (member_ids g)
      then Inl (Protocol ''placement manifest stream ranges are not contiguous'')
      else if member_ids g = [] \<or> member_hash g = [] \<or> manifest_revision g = 0 \<or> trim (operation_id g) = []
      then Inl (Protocol ''placement manifest stream range is missing its member binding'')
      else if length (member_ids g) \<noteq> REPLICATION_FACTOR
      then Inl (Protocol ''placement manifest stream range must have exactly three members'')
      else case end_lsn g of
          None \<Rightarrow> Inr ()
        | Some e \<Rightarrow>
            (case checked_add_u64 e 1 of
               None \<Rightarrow> Inl (Protocol ''placement manifest LSN range exhausted'')
             | Some n \<Rightarrow> validate_ranges n gs))"

definition validate_stream_segments :: "segments \<Rightarrow> (unit, replica_error) result" where
  "validate_stream_segments segs =
     check_all (\<lambda>(s, gs).
       if trim s = [] \<or> gs = [] then Inl (Protocol ''placement manifest contains an invalid stream range map'')
       else validate_ranges 1 gs) segs"

definition manifest_validate :: "'a external_scheme \<Rightarrow> replica_manifest \<Rightarrow> (unit, replica_error) result" where
  "manifest_validate x m =
     (if rm_version m \<noteq> MANIFEST_VERSION then Inl (Protocol ''unsupported replica placement manifest version'')
      else if rm_revision m = 0
      then (if rm_operation_id m \<noteq> [] \<or> rm_segments m \<noteq> [] \<or> rm_writer_epoch m \<noteq> 0 \<or> rm_cohort_id m \<noteq> 0
               \<or> rm_member_set_hash m \<noteq> [] \<or> rm_write_cohort_id m \<noteq> 0 \<or> rm_tier m \<noteq> []
               \<or> rm_max_append_bytes m \<noteq> 0
            then Inl (Protocol ''non-empty placement manifest has zero revision'') else Inr ())
      else if trim (rm_operation_id m) = [] then Inl (Protocol ''placement manifest operation_id must not be empty'')
      else if rm_member_set_hash m = [] then Inl (Protocol ''placement manifest is missing its member-set hash'')
      else if rm_digest m \<noteq> manifest_digest x (rm_segments m)
      then Inl (Protocol ''placement manifest digest does not match its ranges'')
      else validate_stream_segments (rm_segments m))"

definition covers :: "stream_segment \<Rightarrow> nat \<Rightarrow> bool" where
  "covers g l \<longleftrightarrow> start_lsn g \<le> l \<and> (case end_lsn g of None \<Rightarrow> True | Some e \<Rightarrow> l \<le> e)"

definition manifest_route :: "replica_manifest \<Rightarrow> string \<Rightarrow> nat \<Rightarrow> stream_segment option" where
  "manifest_route m s l =
     (case bt_get (rm_segments m) s of None \<Rightarrow> None | Some gs \<Rightarrow> find (\<lambda>g. covers g l) gs)"

section \<open>Ranges of a valid manifest\<close>

lemma validate_ranges_member:
  "validate_ranges n gs = Inr () \<Longrightarrow> g \<in> set gs \<Longrightarrow> length (member_ids g) = REPLICATION_FACTOR \<and> ascending (member_ids g)"
proof (induction n gs rule: validate_ranges.induct)
  case (2 n g' gs)
  then show ?case by (cases "end_lsn g'") (auto split: if_splits option.splits)
qed simp

lemma validate_ranges_adjacent:
  "validate_ranges n gs = Inr () \<Longrightarrow> Suc i < length gs \<Longrightarrow>
   \<exists>e. end_lsn (gs ! i) = Some e \<and> start_lsn (gs ! i) \<le> e \<and> start_lsn (gs ! Suc i) = e + 1"
proof (induction n gs arbitrary: i rule: validate_ranges.induct)
  case (2 n g gs)
  obtain e m where e: "end_lsn g = Some e" "checked_add_u64 e 1 = Some m" "start_lsn g \<le> e" "validate_ranges m gs = Inr ()"
    using 2(2,3) by (auto split: if_splits option.splits)
  then have m: "m = e + 1" by (auto simp: checked_add_u64_Some_iff)
  show ?case
  proof (cases i)
    case 0
    then show ?thesis using e m 2(3) by (cases gs) (auto split: if_splits)
  next
    case (Suc j)
    have "length (member_ids g) = REPLICATION_FACTOR \<and> ascending (member_ids g)" by (rule validate_ranges_member [OF 2(2)]) simp
    then show ?thesis using 2(1) [OF _ _ _ e(1,2,4), of j] 2(2,3) Suc by (auto split: if_splits)
  qed
qed simp

lemma manifest_validate_ranges:
  assumes "manifest_validate x m = Inr ()" "bt_get (rm_segments m) s = Some gs"
  shows "validate_ranges 1 gs = Inr ()" "gs \<noteq> []"
proof -
  have "rm_revision m \<noteq> 0" using assms by (auto simp: manifest_validate_def split: if_splits)
  then have "validate_stream_segments (rm_segments m) = Inr ()" using assms(1) by (auto simp: manifest_validate_def split: if_splits)
  then have "(if trim s = [] \<or> gs = [] then Inl (Protocol ''placement manifest contains an invalid stream range map'')
       else validate_ranges 1 gs) = Inr ()"
    using map_of_SomeD [OF assms(2)] unfolding validate_stream_segments_def check_all_ok by fast
  then show "validate_ranges 1 gs = Inr ()" "gs \<noteq> []" by (auto split: if_splits)
qed

end
