(* ===== verification/Disk_Replica.thy ===== *)
theory Disk_Replica
  imports Node_Log Placement_Store Manifest
begin

text \<open>
  A storage node (\<open>crates/walleye-bitr-server/src/lib.rs\<close>, \<open>DiskReplica\<close>): its append log with the
  indexes kept beside it, the durable maintenance fence, and the placement gates it admits appends
  through. Every operation is a function on \<open>disk_replica\<close> that returns the new state with the
  result; the outcome of a file operation is an argument, \<open>write_outcome\<close> for the log,
  \<open>persist_outcome\<close> for the maintenance marker and \<open>compact_outcome\<close> for a compaction. The mutex
  makes each of them one step; an append is its admission, its body and the end of its lease.
  Reads of the file and of its metadata do not fail here, and no lock is poisoned. Of the control
  document the node reads the fields of \<open>control_view\<close>.
\<close>

section \<open>Definitions\<close>

record control_view =
  placement_initialized :: bool
  control_head_revision :: nat
  control_head_digest :: string
  stream_segments :: "(string, stream_segment list) bt"

subsection \<open>The maintenance fence\<close>

definition MAINTENANCE_MARKER_VERSION :: nat where "MAINTENANCE_MARKER_VERSION = 1"

record maintenance_fence =
  mf_owner :: string
  mf_generation :: nat
  mf_signature :: string

record maintenance_state =
  ms_version :: nat
  ms_generation :: nat
  ms_active :: "maintenance_fence option"
  last_released :: "maintenance_fence option"

record maintenance_token =
  mt_owner :: string
  mt_generation :: nat
  mt_signature :: string

record maintenance_status =
  st_active :: bool
  st_owner :: "string option"
  st_generation :: nat

datatype marker_file =
    MarkerMissing
  | MarkerUnreadable string
  | MarkerGarbage string
  | Marker maintenance_state

definition maintenance_default :: maintenance_state where
  "maintenance_default =
     \<lparr>ms_version = MAINTENANCE_MARKER_VERSION, ms_generation = 0, ms_active = None, last_released = None\<rparr>"

definition fence_status :: "maintenance_state \<Rightarrow> maintenance_status" where
  "fence_status m =
     \<lparr>st_active = (ms_active m \<noteq> None), st_owner = map_option mf_owner (ms_active m), st_generation = ms_generation m\<rparr>"

definition marker :: "maintenance_token \<Rightarrow> maintenance_fence" where
  "marker t = \<lparr>mf_owner = mt_owner t, mf_generation = mt_generation t, mf_signature = mt_signature t\<rparr>"

definition fence_invalid :: "maintenance_state \<Rightarrow> maintenance_fence option \<Rightarrow> bool" where
  "fence_invalid m f = (case f of None \<Rightarrow> False
     | Some x \<Rightarrow> mf_generation x \<noteq> ms_generation m \<or> trim (mf_owner x) = [] \<or> trim (mf_signature x) = [])"

definition read_maintenance_state :: "marker_file \<Rightarrow> (maintenance_state, replica_error) result" where
  "read_maintenance_state f =
     (case f of
        MarkerMissing \<Rightarrow> Inr maintenance_default
      | MarkerUnreadable e \<Rightarrow> Inl (NodeStorage e)
      | MarkerGarbage e \<Rightarrow> Inl (NodeStorage (''invalid maintenance marker: '' @ e))
      | Marker m \<Rightarrow>
          if ms_version m \<noteq> MAINTENANCE_MARKER_VERSION \<or> fence_invalid m (ms_active m) \<or> fence_invalid m (last_released m)
          then Inl (NodeStorage ''invalid maintenance marker generation or version'')
          else Inr m)"

definition persist_maintenance_state ::
  "persist_outcome \<Rightarrow> marker_file \<Rightarrow> maintenance_state \<Rightarrow> marker_file \<times> (unit, replica_error) result" where
  "persist_maintenance_state io f m =
     (case io of
        Persisted \<Rightarrow> (Marker m, Inr ())
      | PersistFailed replaced e \<Rightarrow> (if replaced then Marker m else f, Inl (NodeStorage e)))"

subsection \<open>The node\<close>

datatype write_outcome = Written | WriteFailed nat bool string

datatype compact_outcome = Compacted | CompactFailed string | CompactUnsynced string

record disk_replica =
  log_file :: "byte list"
  idx :: node_index
  maintenance :: maintenance_state
  maintenance_file :: marker_file
  log_max_bytes :: "nat option"
  node_name :: string
  control :: "control_view option"
  placement :: "placement_store option"

definition write_log :: "write_outcome \<Rightarrow> byte list \<Rightarrow> byte list \<Rightarrow> byte list \<times> (unit, replica_error) result" where
  "write_log io f bytes =
     (case io of
        Written \<Rightarrow> (f @ bytes, Inr ())
      | WriteFailed n _ e \<Rightarrow> (f @ take n bytes, Inl (NodeStorage e)))"

definition maintenance_status :: "disk_replica \<Rightarrow> maintenance_status" where
  "maintenance_status d = fence_status (maintenance d)"

definition set_maintenance ::
  "persist_outcome \<Rightarrow> disk_replica \<Rightarrow> maintenance_state \<Rightarrow> disk_replica \<times> (unit, replica_error) result" where
  "set_maintenance io d m =
     (case persist_maintenance_state io (maintenance_file d) m of
        (f, Inl e) \<Rightarrow> (d\<lparr>maintenance_file := f\<rparr>, Inl e)
      | (f, Inr _) \<Rightarrow> (d\<lparr>maintenance_file := f, maintenance := m\<rparr>, Inr ()))"

definition fence :: "persist_outcome \<Rightarrow> disk_replica \<Rightarrow> maintenance_token \<Rightarrow> disk_replica \<times> (unit, replica_error) result" where
  "fence io d t =
     (case ms_active (maintenance d) of
        Some active \<Rightarrow> (d, if active = marker t then Inr () else Inl WriterFenced)
      | None \<Rightarrow>
          if mt_generation t \<le> ms_generation (maintenance d) then (d, Inl WriterFenced)
          else set_maintenance io d
            \<lparr>ms_version = MAINTENANCE_MARKER_VERSION, ms_generation = mt_generation t,
             ms_active = Some (marker t), last_released = None\<rparr>)"

definition release_fence ::
  "persist_outcome \<Rightarrow> disk_replica \<Rightarrow> maintenance_token \<Rightarrow> disk_replica \<times> (unit, replica_error) result" where
  "release_fence io d t =
     (let m = maintenance d in
      case ms_active m of
        Some active \<Rightarrow>
          if active = marker t
          then set_maintenance io d
            \<lparr>ms_version = MAINTENANCE_MARKER_VERSION, ms_generation = ms_generation m,
             ms_active = None, last_released = Some (marker t)\<rparr>
          else (d, Inl GatewayUnauthorized)
      | None \<Rightarrow>
          if last_released m = Some (marker t) then (d, Inr ())
          else if ms_generation m < mt_generation t
          then set_maintenance io d
            \<lparr>ms_version = MAINTENANCE_MARKER_VERSION, ms_generation = mt_generation t,
             ms_active = None, last_released = Some (marker t)\<rparr>
          else (d, Inl GatewayUnauthorized))"

definition verify_fence :: "disk_replica \<Rightarrow> maintenance_token \<Rightarrow> (unit, replica_error) result" where
  "verify_fence d t = (if ms_active (maintenance d) = Some (marker t) then Inr () else Inl WriterFenced)"

definition maintenance_allowed :: "maintenance_state \<Rightarrow> maintenance_token option \<Rightarrow> bool" where
  "maintenance_allowed m token =
     (case (ms_active m, token) of
        (None, None) \<Rightarrow> True
      | (Some active, Some t) \<Rightarrow> active = marker t
      | (None, Some _) \<Rightarrow> False
      | (Some _, None) \<Rightarrow> False)"

subsection \<open>Commit markers and withdrawal\<close>

definition commit_inner ::
  "json \<Rightarrow> write_outcome \<Rightarrow> disk_replica \<Rightarrow> encrypted_record \<Rightarrow> maintenance_token option \<Rightarrow>
   disk_replica \<times> (unit, replica_error) result" where
  "commit_inner J io d r token =
     (let key = record_key r in
      if \<not> maintenance_allowed (maintenance d) token then (d, Inl WriterFenced)
      else if lsn r \<le> committed_lsn r then (d, Inl (InvalidWatermark (lsn r) (committed_lsn r)))
      else if below_trim (idx d) (stream r) (lsn r) then (d, Inr ())
      else if bt_get (records (idx d)) key \<noteq> Some r then (d, Inl LsnConflict)
      else if bt_get (committed (idx d)) key = Some r then (d, Inr ())
      else if bt_has (committed (idx d)) key then (d, Inl LsnConflict)
      else case write_log io (log_file d) (json_line J (CommitEntry r)) of
          (f, Inl e) \<Rightarrow> (d\<lparr>log_file := f\<rparr>, Inl e)
        | (f, Inr _) \<Rightarrow>
            (d\<lparr>log_file := f, idx := (idx d)\<lparr>committed := bt_insert key r (committed (idx d))\<rparr>\<rparr>, Inr ()))"

definition supersede ::
  "json \<Rightarrow> write_outcome \<Rightarrow> disk_replica \<Rightarrow> string \<Rightarrow> nat \<Rightarrow> nat \<Rightarrow> disk_replica \<times> (nat, replica_error) result" where
  "supersede J io d s from_lsn w =
     (if s = [] \<or> from_lsn = 0 then (d, Inl LsnConflict)
      else if below_trim (idx d) s from_lsn then (d, Inl LsnConflict)
      else let doomed = map (\<lambda>e. writer_epoch (snd e))
                 (filter (\<lambda>e. fst (fst e) = s \<and> from_lsn \<le> snd (fst e)) (records (idx d)))
           in if doomed = [] then (d, Inr 0)
              else if list_ex (\<lambda>e. w \<le> e) doomed then (d, Inl WriterFenced)
              else case write_log io (log_file d) (json_line J (SupersedeEntry s from_lsn w)) of
                  (f, Inl e) \<Rightarrow> (d\<lparr>log_file := f\<rparr>, Inl e)
                | (f, Inr _) \<Rightarrow>
                    (d\<lparr>log_file := f, idx := withdraw_suffix s from_lsn (idx d)\<rparr>, Inr (length doomed)))"

subsection \<open>Compaction\<close>

fun next_trimmed ::
  "node_index \<Rightarrow> (string \<times> nat \<times> nat) list \<Rightarrow> (string, trimmed_prefix) bt \<Rightarrow>
   ((string, trimmed_prefix) bt, replica_error) result" where
  "next_trimmed i [] t = Inr t"
| "next_trimmed i ((s, n, w) # rest) t =
     (if s = [] \<or> n = 0
      then Inl (NodeStorage ''compaction requires a stream and nonzero archive watermark'')
      else if (case bt_get (trimmed i) s of Some p \<Rightarrow> n < archived_lsn p | None \<Rightarrow> False)
      then Inl (NodeStorage ''archive compaction watermark cannot move backward'')
      else
        let retained_epoch = max (max (epoch_or_zero i s) w)
              (case bt_get (trimmed i) s of Some p \<Rightarrow> tp_writer_epoch p | None \<Rightarrow> 0)
        in next_trimmed i rest
             (bt_insert s \<lparr>tp_stream = s, archived_lsn = n, tp_writer_epoch = retained_epoch\<rparr> t))"

definition above :: "(string, trimmed_prefix) bt \<Rightarrow> string \<times> nat \<Rightarrow> bool" where
  "above t k = (case bt_get t (fst k) of Some p \<Rightarrow> archived_lsn p < snd k | None \<Rightarrow> True)"

text \<open>The replacement file, and the indexes once it is in place.\<close>

definition compact_entries :: "node_index \<Rightarrow> (string, trimmed_prefix) bt \<Rightarrow> log_entry list" where
  "compact_entries i t =
     map (\<lambda>e. trim_entry (snd e)) t @
     concat (map (record_entries (committed i)) (bt_retain (above t) (records i)))"

definition raise_epoch :: "(string, nat) bt \<Rightarrow> trimmed_prefix \<Rightarrow> (string, nat) bt" where
  "raise_epoch h p = bt_insert (tp_stream p)
     (case bt_get h (tp_stream p) of Some e \<Rightarrow> max e (tp_writer_epoch p) | None \<Rightarrow> tp_writer_epoch p) h"

definition compact_index :: "node_index \<Rightarrow> (string, trimmed_prefix) bt \<Rightarrow> node_index" where
  "compact_index i t =
     \<lparr>highest_epoch = foldl raise_epoch (highest_epoch i) (map snd t),
      records = bt_retain (above t) (records i),
      committed = bt_retain (above t) (committed i),
      trimmed = t\<rparr>"

definition compact_archived_batch ::
  "json \<Rightarrow> compact_outcome \<Rightarrow> disk_replica \<Rightarrow> (string \<times> nat \<times> nat) list \<Rightarrow> disk_replica \<times> (nat, replica_error) result" where
  "compact_archived_batch J io d prefixes =
     (if prefixes = [] then (d, Inr 0)
      else case next_trimmed (idx d) prefixes (trimmed (idx d)) of
          Inl e \<Rightarrow> (d, Inl e)
        | Inr t \<Rightarrow>
            let removed = length (filter (\<lambda>e. \<not> above t (fst e)) (records (idx d)));
                d' = d\<lparr>log_file := json_lines J (compact_entries (idx d) t), idx := compact_index (idx d) t\<rparr>
            in if removed = 0 \<and> t = trimmed (idx d) then (d, Inr 0)
               else case io of
                   Compacted \<Rightarrow> (d', Inr removed)
                 | CompactFailed e \<Rightarrow> (d, Inl (NodeStorage e))
                 | CompactUnsynced e \<Rightarrow> (d', Inl (NodeStorage e)))"

definition compact_archived ::
  "json \<Rightarrow> compact_outcome \<Rightarrow> disk_replica \<Rightarrow> string \<Rightarrow> nat \<Rightarrow> nat \<Rightarrow> disk_replica \<times> (nat, replica_error) result" where
  "compact_archived J io d s n w = compact_archived_batch J io d [(s, n, w)]"

subsection \<open>Reading\<close>

record node_snapshot =
  snap_records :: "encrypted_record list"
  snap_committed :: "encrypted_record list"
  snap_trimmed :: "trimmed_prefix list"

definition snapshot :: "disk_replica \<Rightarrow> node_snapshot" where
  "snapshot d = \<lparr>snap_records = map snd (records (idx d)), snap_committed = map snd (committed (idx d)),
     snap_trimmed = map snd (trimmed (idx d))\<rparr>"

definition stream_records :: "disk_replica \<Rightarrow> string \<Rightarrow> encrypted_record list" where
  "stream_records d s = filter (\<lambda>r. stream r = s) (map snd (records (idx d)))"

subsection \<open>Placement\<close>

definition admission_error :: "placement_error \<Rightarrow> replica_error" where
  "admission_error e =
     (case e of
        Storage reason \<Rightarrow> NodeStorage reason
      | InvalidStream \<Rightarrow> Protocol ''placement stream must not be empty''
      | InvalidEpoch \<Rightarrow> Protocol ''invalid placement epoch''
      | _ \<Rightarrow> WriterFenced)"

definition fence_error :: "placement_error \<Rightarrow> replica_error" where
  "fence_error e =
     (case e of
        Storage reason \<Rightarrow> NodeStorage reason
      | InvalidStream \<Rightarrow> Protocol ''placement stream must not be empty''
      | InvalidEpoch \<Rightarrow> Protocol ''invalid placement epoch''
      | Decreasing _ _ \<Rightarrow> LsnConflict
      | FenceConflict _ _ \<Rightarrow> LsnConflict
      | _ \<Rightarrow> WriterFenced)"

text \<open>Admission of an append: \<open>Some\<close> is the lease that is held until the append returns.\<close>

definition placement_lease ::
  "disk_replica \<Rightarrow> string \<Rightarrow> placement_epoch option \<Rightarrow> disk_replica \<times> (placement_epoch option, replica_error) result" where
  "placement_lease d s p =
     (let admitted_at = (\<lambda>store q. case admit store s q of
            (store', Inl e) \<Rightarrow> (d\<lparr>placement := Some store'\<rparr>, Inl (admission_error e))
          | (store', Inr lease) \<Rightarrow> (d\<lparr>placement := Some store'\<rparr>, Inr (Some lease)))
      in case (placement d, p) of
        (Some store, Some q) \<Rightarrow> admitted_at store q
      | (Some store, None) \<Rightarrow>
          (case contains_stream store s of
             Inl e \<Rightarrow> (d, Inl (NodeStorage (placement_error_text e)))
           | Inr True \<Rightarrow> (d, Inl WriterFenced)
           | Inr False \<Rightarrow> admitted_at store bootstrap)
      | (None, _) \<Rightarrow> (d, Inr None))"

definition drop_lease :: "disk_replica \<Rightarrow> string \<Rightarrow> placement_epoch option \<Rightarrow> disk_replica" where
  "drop_lease d s lease =
     (case (placement d, lease) of
        (Some store, Some _) \<Rightarrow> d\<lparr>placement := Some (release_lease store s)\<rparr>
      | _ \<Rightarrow> d)"

text \<open>\<open>install_placement_fence\<close> at the two points where \<open>install_fence\<close> has the gate to itself.\<close>

definition placement_fence_begin ::
  "disk_replica \<Rightarrow> string \<Rightarrow> placement_epoch \<Rightarrow> disk_replica \<times> (fence_start, replica_error) result" where
  "placement_fence_begin d s p =
     (case placement d of
        None \<Rightarrow> (d, Inl (Protocol ''placement fences require direct node mode''))
      | Some store \<Rightarrow>
          (case fence_begin store s p of
             (store', Inl e) \<Rightarrow> (d\<lparr>placement := Some store'\<rparr>, Inl (fence_error e))
           | (store', Inr x) \<Rightarrow> (d\<lparr>placement := Some store'\<rparr>, Inr x)))"

definition placement_fence_finish ::
  "persist_outcome \<Rightarrow> disk_replica \<Rightarrow> string \<Rightarrow> placement_epoch \<Rightarrow> (disk_replica \<times> (unit, replica_error) result) option" where
  "placement_fence_finish io d s p =
     (case placement d of
        None \<Rightarrow> None
      | Some store \<Rightarrow>
          map_option (\<lambda>(store', res). (d\<lparr>placement := Some store'\<rparr>,
             (case res of Inl e \<Rightarrow> Inl (fence_error e) | Inr u \<Rightarrow> Inr u)))
            (fence_finish io store s p))"

definition node_placement :: "disk_replica \<Rightarrow> string \<Rightarrow> disk_replica \<times> (placement_epoch, replica_error) result" where
  "node_placement d s =
     (case placement d of
        None \<Rightarrow> (d, Inl (Protocol ''placement state is unavailable on this node''))
      | Some store \<Rightarrow>
          (case current_placement store s of
             (store', Inl e) \<Rightarrow> (d\<lparr>placement := Some store'\<rparr>, Inl (NodeStorage (placement_error_text e)))
           | (store', Inr q) \<Rightarrow> (d\<lparr>placement := Some store'\<rparr>, Inr q)))"

subsection \<open>Appends\<close>

definition has_manifest_boundary :: "disk_replica \<Rightarrow> encrypted_record \<Rightarrow> bool" where
  "has_manifest_boundary d r =
     (case control d of
        None \<Rightarrow> False
      | Some c \<Rightarrow>
          (case bt_get (stream_segments c) (stream r) of
             None \<Rightarrow> False
           | Some segs \<Rightarrow>
               list_ex (\<lambda>i. let seg = segs ! i in
                   start_lsn seg = lsn r \<and> node_name d \<in> set (member_ids seg) \<and>
                   committed_lsn r = start_lsn seg - 1 \<and>
                   (i = 0 \<or> end_lsn (segs ! (i - 1)) = Some (committed_lsn r)))
                 [0..<length segs]))"

definition has_compacted_predecessor :: "node_index \<Rightarrow> encrypted_record \<Rightarrow> bool" where
  "has_compacted_predecessor i r =
     (case bt_get (trimmed i) (stream r) of Some p \<Rightarrow> archived_lsn p = lsn r - 1 | None \<Rightarrow> False)"

text \<open>The body of \<open>append_inner_with_placement\<close> under the lock of the node.\<close>

definition append_locked ::
  "json \<Rightarrow> write_outcome \<Rightarrow> disk_replica \<Rightarrow> encrypted_record \<Rightarrow> maintenance_token option \<Rightarrow>
   disk_replica \<times> (unit, replica_error) result" where
  "append_locked J io d r token =
     (let i = idx d; highest = epoch_or_zero i (stream r); key = record_key r;
          needs_manifest_boundary =
            1 < lsn r \<and> \<not> bt_has (records i) (stream r, lsn r - 1) \<and> \<not> has_compacted_predecessor i r;
          line = json_line J (RecordEntry r)
      in if \<not> maintenance_allowed (maintenance d) token then (d, Inl WriterFenced)
         else if lsn r \<le> committed_lsn r then (d, Inl (InvalidWatermark (lsn r) (committed_lsn r)))
         else if writer_epoch r < highest then (d, Inl WriterFenced)
         else if below_trim i (stream r) (lsn r) then (d, Inl LsnConflict)
         else case bt_get (records i) key of
             Some existing \<Rightarrow> (d, if existing = r then Inr () else Inl LsnConflict)
           | None \<Rightarrow>
               if needs_manifest_boundary \<and> \<not> has_manifest_boundary d r then (d, Inl LsnConflict)
               else if (case log_max_bytes d of
                          Some cap \<Rightarrow> cap < saturating_add_u64 (length (log_file d)) (length line)
                        | None \<Rightarrow> False)
               then (d, Inl (NodeStorage (''node log budget exhausted: '' @ show_nat (length (log_file d)) @
                       '' bytes used of '' @ show_nat (the (log_max_bytes d)) @ ''; waiting for the archive to drain'')))
               else case write_log io (log_file d) line of
                   (f, Inl e) \<Rightarrow> (d\<lparr>log_file := f\<rparr>, Inl e)
                 | (f, Inr _) \<Rightarrow>
                     (d\<lparr>log_file := f,
                        idx := i\<lparr>highest_epoch := bt_insert (stream r) (max (writer_epoch r) highest) (highest_epoch i),
                                  records := bt_insert key r (records i)\<rparr>\<rparr>, Inr ()))"

definition append_inner_with_placement ::
  "json \<Rightarrow> write_outcome \<Rightarrow> disk_replica \<Rightarrow> encrypted_record \<Rightarrow> maintenance_token option \<Rightarrow> placement_epoch option \<Rightarrow>
   disk_replica \<times> (unit, replica_error) result" where
  "append_inner_with_placement J io d r token p =
     (case (if token = None then placement_lease d (stream r) p else (d, Inr None)) of
        (d', Inl e) \<Rightarrow> (d', Inl e)
      | (d', Inr lease) \<Rightarrow>
          (case append_locked J io d' r token of
             (d'', res) \<Rightarrow> (drop_lease d'' (stream r) lease, res)))"

text \<open>The checks of a batch: the records that are new, in order.\<close>

fun batch_new ::
  "disk_replica \<Rightarrow> encrypted_record list \<Rightarrow> encrypted_record list \<Rightarrow> (encrypted_record list, replica_error) result" where
  "batch_new d [] new = Inr new"
| "batch_new d (r # rs) new =
     (let i = idx d in
      if writer_epoch r < epoch_or_zero i (stream r) then Inl WriterFenced
      else if below_trim i (stream r) (lsn r) then Inl LsnConflict
      else case bt_get (records i) (record_key r) of
          Some existing \<Rightarrow> if existing \<noteq> r then Inl LsnConflict else batch_new d rs new
        | None \<Rightarrow>
            let has_batch_predecessor = list_ex (\<lambda>q. stream q = stream r \<and> lsn q = lsn r - 1) new;
                needs_manifest_boundary = 1 < lsn r \<and> \<not> has_batch_predecessor \<and>
                  \<not> bt_has (records i) (stream r, lsn r - 1) \<and> \<not> has_compacted_predecessor i r
            in if needs_manifest_boundary \<and> \<not> has_manifest_boundary d r then Inl LsnConflict
               else batch_new d rs (new @ [r]))"

text \<open>The records of a batch that get a commit marker.\<close>

fun batch_commits ::
  "node_index \<Rightarrow> encrypted_record list \<Rightarrow> encrypted_record list \<Rightarrow> encrypted_record list \<Rightarrow>
   (encrypted_record list, replica_error) result" where
  "batch_commits i new [] commits = Inr commits"
| "batch_commits i new (r # rs) commits =
     (if below_trim i (stream r) (lsn r) then batch_commits i new rs commits
      else if bt_get (committed i) (record_key r) = Some r then batch_commits i new rs commits
      else if bt_has (committed i) (record_key r) then Inl LsnConflict
      else if \<not> (bt_get (records i) (record_key r) = Some r \<or>
                  list_ex (\<lambda>q. record_key q = record_key r \<and> q = r) new)
      then Inl LsnConflict
      else batch_commits i new rs (commits @ [r]))"

definition insert_record :: "node_index \<Rightarrow> encrypted_record \<Rightarrow> node_index" where
  "insert_record i r =
     i\<lparr>highest_epoch := bt_insert (stream r)
         (case bt_get (highest_epoch i) (stream r) of Some e \<Rightarrow> max e (writer_epoch r) | None \<Rightarrow> writer_epoch r)
         (highest_epoch i),
       records := bt_insert (record_key r) r (records i)\<rparr>"

definition insert_commit :: "node_index \<Rightarrow> encrypted_record \<Rightarrow> node_index" where
  "insert_commit i r = i\<lparr>committed := bt_insert (record_key r) r (committed i)\<rparr>"

definition append_many_locked ::
  "json \<Rightarrow> write_outcome \<Rightarrow> disk_replica \<Rightarrow> encrypted_record list \<Rightarrow> maintenance_token option \<Rightarrow> bool \<Rightarrow>
   disk_replica \<times> (unit, replica_error) result" where
  "append_many_locked J io d rs token commit =
     (if \<not> maintenance_allowed (maintenance d) token then (d, Inl WriterFenced)
      else case bind_result (batch_new d rs []) (\<lambda>new.
             bind_result (if commit then batch_commits (idx d) new rs [] else Inr []) (\<lambda>commits. Inr (new, commits))) of
          Inl e \<Rightarrow> (d, Inl e)
        | Inr (new, commits) \<Rightarrow>
            if new = [] \<and> commits = [] then (d, Inr ())
            else case write_log io (log_file d) (json_lines J (map RecordEntry new @ map CommitEntry commits)) of
                (f, Inl e) \<Rightarrow>
                  (d\<lparr>log_file := (case io of
                       WriteFailed _ truncated _ \<Rightarrow> if truncated then take (length (log_file d)) f else f
                     | Written \<Rightarrow> f)\<rparr>, Inl e)
              | (f, Inr _) \<Rightarrow>
                  (d\<lparr>log_file := f, idx := foldl insert_commit (foldl insert_record (idx d) new) commits\<rparr>, Inr ()))"

definition append_many_inner_with_placement ::
  "json \<Rightarrow> write_outcome \<Rightarrow> disk_replica \<Rightarrow> encrypted_record list \<Rightarrow> maintenance_token option \<Rightarrow> bool \<Rightarrow>
   placement_epoch option \<Rightarrow> disk_replica \<times> (unit, replica_error) result" where
  "append_many_inner_with_placement J io d rs token commit p =
     (case validate_append_batch rs of
        Inl e \<Rightarrow> (d, Inl e)
      | Inr _ \<Rightarrow>
          let s = (case rs of r # _ \<Rightarrow> stream r | [] \<Rightarrow> [])
          in (case (if token = None then placement_lease d s p else (d, Inr None)) of
                (d', Inl e) \<Rightarrow> (d', Inl e)
              | (d', Inr lease) \<Rightarrow>
                  (case append_many_locked J io d' rs token commit of
                     (d'', res) \<Rightarrow> (drop_lease d'' s lease, res))))"

subsection \<open>Opening\<close>

definition legacy_routes :: "(byte list \<Rightarrow> byte list) \<Rightarrow> control_view \<Rightarrow> (string, placement_epoch) bt" where
  "legacy_routes sha256 c =
     List.map_filter (\<lambda>(s, segs). if segs = [] then None else Some (s, placement_for_route sha256 s (last segs)))
       (stream_segments c)"

text \<open>What is on the volume of a node.\<close>

record node_volume =
  v_log :: "byte list"
  v_marker :: marker_file
  v_sidecar :: sidecar
  v_control :: "control_view option"

definition open_placement ::
  "(byte list \<Rightarrow> byte list) \<Rightarrow> persist_outcome \<Rightarrow> persist_outcome \<Rightarrow> control_view \<Rightarrow> sidecar \<Rightarrow>
   control_view \<times> sidecar \<times> (placement_store, replica_error) result" where
  "open_placement sha256 sidecar_io control_io c f =
     (if placement_initialized c
      then (c, f, case open_existing f of
              Inl e \<Rightarrow> Inl (NodeStorage (placement_error_text e)) | Inr store \<Rightarrow> Inr store)
      else if control_head_revision c \<noteq> 0 \<or> control_head_digest c \<noteq> [] \<or>
              list_ex (\<lambda>e. list_ex (\<lambda>seg. seg_placement_epoch seg \<noteq> 0) (snd e)) (stream_segments c)
      then (c, f, Inl (NodeStorage ''placement migration marker is missing for a non-legacy control state''))
      else case bootstrap_legacy sidecar_io f (legacy_routes sha256 c) of
          (f', Inl e) \<Rightarrow> (c, f', Inl (NodeStorage (placement_error_text e)))
        | (f', Inr store) \<Rightarrow>
            (case control_io of
               Persisted \<Rightarrow> (c\<lparr>placement_initialized := True\<rparr>, f', Inr store)
             | PersistFailed replaced e \<Rightarrow>
                 (if replaced then c\<lparr>placement_initialized := True\<rparr> else c, f', Inl (NodeStorage e))))"

definition disk_open ::
  "json \<Rightarrow> (byte list \<Rightarrow> byte list) \<Rightarrow> persist_outcome \<Rightarrow> persist_outcome \<Rightarrow> nat option \<Rightarrow> string \<Rightarrow> string \<Rightarrow> node_volume \<Rightarrow>
   node_volume \<times> (disk_replica, replica_error) result" where
  "disk_open J sha256 sidecar_io control_io cap name tier v =
     (if trim name = [] then (v, Inl (NodeStorage ''replica node name must not be empty''))
      else if trim tier = [] then (v, Inl (NodeStorage ''replica storage tier must not be empty''))
      else case bind_result (read_maintenance_state (v_marker v)) (\<lambda>m.
             bind_result (open_log J (v_log v)) (\<lambda>(f, i). Inr (m, f, i))) of
          Inl e \<Rightarrow> (v, Inl e)
        | Inr (m, f, i) \<Rightarrow>
            let d = \<lparr>log_file = f, idx = i, maintenance = m, maintenance_file = v_marker v, log_max_bytes = cap,
                     node_name = name, control = v_control v, placement = None\<rparr>
            in (case v_control v of
                  None \<Rightarrow> (v\<lparr>v_log := f\<rparr>, Inr d)
                | Some c \<Rightarrow>
                    (case open_placement sha256 sidecar_io control_io c (v_sidecar v) of
                       (c', f', res) \<Rightarrow>
                         (v\<lparr>v_log := f, v_sidecar := f', v_control := Some c'\<rparr>,
                          bind_result res (\<lambda>store. Inr (d\<lparr>control := Some c', placement := Some store\<rparr>))))))"

section \<open>Specification\<close>

text \<open>The log of a node is whole lines, and replaying them gives its indexes.\<close>

definition log_inv :: "json \<Rightarrow> disk_replica \<Rightarrow> bool" where
  "log_inv J d \<longleftrightarrow> index_wf (idx d) \<and>
     (\<exists>es. log_file d = json_lines J es \<and> apply_entries es empty_index = Inr (idx d))"

text \<open>When an append writes the record: the node has no such record yet and every guard lets it pass.\<close>

definition has_predecessor :: "disk_replica \<Rightarrow> encrypted_record \<Rightarrow> bool" where
  "has_predecessor d r \<longleftrightarrow> lsn r \<le> 1 \<or> bt_has (records (idx d)) (stream r, lsn r - 1) \<or>
     has_compacted_predecessor (idx d) r \<or> has_manifest_boundary d r"

definition appends_record :: "json \<Rightarrow> disk_replica \<Rightarrow> encrypted_record \<Rightarrow> maintenance_token option \<Rightarrow> bool" where
  "appends_record J d r token \<longleftrightarrow>
     maintenance_allowed (maintenance d) token \<and> committed_lsn r < lsn r \<and>
     epoch_or_zero (idx d) (stream r) \<le> writer_epoch r \<and> \<not> below_trim (idx d) (stream r) (lsn r) \<and>
     bt_get (records (idx d)) (record_key r) = None \<and> has_predecessor d r \<and>
     (case log_max_bytes d of
        Some cap \<Rightarrow> saturating_add_u64 (length (log_file d)) (length (json_line J (RecordEntry r))) \<le> cap
      | None \<Rightarrow> True)"

definition marks_commit :: "disk_replica \<Rightarrow> encrypted_record \<Rightarrow> maintenance_token option \<Rightarrow> bool" where
  "marks_commit d r token \<longleftrightarrow>
     maintenance_allowed (maintenance d) token \<and> committed_lsn r < lsn r \<and>
     \<not> below_trim (idx d) (stream r) (lsn r) \<and> bt_get (records (idx d)) (record_key r) = Some r \<and>
     bt_get (committed (idx d)) (record_key r) = None"

text \<open>The epochs of the records a withdrawal removes.\<close>

definition doomed :: "node_index \<Rightarrow> string \<Rightarrow> nat \<Rightarrow> nat list" where
  "doomed i s n = map (\<lambda>e. writer_epoch (snd e)) (filter (\<lambda>e. fst (fst e) = s \<and> n \<le> snd (fst e)) (records i))"

definition withdraws :: "disk_replica \<Rightarrow> string \<Rightarrow> nat \<Rightarrow> nat \<Rightarrow> bool" where
  "withdraws d s n w \<longleftrightarrow> s \<noteq> [] \<and> n \<noteq> 0 \<and> \<not> below_trim (idx d) s n \<and> doomed (idx d) s n \<noteq> [] \<and>
     (\<forall>e \<in> set (doomed (idx d) s n). e < w)"

definition append_batch ::
  "json \<Rightarrow> write_outcome \<Rightarrow> disk_replica \<Rightarrow> encrypted_record list \<Rightarrow> maintenance_token option \<Rightarrow> bool \<Rightarrow>
   disk_replica \<times> (unit, replica_error) result" where
  "append_batch J io d rs token commit =
     (case validate_append_batch rs of
        Inl e \<Rightarrow> (d, Inl e)
      | Inr _ \<Rightarrow> append_many_locked J io d rs token commit)"

text \<open>What the checks of a batch leave to be written.\<close>

definition batch_plan :: "disk_replica \<Rightarrow> encrypted_record list \<Rightarrow> bool \<Rightarrow>
    (encrypted_record list \<times> encrypted_record list, replica_error) result" where
  "batch_plan d rs commit = bind_result (batch_new d rs []) (\<lambda>new.
     bind_result (if commit then batch_commits (idx d) new rs [] else Inr []) (\<lambda>commits. Inr (new, commits)))"

text \<open>Trim fences after a compaction: those of before, or newer ones that keep the fence epoch.\<close>

definition extends_trim :: "node_index \<Rightarrow> (string, trimmed_prefix) bt \<Rightarrow> bool" where
  "extends_trim i t \<longleftrightarrow> bt_wf t \<and>
     (\<forall>s. map_of t s = map_of (trimmed i) s \<or>
       (\<exists>p. map_of t s = Some p \<and> tp_stream p = s \<and> s \<noteq> [] \<and> 0 < archived_lsn p \<and>
          epoch_or_zero i s \<le> tp_writer_epoch p \<and>
          (\<forall>q. map_of (trimmed i) s = Some q \<longrightarrow> archived_lsn q \<le> archived_lsn p)))"

text \<open>Every record the node holds has its predecessor: on the volume, archived, or proved by the
  manifest.\<close>

definition no_holes :: "disk_replica \<Rightarrow> bool" where
  "no_holes d \<longleftrightarrow> (\<forall>k r. map_of (records (idx d)) k = Some r \<longrightarrow> has_predecessor d r)"

text \<open>\<open>same_node\<close>: what the predecessor check reads besides the indexes.\<close>

definition same_node :: "disk_replica \<Rightarrow> disk_replica \<Rightarrow> bool" where
  "same_node d d' \<longleftrightarrow> node_name d' = node_name d \<and>
     map_option stream_segments (control d') = map_option stream_segments (control d)"

text \<open>The marker on disk is readable and never behind the fence in memory.\<close>

definition maintenance_inv :: "disk_replica \<Rightarrow> bool" where
  "maintenance_inv d \<longleftrightarrow>
     read_maintenance_state (Marker (maintenance d)) = Inr (maintenance d) \<and>
     (\<exists>m. read_maintenance_state (maintenance_file d) = Inr m \<and> ms_generation (maintenance d) \<le> ms_generation m)"

definition token_ok :: "maintenance_token \<Rightarrow> bool" where
  "token_ok t \<longleftrightarrow> trim (mt_owner t) \<noteq> [] \<and> trim (mt_signature t) \<noteq> []"

definition volume :: "disk_replica \<Rightarrow> node_volume" where
  "volume d = \<lparr>v_log = log_file d, v_marker = maintenance_file d,
     v_sidecar = (case placement d of Some st \<Rightarrow> sidecar_file st | None \<Rightarrow> Missing), v_control = control d\<rparr>"

text \<open>The life of a node: the operations on the log with every outcome that leaves it in whole lines,
  compactions, maintenance and placement fences with every outcome of their files, and restarts from
  what is on the volume.\<close>

inductive node_step :: "json \<Rightarrow> disk_replica \<Rightarrow> disk_replica \<Rightarrow> bool" for J where
  lease: "placement_lease d s p = (d', res) \<Longrightarrow> node_step J d d'"
| unlease: "node_step J d (drop_lease d s l)"
| append: "append_locked J io d r token = (d', res) \<Longrightarrow> io = Written \<or> io = WriteFailed 0 t e \<Longrightarrow> node_step J d d'"
| append_many: "append_batch J io d rs token commit = (d', res) \<Longrightarrow> io = Written \<or> io = WriteFailed n True e \<Longrightarrow> node_step J d d'"
| mark: "commit_inner J io d r token = (d', res) \<Longrightarrow> io = Written \<or> io = WriteFailed 0 t e \<Longrightarrow> node_step J d d'"
| withdraw: "supersede J io d s n w = (d', res') \<Longrightarrow> io = Written \<or> io = WriteFailed 0 t e \<Longrightarrow> node_step J d d'"
| compact: "compact_archived_batch J cio d prefixes = (d', res') \<Longrightarrow> node_step J d d'"
| hold: "fence pio d t' = (d', res) \<Longrightarrow> token_ok t' \<Longrightarrow> node_step J d d'"
| release: "release_fence pio d t' = (d', res) \<Longrightarrow> token_ok t' \<Longrightarrow> node_step J d d'"
| fence_begins: "placement_fence_begin d s p' = (d', res'') \<Longrightarrow> node_step J d d'"
| fence_ends: "placement_fence_finish pio d s p' = Some (d', res) \<Longrightarrow> node_step J d d'"
| restart: "disk_open J sha256 pio pio' cap (node_name d) tier (volume d) = (v, Inr d') \<Longrightarrow>
    length (log_file d) \<le> u64_max \<Longrightarrow> node_step J d d'"

inductive node_reachable :: "json \<Rightarrow> disk_replica \<Rightarrow> bool" for J where
  fresh: "log_file d = [] \<Longrightarrow> idx d = empty_index \<Longrightarrow> maintenance d = maintenance_default \<Longrightarrow>
    maintenance_file d = MarkerMissing \<Longrightarrow> node_reachable J d"
| step: "node_reachable J d \<Longrightarrow> node_step J d d' \<Longrightarrow> node_reachable J d'"

definition node_inv :: "json \<Rightarrow> disk_replica \<Rightarrow> bool" where
  "node_inv J d \<longleftrightarrow> log_inv J d \<and> no_holes d \<and> maintenance_inv d"

section \<open>Logged operations\<close>

text \<open>The contract of the operations that write to the log: each either leaves the node alone or
  appends entries to the log and, when the write has succeeded, has their effect on the indexes.\<close>

locale logged_operation =
  fixes operate :: "json \<Rightarrow> write_outcome \<Rightarrow> disk_replica \<Rightarrow> disk_replica \<times> ('a, replica_error) result"
  assumes contract: "index_wf (idx d) \<Longrightarrow>
    (\<exists>res. \<forall>io. operate J io d = (d, res)) \<or>
    (\<exists>es i a. apply_entries es (idx d) = Inr i \<and> index_wf i \<and>
       operate J Written d = (d\<lparr>log_file := log_file d @ json_lines J es, idx := i\<rparr>, Inr a) \<and>
       (\<forall>n t e. \<exists>f \<in> {log_file d, log_file d @ take n (json_lines J es)}.
          operate J (WriteFailed n t e) d = (d\<lparr>log_file := f\<rparr>, Inl (NodeStorage e))))"
begin

text \<open>After an operation whose writes succeeded the log still stands for the indexes.\<close>

lemma keeps_log_inv:
  assumes "log_inv J d" "operate J Written d = (d', res)"
  shows "log_inv J d'"
proof -
  obtain es0 where es0: "log_file d = json_lines J es0" "apply_entries es0 empty_index = Inr (idx d)"
    and wf: "index_wf (idx d)"
    using assms(1) unfolding log_inv_def by blast
  from contract [OF wf, of J] show ?thesis
  proof (elim disjE exE conjE)
    fix r assume "\<forall>io. operate J io d = (d, r)"
    then show ?thesis using assms by simp
  next
    fix es i a
    assume "apply_entries es (idx d) = Inr i" "index_wf i"
      "operate J Written d = (d\<lparr>log_file := log_file d @ json_lines J es, idx := i\<rparr>, Inr a)"
    then show ?thesis
      using es0 assms(2) by (auto simp: log_inv_def apply_entries_append intro!: exI [of _ "es0 @ es"])
  qed
qed

text \<open>When a write stops anywhere and the node is restarted from what is on disk, it has the
  indexes of before together with a prefix of what the operation would have added.\<close>

lemma torn_write:
  assumes "json_ok J" "log_inv J d" "operate J (WriteFailed n t e) d = (d', res)"
    "length (log_file (fst (operate J Written d))) \<le> u64_max"
  shows "\<exists>f i es j. open_log J (log_file d') = Inr (f, i) \<and>
    apply_entries es (idx d) = Inr (idx (fst (operate J Written d))) \<and> apply_entries (take j es) (idx d) = Inr i"
proof -
  obtain es0 where es0: "log_file d = json_lines J es0" "apply_entries es0 empty_index = Inr (idx d)"
    and wf: "index_wf (idx d)"
    using assms(2) unfolding log_inv_def by blast
  from contract [OF wf, of J] show ?thesis
  proof (elim disjE exE conjE)
    fix r assume r: "\<forall>io. operate J io d = (d, r)"
    then have "length (json_lines J es0) \<le> u64_max" using assms(4) es0(1) by simp
    then have "open_log J (log_file d') = Inr (json_lines J es0, idx d)"
      using open_lines [OF assms(1)] es0 r assms(3) by simp
    then show ?thesis using r by (intro exI [of _ "json_lines J es0"] exI [of _ "idx d"] exI [of _ "[]"]) simp
  next
    fix es i a
    assume ap: "apply_entries es (idx d) = Inr i"
      and w: "operate J Written d = (d\<lparr>log_file := log_file d @ json_lines J es, idx := i\<rparr>, Inr a)"
      and fl: "\<forall>n t e. \<exists>f \<in> {log_file d, log_file d @ take n (json_lines J es)}.
          operate J (WriteFailed n t e) d = (d\<lparr>log_file := f\<rparr>, Inl (NodeStorage e))"
    obtain k where k: "log_file d' = json_lines J es0 @ take k (json_lines J es)"
      using fl [rule_format, of n t e] assms(3) es0(1) by (metis (no_types, lifting) append_Nil2 disk_replica.select_convs(1)
          disk_replica.update_convs(1) disk_replica.surjective fst_conv insert_iff singletonD take0)
    have "length (json_lines J (es0 @ es)) \<le> u64_max" using assms(4) w es0(1) by simp
    then obtain j f where j: "j \<le> length es" "open_log J (log_file d') =
        bind_result (apply_entries (es0 @ take j es) empty_index) (\<lambda>idx. Inr (f, idx))"
      using open_torn_lines [OF assms(1), of es0 es k] unfolding k by blast
    obtain i' where i': "apply_entries (take j es) (idx d) = Inr i'"
      using ap apply_entries_append [of "take j es" "drop j es" "idx d"]
      by (cases "apply_entries (take j es) (idx d)") auto
    then show ?thesis using j(2) es0(2) ap w
      by (intro exI [of _ f] exI [of _ i'] exI [of _ es] exI [of _ j]) (simp add: apply_entries_append)
  qed
qed

text \<open>What an operation has acknowledged is there after a restart.\<close>

lemma acknowledged_survives:
  assumes "json_ok J" "log_inv J d" "operate J io d = (d', Inr a)" "length (log_file d') \<le> u64_max"
  shows "open_log J (log_file d') = Inr (log_file d', idx d')"
proof -
  have "log_inv J d'"
  proof (cases io)
    case Written
    then show ?thesis using keeps_log_inv [OF assms(2)] assms(3) by simp
  next
    case (WriteFailed n t e)
    have "index_wf (idx d)" using assms(2) by (simp add: log_inv_def)
    from contract [OF this, of J] have "d' = d"
    proof (elim disjE exE conjE)
      fix es assume "\<forall>n t e. \<exists>f \<in> {log_file d, log_file d @ take n (json_lines J es)}.
          operate J (WriteFailed n t e) d = (d\<lparr>log_file := f\<rparr>, Inl (NodeStorage e))"
      from this [rule_format, of n t e] show ?thesis using assms(3) WriteFailed by auto
    qed (use assms(3) in auto)
    then show ?thesis using assms(2) by simp
  qed
  then show ?thesis using open_lines [OF assms(1)] assms(4) by (auto simp: log_inv_def)
qed

end

lemma append_locked_new:
  assumes "appends_record J d r token"
  shows "append_locked J io d r token =
    (case write_log io (log_file d) (json_line J (RecordEntry r)) of
       (f, Inl e) \<Rightarrow> (d\<lparr>log_file := f\<rparr>, Inl e)
     | (f, Inr _) \<Rightarrow> (d\<lparr>log_file := f, idx := filed (idx d) r\<rparr>, Inr ()))"
proof -
  have cap: "(case log_max_bytes d of
       Some cap \<Rightarrow> cap < saturating_add_u64 (length (log_file d)) (length (json_line J (RecordEntry r)))
     | None \<Rightarrow> False) = False"
    using assms by (auto simp: appends_record_def split: option.splits)
  have b: "\<not> ((1 < lsn r \<and> \<not> bt_has (records (idx d)) (stream r, lsn r - 1) \<and> \<not> has_compacted_predecessor (idx d) r) \<and>
      \<not> has_manifest_boundary d r)"
    using assms by (auto simp: appends_record_def has_predecessor_def)
  have g: "maintenance_allowed (maintenance d) token" "\<not> lsn r \<le> committed_lsn r"
    "\<not> writer_epoch r < epoch_or_zero (idx d) (stream r)" "\<not> below_trim (idx d) (stream r) (lsn r)"
    "bt_get (records (idx d)) (record_key r) = None"
    using assms by (auto simp: appends_record_def)
  show ?thesis
    unfolding append_locked_def Let_def cap filed_def max.commute [of "writer_epoch r"] if_not_P [OF b]
    using g by (simp split: prod.split sum.split)
qed

lemma append_locked_kept:
  assumes "\<not> appends_record J d r token"
  shows "\<exists>res. \<forall>io. append_locked J io d r token = (d, res) \<and>
    (res = Inr () \<longrightarrow> bt_get (records (idx d)) (record_key r) = Some r)"
proof (cases "bt_get (records (idx d)) (record_key r)")
  case (Some q)
  then show ?thesis by (auto simp: append_locked_def Let_def)
next
  case None
  show ?thesis
  proof (cases "maintenance_allowed (maintenance d) token \<and> committed_lsn r < lsn r \<and>
      epoch_or_zero (idx d) (stream r) \<le> writer_epoch r \<and> \<not> below_trim (idx d) (stream r) (lsn r)")
    case False
    then show ?thesis using None by (auto simp: append_locked_def Let_def)
  next
    case g: True
    show ?thesis
    proof (cases "has_predecessor d r")
      case False
      then show ?thesis using None g by (auto simp: append_locked_def Let_def has_predecessor_def)
    next
      case True
      then obtain cap where "log_max_bytes d = Some cap"
          "cap < saturating_add_u64 (length (log_file d)) (length (json_line J (RecordEntry r)))"
        using assms g None by (auto simp: appends_record_def split: option.splits)
      then show ?thesis using None g True by (auto simp: append_locked_def Let_def has_predecessor_def)
    qed
  qed
qed

lemma json_lines_one: "json_lines J [e] = json_line J e"
  by (simp add: json_line_def)

lemma filed_new:
  assumes "index_wf (idx d)" "appends_record J d r token"
  shows "apply_entries [RecordEntry r] (idx d) = Inr (filed (idx d) r)" "index_wf (filed (idx d) r)"
  using assms apply_record [of "idx d" r] filed_wf [of "idx d" r]
  by (simp_all add: appends_record_def del: apply_entry.simps)

interpretation appending: logged_operation "\<lambda>J io d. append_locked J io d r token" for r token
proof
  fix d :: disk_replica and J assume wf: "index_wf (idx d)"
  show "(\<exists>res. \<forall>io. append_locked J io d r token = (d, res)) \<or>
    (\<exists>es i a. apply_entries es (idx d) = Inr i \<and> index_wf i \<and>
       append_locked J Written d r token = (d\<lparr>log_file := log_file d @ json_lines J es, idx := i\<rparr>, Inr a) \<and>
       (\<forall>n t e. \<exists>f \<in> {log_file d, log_file d @ take n (json_lines J es)}.
          append_locked J (WriteFailed n t e) d r token = (d\<lparr>log_file := f\<rparr>, Inl (NodeStorage e))))"
  proof (cases "appends_record J d r token")
    case True
    then show ?thesis using filed_new [OF wf True]
      by (intro disjI2 exI [of _ "[RecordEntry r]"] exI [of _ "filed (idx d) r"])
        (simp add: append_locked_new write_log_def json_line_def del: apply_entries.simps)
  next
    case False
    then show ?thesis using append_locked_kept [OF False] by blast
  qed
qed

lemma commit_inner_new:
  assumes "marks_commit d r token"
  shows "commit_inner J io d r token =
    (case write_log io (log_file d) (json_line J (CommitEntry r)) of
       (f, Inl e) \<Rightarrow> (d\<lparr>log_file := f\<rparr>, Inl e)
     | (f, Inr _) \<Rightarrow> (d\<lparr>log_file := f, idx := commit_mark (idx d) r\<rparr>, Inr ()))"
  using assms by (simp add: commit_inner_def marks_commit_def commit_mark_def bt_has_iff Let_def split: prod.split sum.split)

lemma commit_inner_kept:
  assumes "\<not> marks_commit d r token"
  shows "commit_inner J io d r token = (d, snd (commit_inner J Written d r token))"
proof -
  have "\<not> maintenance_allowed (maintenance d) token \<or> lsn r \<le> committed_lsn r \<or>
      below_trim (idx d) (stream r) (lsn r) \<or> bt_get (records (idx d)) (record_key r) \<noteq> Some r \<or>
      bt_has (committed (idx d)) (record_key r)"
    using assms by (auto simp: marks_commit_def bt_has_iff)
  then show ?thesis unfolding commit_inner_def Let_def by (elim disjE) simp_all
qed

interpretation committing: logged_operation "\<lambda>J io d. commit_inner J io d r token" for r token
proof
  fix d :: disk_replica and J assume wf: "index_wf (idx d)"
  show "(\<exists>res. \<forall>io. commit_inner J io d r token = (d, res)) \<or>
    (\<exists>es i a. apply_entries es (idx d) = Inr i \<and> index_wf i \<and>
       commit_inner J Written d r token = (d\<lparr>log_file := log_file d @ json_lines J es, idx := i\<rparr>, Inr a) \<and>
       (\<forall>n t e. \<exists>f \<in> {log_file d, log_file d @ take n (json_lines J es)}.
          commit_inner J (WriteFailed n t e) d r token = (d\<lparr>log_file := f\<rparr>, Inl (NodeStorage e))))"
  proof (cases "marks_commit d r token")
    case True
    then have "index_wf (commit_mark (idx d) r)" "apply_entries [CommitEntry r] (idx d) = Inr (commit_mark (idx d) r)"
      using commit_mark_wf [OF wf, of r] apply_commit [of "idx d" r] by (simp_all add: marks_commit_def)
    then show ?thesis using True
      by (intro disjI2 exI [of _ "[CommitEntry r]"] exI [of _ "commit_mark (idx d) r"])
        (simp add: commit_inner_new write_log_def json_line_def del: apply_entries.simps)
  next
    case False
    then show ?thesis using commit_inner_kept [OF False] by (intro disjI1 exI allI)
  qed
qed

lemma supersede_new:
  assumes "withdraws d s n w"
  shows "supersede J io d s n w =
    (case write_log io (log_file d) (json_line J (SupersedeEntry s n w)) of
       (f, Inl e) \<Rightarrow> (d\<lparr>log_file := f\<rparr>, Inl e)
     | (f, Inr _) \<Rightarrow> (d\<lparr>log_file := f, idx := withdraw_suffix s n (idx d)\<rparr>, Inr (length (doomed (idx d) s n))))"
proof -
  have "\<not> list_ex (\<lambda>e. w \<le> e) (doomed (idx d) s n)"
    using assms by (auto simp: withdraws_def list_ex_iff)
  then show ?thesis
    using assms unfolding supersede_def doomed_def [symmetric] Let_def by (simp add: withdraws_def)
qed

lemma supersede_kept:
  assumes "\<not> withdraws d s n w"
  shows "\<exists>res. \<forall>io. supersede J io d s n w = (d, res)"
proof -
  have "s = [] \<or> n = 0 \<or> below_trim (idx d) s n \<or> doomed (idx d) s n = [] \<or> list_ex (\<lambda>e. w \<le> e) (doomed (idx d) s n)"
    using assms by (auto simp: withdraws_def list_ex_iff not_less)
  then show ?thesis unfolding supersede_def doomed_def [symmetric] Let_def by auto
qed

interpretation superseding: logged_operation "\<lambda>J io d. supersede J io d s n w" for s n w
proof
  fix d :: disk_replica and J assume wf: "index_wf (idx d)"
  show "(\<exists>res. \<forall>io. supersede J io d s n w = (d, res)) \<or>
    (\<exists>es i a. apply_entries es (idx d) = Inr i \<and> index_wf i \<and>
       supersede J Written d s n w = (d\<lparr>log_file := log_file d @ json_lines J es, idx := i\<rparr>, Inr a) \<and>
       (\<forall>k t e. \<exists>f \<in> {log_file d, log_file d @ take k (json_lines J es)}.
          supersede J (WriteFailed k t e) d s n w = (d\<lparr>log_file := f\<rparr>, Inl (NodeStorage e))))"
  proof (cases "withdraws d s n w")
    case True
    then show ?thesis using withdraw_suffix_wf [OF wf, of s n]
      by (intro disjI2 exI [of _ "[SupersedeEntry s n w]"] exI [of _ "withdraw_suffix s n (idx d)"])
        (simp add: supersede_new write_log_def json_line_def)
  next
    case False
    then show ?thesis using supersede_kept [OF False] by blast
  qed
qed

lemma insert_record_filed: "insert_record i r = filed i r"
  by (simp add: insert_record_def filed_def epoch_or_zero_def split: option.split)

lemma insert_commit_mark: "insert_commit i r = commit_mark i r"
  by (simp add: insert_commit_def commit_mark_def)

lemma consecutive_keys: "consecutive rs \<Longrightarrow> distinct (map record_key rs)"
  by (auto simp: consecutive_def distinct_conv_nth record_key_def) 

section \<open>Batches\<close>

lemma records_filed: "map_of (records (filed i r)) = (map_of (records i))(record_key r \<mapsto> r)"
  by (simp add: filed_def map_of_bt_insert)

lemma below_trim_filed [simp]: "below_trim (filed i r) = below_trim i"
  by (rule below_trim_trimmed) (simp add: filed_def)

lemma filed_fields [simp]: "committed (filed i r) = committed i" "trimmed (filed i r) = trimmed i"
  by (simp_all add: filed_def)

lemma filed_many:
  assumes "index_wf i" "distinct (map record_key new)"
    "\<And>r. r \<in> set new \<Longrightarrow> \<not> below_trim i (stream r) (lsn r) \<and> map_of (records i) (record_key r) = None"
  shows "apply_entries (map RecordEntry new) i = Inr (foldl insert_record i new) \<and> index_wf (foldl insert_record i new) \<and>
    (\<forall>k. map_of (records (foldl insert_record i new)) k =
       (case map_of (map (\<lambda>r. (record_key r, r)) new) k of Some r \<Rightarrow> Some r | None \<Rightarrow> map_of (records i) k)) \<and>
    committed (foldl insert_record i new) = committed i \<and> trimmed (foldl insert_record i new) = trimmed i"
  using assms
proof (induction new arbitrary: i)
  case (Cons r new)
  have r: "\<not> below_trim i (stream r) (lsn r)" "map_of (records i) (record_key r) = None" using Cons.prems(3) by simp_all
  have f: "apply_entry (RecordEntry r) i = Inr (filed i r)" "index_wf (filed i r)"
    using apply_record [of i r] filed_wf [OF Cons.prems(1), of r] r by simp_all
  have rk: "record_key r \<notin> record_key ` set new" using Cons.prems(2) by simp
  have "\<not> below_trim (filed i r) (stream q) (lsn q) \<and> map_of (records (filed i r)) (record_key q) = None" if "q \<in> set new" for q
  proof -
    have "record_key q \<noteq> record_key r" using rk that by (metis imageI)
    then show ?thesis using Cons.prems(3) [of q] that by (simp add: records_filed)
  qed
  note IH = Cons.IH [OF f(2) _ this]
  have rn: "map_of (map (\<lambda>r. (record_key r, r)) new) (record_key r) = None"
    using rk by (auto simp: map_of_eq_None_iff)
  show ?case
    using IH Cons.prems(2) f rn
    by (auto simp: insert_record_filed records_filed split: option.split simp del: apply_entry.simps)
qed simp

lemma marked_many:
  assumes "index_wf i" "\<And>r. r \<in> set cs \<Longrightarrow> map_of (records i) (record_key r) = Some r"
  shows "apply_entries (map CommitEntry cs) i = Inr (foldl insert_commit i cs) \<and> index_wf (foldl insert_commit i cs)"
  using assms
proof (induction cs arbitrary: i)
  case (Cons r cs)
  have "apply_entry (CommitEntry r) i = Inr (commit_mark i r)" "index_wf (commit_mark i r)"
    using apply_commit [of i r] commit_mark_wf [OF Cons.prems(1), of r] Cons.prems(2) by simp_all
  moreover have "map_of (records (commit_mark i r)) (record_key q) = Some q" if "q \<in> set cs" for q
    using Cons.prems(2) [of q] that by (simp add: commit_mark_def)
  ultimately show ?case using Cons.IH [of "commit_mark i r"] by (simp add: insert_commit_mark)
qed simp

lemma batch_new_result:
  assumes "batch_new d rs acc = Inr new"
  shows "new = acc @ filter (\<lambda>r. map_of (records (idx d)) (record_key r) = None) rs \<and>
    (\<forall>r \<in> set rs. epoch_or_zero (idx d) (stream r) \<le> writer_epoch r \<and> \<not> below_trim (idx d) (stream r) (lsn r) \<and>
       map_of (records (idx d)) (record_key r) \<in> {None, Some r})"
  using assms
proof (induction rs arbitrary: acc)
  case (Cons r rs)
  have g: "epoch_or_zero (idx d) (stream r) \<le> writer_epoch r" "\<not> below_trim (idx d) (stream r) (lsn r)"
    using Cons.prems by (simp_all add: Let_def not_less split: if_splits)
  show ?case
  proof (cases "map_of (records (idx d)) (record_key r)")
    case None
    then have "batch_new d rs (acc @ [r]) = Inr new"
      using Cons.prems g by (simp add: Let_def split: if_splits)
    then show ?thesis using Cons.IH [of "acc @ [r]"] None g by simp
  next
    case (Some q)
    then have "q = r \<and> batch_new d rs acc = Inr new"
      using Cons.prems g by (simp add: Let_def split: if_splits)
    then show ?thesis using Cons.IH [of acc] Some g by simp
  qed
qed simp

lemma batch_commits_result:
  assumes "batch_commits i new rs acc = Inr commits"
  shows "\<exists>cs. commits = acc @ cs \<and> set cs \<subseteq> set rs \<and>
    (\<forall>r \<in> set cs. map_of (records i) (record_key r) = Some r \<or> r \<in> set new)"
  using assms
proof (induction rs arbitrary: acc)
  case (Cons r rs)
  show ?case
  proof (cases "below_trim i (stream r) (lsn r) \<or> bt_get (committed i) (record_key r) = Some r")
    case True
    then have "batch_commits i new rs acc = Inr commits" using Cons.prems by (auto split: if_splits)
    then show ?thesis using Cons.IH [of acc] by auto
  next
    case False
    then have g: "batch_commits i new rs (acc @ [r]) = Inr commits" "map_of (records i) (record_key r) = Some r \<or> r \<in> set new"
      using Cons.prems by (auto simp: list_ex_iff split: if_splits)
    obtain cs where "commits = (acc @ [r]) @ cs" "set cs \<subseteq> set rs"
        "\<forall>r \<in> set cs. map_of (records i) (record_key r) = Some r \<or> r \<in> set new"
      using Cons.IH [OF g(1)] by blast
    then show ?thesis using g(2) by (intro exI [of _ "r # cs"]) auto
  qed
qed simp

lemma batch_plan_entries:
  assumes "index_wf (idx d)" "consecutive rs" "batch_plan d rs commit = Inr (new, commits)"
  shows "apply_entries (map RecordEntry new @ map CommitEntry commits) (idx d) =
      Inr (foldl insert_commit (foldl insert_record (idx d) new) commits)"
    "index_wf (foldl insert_commit (foldl insert_record (idx d) new) commits)"
proof -
  have bn: "batch_new d rs [] = Inr new" and bc: "commit \<Longrightarrow> batch_commits (idx d) new rs [] = Inr commits"
    and nc: "\<not> commit \<Longrightarrow> commits = []"
    using assms(3) by (auto simp: batch_plan_def bind_result_Inr_iff)
  have new: "new = filter (\<lambda>r. map_of (records (idx d)) (record_key r) = None) rs"
    and ok: "\<And>r. r \<in> set rs \<Longrightarrow> \<not> below_trim (idx d) (stream r) (lsn r)"
    using batch_new_result [OF bn] by simp_all
  have dn: "distinct (map record_key new)"
    unfolding new using consecutive_keys [OF assms(2)] by (rule distinct_map_filter)
  have fm: "apply_entries (map RecordEntry new) (idx d) = Inr (foldl insert_record (idx d) new)"
    "index_wf (foldl insert_record (idx d) new)"
    "\<And>k. map_of (records (foldl insert_record (idx d) new)) k =
       (case map_of (map (\<lambda>r. (record_key r, r)) new) k of Some r \<Rightarrow> Some r | None \<Rightarrow> map_of (records (idx d)) k)"
    using filed_many [OF assms(1) dn] ok unfolding new by auto
  have look: "map_of (records (foldl insert_record (idx d) new)) (record_key r) = Some r"
    if "map_of (records (idx d)) (record_key r) = Some r \<or> r \<in> set new" for r
  proof (cases "r \<in> set new")
    case True
    then have "map_of (map (\<lambda>r. (record_key r, r)) new) (record_key r) = Some r"
      using dn by (intro map_of_is_SomeI) (auto simp: comp_def)
    then show ?thesis by (simp add: fm(3))
  next
    case False
    then have r: "map_of (records (idx d)) (record_key r) = Some r" using that by simp
    then have "record_key r \<notin> record_key ` set new" unfolding new by auto
    then have "map_of (map (\<lambda>r. (record_key r, r)) new) (record_key r) = None"
      by (auto simp: map_of_eq_None_iff)
    then show ?thesis using r by (simp add: fm(3))
  qed
  have "map_of (records (idx d)) (record_key r) = Some r \<or> r \<in> set new" if "r \<in> set commits" for r
    using that bc nc batch_commits_result [of "idx d" new rs "[]" commits] by (cases commit) auto
  then have "map_of (records (foldl insert_record (idx d) new)) (record_key r) = Some r" if "r \<in> set commits" for r
    using look that by blast
  note mm = marked_many [OF fm(2) this]
  show "apply_entries (map RecordEntry new @ map CommitEntry commits) (idx d) =
      Inr (foldl insert_commit (foldl insert_record (idx d) new) commits)"
    "index_wf (foldl insert_commit (foldl insert_record (idx d) new) commits)"
    using mm fm(1) by (simp_all add: apply_entries_append)
qed

lemma append_batch_cases:
  "(\<exists>res. \<forall>io. append_batch J io d rs token commit = (d, res)) \<or>
   (\<exists>new commits. consecutive rs \<and> maintenance_allowed (maintenance d) token \<and>
      batch_plan d rs commit = Inr (new, commits) \<and>
      (\<forall>io. append_batch J io d rs token commit =
        (case write_log io (log_file d) (json_lines J (map RecordEntry new @ map CommitEntry commits)) of
            (f, Inl e) \<Rightarrow>
              (d\<lparr>log_file := (case io of
                   WriteFailed _ truncated _ \<Rightarrow> if truncated then take (length (log_file d)) f else f
                 | Written \<Rightarrow> f)\<rparr>, Inl e)
          | (f, Inr _) \<Rightarrow>
              (d\<lparr>log_file := f, idx := foldl insert_commit (foldl insert_record (idx d) new) commits\<rparr>, Inr ()))))"
proof (cases "validate_append_batch rs")
  case (Inr u)
  then have co: "consecutive rs" using validate_append_batch_iff by simp
  have eq: "append_batch J io d rs token commit = append_many_locked J io d rs token commit" for io
    by (simp add: append_batch_def Inr)
  show ?thesis
  proof (cases "maintenance_allowed (maintenance d) token")
    case al: True
    show ?thesis
    proof (cases "batch_plan d rs commit")
      case (Inl e)
      then show ?thesis using al by (simp add: eq append_many_locked_def batch_plan_def [symmetric])
    next
      case (Inr p)
      obtain new commits where p: "p = (new, commits)" by fastforce
      show ?thesis
      proof (cases "new = [] \<and> commits = []")
        case True
        then show ?thesis using al Inr p by (simp add: eq append_many_locked_def batch_plan_def [symmetric])
      next
        case False
        then have "append_batch J io d rs token commit =
            (case write_log io (log_file d) (json_lines J (map RecordEntry new @ map CommitEntry commits)) of
                (f, Inl e) \<Rightarrow>
                  (d\<lparr>log_file := (case io of
                       WriteFailed _ truncated _ \<Rightarrow> if truncated then take (length (log_file d)) f else f
                     | Written \<Rightarrow> f)\<rparr>, Inl e)
              | (f, Inr _) \<Rightarrow>
                  (d\<lparr>log_file := f, idx := foldl insert_commit (foldl insert_record (idx d) new) commits\<rparr>, Inr ()))" for io
          using al Inr p by (auto simp: eq append_many_locked_def batch_plan_def [symmetric] simp del: json_lines_simps)
        then show ?thesis using al Inr p co by blast
      qed
    qed
  qed (simp add: eq append_many_locked_def)
qed (simp add: append_batch_def)

interpretation batching: logged_operation "\<lambda>J io d. append_batch J io d rs token commit" for rs token commit
proof
  fix d :: disk_replica and J assume wf: "index_wf (idx d)"
  show "(\<exists>res. \<forall>io. append_batch J io d rs token commit = (d, res)) \<or>
    (\<exists>es i a. apply_entries es (idx d) = Inr i \<and> index_wf i \<and>
       append_batch J Written d rs token commit = (d\<lparr>log_file := log_file d @ json_lines J es, idx := i\<rparr>, Inr a) \<and>
       (\<forall>n t e. \<exists>f \<in> {log_file d, log_file d @ take n (json_lines J es)}.
          append_batch J (WriteFailed n t e) d rs token commit = (d\<lparr>log_file := f\<rparr>, Inl (NodeStorage e))))"
    using append_batch_cases [of J d rs token commit]
  proof (elim disjE exE conjE)
    fix new commits
    assume co: "consecutive rs" and pl: "batch_plan d rs commit = Inr (new, commits)"
      and eq: "\<forall>io. append_batch J io d rs token commit =
        (case write_log io (log_file d) (json_lines J (map RecordEntry new @ map CommitEntry commits)) of
            (f, Inl e) \<Rightarrow>
              (d\<lparr>log_file := (case io of
                   WriteFailed _ truncated _ \<Rightarrow> if truncated then take (length (log_file d)) f else f
                 | Written \<Rightarrow> f)\<rparr>, Inl e)
          | (f, Inr _) \<Rightarrow>
              (d\<lparr>log_file := f, idx := foldl insert_commit (foldl insert_record (idx d) new) commits\<rparr>, Inr ()))"
    show ?thesis
      using batch_plan_entries [OF wf co pl] unfolding eq [rule_format]
      by (intro disjI2 exI [of _ "map RecordEntry new @ map CommitEntry commits"]
          exI [of _ "foldl insert_commit (foldl insert_record (idx d) new) commits"])
        (simp add: write_log_def del: json_lines_simps)
  qed blast
qed

section \<open>Compaction\<close>

lemma next_trimmed_extends:
  assumes "next_trimmed i prefixes t = Inr t'" "extends_trim i t"
  shows "extends_trim i t'"
  using assms
proof (induction i prefixes t rule: next_trimmed.induct)
  case (2 i s n w rest t)
  define e where "e = max (max (epoch_or_zero i s) w) (case bt_get (trimmed i) s of Some p \<Rightarrow> tp_writer_epoch p | None \<Rightarrow> 0)"
  define p where "p = \<lparr>tp_stream = s, archived_lsn = n, tp_writer_epoch = e\<rparr>"
  have g: "s \<noteq> []" "n \<noteq> 0" "\<not> (case bt_get (trimmed i) s of Some p \<Rightarrow> n < archived_lsn p | None \<Rightarrow> False)"
    "next_trimmed i rest (bt_insert s p t) = Inr t'"
    using 2(2) by (auto simp: Let_def e_def p_def split: if_splits)
  have "extends_trim i (bt_insert s p t)"
    unfolding extends_trim_def
  proof (intro conjI allI)
    show "bt_wf (bt_insert s p t)" using 2(3) by (simp add: extends_trim_def)
    fix u
    show "map_of (bt_insert s p t) u = map_of (trimmed i) u \<or>
       (\<exists>p'. map_of (bt_insert s p t) u = Some p' \<and> tp_stream p' = u \<and> u \<noteq> [] \<and> 0 < archived_lsn p' \<and>
          epoch_or_zero i u \<le> tp_writer_epoch p' \<and>
          (\<forall>q. map_of (trimmed i) u = Some q \<longrightarrow> archived_lsn q \<le> archived_lsn p'))"
    proof (cases "u = s")
      case True
      then show ?thesis using g by (auto simp: map_of_bt_insert p_def e_def not_less split: option.splits)
    next
      case False
      then show ?thesis using 2(3) by (simp add: map_of_bt_insert extends_trim_def)
    qed
  qed
  then show ?case using 2(1) [OF _ _ refl] g unfolding p_def e_def by blast
qed simp

lemma extends_trim_refl: "index_wf i \<Longrightarrow> extends_trim i (trimmed i)"
  by (simp add: extends_trim_def index_wfD)

lemma extends_trim_stream:
  assumes "index_wf i" "extends_trim i t" "map_of t s = Some p"
  shows "tp_stream p = s" "s \<noteq> []" "0 < archived_lsn p"
proof -
  consider "map_of t s = map_of (trimmed i) s"
    | p' where "map_of t s = Some p'" "tp_stream p' = s" "s \<noteq> []" "0 < archived_lsn p'"
    using assms(2) unfolding extends_trim_def by blast
  then have "tp_stream p = s \<and> s \<noteq> [] \<and> 0 < archived_lsn p"
    using assms(3) index_wfD(7) [OF assms(1), of s p] by cases auto
  then show "tp_stream p = s" "s \<noteq> []" "0 < archived_lsn p" by auto
qed

lemma raise_epochs:
  assumes "distinct (map tp_stream ps)"
  shows "map_of (foldl raise_epoch h ps) s = (case map_of (map (\<lambda>p. (tp_stream p, p)) ps) s of
      None \<Rightarrow> map_of h s
    | Some p \<Rightarrow> Some (case map_of h s of Some e \<Rightarrow> max e (tp_writer_epoch p) | None \<Rightarrow> tp_writer_epoch p))"
  using assms
proof (induction ps arbitrary: h)
  case (Cons p ps)
  have "map_of (map (\<lambda>p. (tp_stream p, p)) ps) (tp_stream p) = None"
    using Cons.prems by (auto simp: map_of_eq_None_iff)
  then show ?case
    using Cons by (auto simp: raise_epoch_def map_of_bt_insert split: option.split)
qed simp

lemma bt_wf_raise: "bt_wf h \<Longrightarrow> bt_wf (foldl raise_epoch h ps)"
  by (induction ps arbitrary: h) (auto simp: raise_epoch_def)

lemma below_compact: "below_trim (compact_index i t) s n \<longleftrightarrow> \<not> above t (s, n)"
  by (auto simp: below_trim_def above_def compact_index_def split: option.split)

lemma compact_keeps_above:
  assumes "index_wf i" "extends_trim i t" "map_of (records i) (s, n) = Some r" "map_of t s = map_of (trimmed i) s"
  shows "above t (s, n)"
  using index_wfD(5) [OF assms(1,3)] assms(4) by (auto simp: above_def below_trim_def split: option.splits)

lemma highest_compact:
  assumes "index_wf i" "extends_trim i t"
  shows "map_of (highest_epoch (compact_index i t)) s = (case map_of t s of
      None \<Rightarrow> map_of (highest_epoch i) s
    | Some p \<Rightarrow> Some (max (epoch_or_zero i s) (tp_writer_epoch p)))"
proof -
  have wt: "distinct (map fst t)" using assms(2) by (simp add: extends_trim_def bt_wf_distinct)
  have st: "tp_stream p = u" if "(u, p) \<in> set t" for u p
    using extends_trim_stream(1) [OF assms] that wt by simp
  have eq: "map (\<lambda>p. (tp_stream p, p)) (map snd t) = t"
    using st by (intro nth_equalityI) (auto, metis nth_mem prod.collapse)
  have "map tp_stream (map snd t) = map fst t" using st by (auto intro!: map_cong)
  then have "distinct (map tp_stream (map snd t))" using wt by argo
  from raise_epochs [OF this, of "highest_epoch i" s, unfolded eq] show ?thesis
    by (auto simp: compact_index_def epoch_or_zero_def split: option.split)
qed

lemma epoch_bound:
  assumes "index_wf i" "w \<in> epochs i s"
  shows "w \<le> epoch_or_zero i s"
  using assms index_wfD(8) [OF assms(1), of s] finite_epochs [of i s]
  by (auto simp: epoch_or_zero_def top_epoch_def)

lemma top_compact:
  assumes "index_wf i" "extends_trim i t"
  shows "map_of (highest_epoch (compact_index i t)) s = top_epoch (epochs (compact_index i t) s)"
proof (cases "map_of t s = map_of (trimmed i) s")
  case True
  have "map_of (records (compact_index i t)) (s, n) = map_of (records i) (s, n)" for n
    using compact_keeps_above [OF assms _ True, of n]
    by (cases "map_of (records i) (s, n)") (simp_all add: compact_index_def map_of_bt_retain)
  then have ep: "epochs (compact_index i t) s = epochs i s"
    using True by (simp add: epochs_def compact_index_def)
  show ?thesis
  proof (cases "map_of (trimmed i) s")
    case None
    then show ?thesis unfolding highest_compact [OF assms] ep using True index_wfD(8) [OF assms(1), of s] by simp
  next
    case (Some p)
    then have "tp_writer_epoch p \<in> epochs i s" by (simp add: epochs_def)
    then have "max (epoch_or_zero i s) (tp_writer_epoch p) = epoch_or_zero i s" "epochs i s \<noteq> {}"
      using epoch_bound [OF assms(1), of "tp_writer_epoch p" s] by (auto simp: max_def)
    then show ?thesis unfolding highest_compact [OF assms] ep
      using Some True index_wfD(8) [OF assms(1), of s] by (simp add: epoch_or_zero_def top_epoch_def)
  qed
next
  case False
  then obtain p where p: "map_of t s = Some p" "epoch_or_zero i s \<le> tp_writer_epoch p"
    using assms(2) unfolding extends_trim_def by blast
  have "w \<le> tp_writer_epoch p" if "w \<in> epochs (compact_index i t) s" for w
  proof -
    have "w = tp_writer_epoch p \<or> w \<in> epochs i s"
      using that p(1) by (auto simp: epochs_def compact_index_def map_of_bt_retain split: if_splits)
    then show ?thesis using epoch_bound [OF assms(1), of w s] p(2) by auto
  qed
  moreover have "tp_writer_epoch p \<in> epochs (compact_index i t) s"
    using p(1) by (simp add: epochs_def compact_index_def)
  ultimately have "Max (epochs (compact_index i t) s) = tp_writer_epoch p" "epochs (compact_index i t) s \<noteq> {}"
    using finite_epochs by (auto intro: Max_eqI)
  then show ?thesis using p unfolding highest_compact [OF assms] by (simp add: top_epoch_def max_def)
qed

lemma compact_index_wf:
  assumes "index_wf i" "extends_trim i t"
  shows "index_wf (compact_index i t)"
proof (rule index_wfI)
  note wf = index_wfD [OF assms(1)]
  show "bt_wf (highest_epoch (compact_index i t))" "bt_wf (records (compact_index i t))"
    "bt_wf (committed (compact_index i t))" "bt_wf (trimmed (compact_index i t))"
    using wf(1-4) assms(2) by (simp_all add: compact_index_def bt_wf_raise extends_trim_def)
  show "stream r = s \<and> lsn r = n \<and> \<not> below_trim (compact_index i t) s n"
    if "map_of (records (compact_index i t)) (s, n) = Some r" for s n r
    using that wf(5) [of s n r] unfolding below_compact by (simp add: compact_index_def map_of_bt_retain split: if_splits)
  show "map_of (records (compact_index i t)) k = Some r" if "map_of (committed (compact_index i t)) k = Some r" for k r
    using that wf(6) [of k r] by (simp add: compact_index_def map_of_bt_retain split: if_splits)
  show "tp_stream p = s \<and> s \<noteq> [] \<and> 0 < archived_lsn p" if "map_of (trimmed (compact_index i t)) s = Some p" for s p
    using extends_trim_stream [OF assms, of s p] that by (simp add: compact_index_def)
  show "map_of (highest_epoch (compact_index i t)) s = top_epoch (epochs (compact_index i t) s)" for s
    by (rule top_compact [OF assms])
qed

text \<open>The replacement file of a compaction stands for the compacted indexes.\<close>

lemma compact_entries_dump: "compact_entries i t = dump_entries (compact_index i t)"
proof -
  have "record_entries (committed i) e = record_entries (bt_retain (above t) (committed i)) e"
    if "e \<in> set (bt_retain (above t) (records i))" for e
    using that by (auto simp: record_entries_def bt_retain_def [of _ "records i"] map_of_bt_retain)
  then show ?thesis by (simp add: compact_entries_def dump_entries_def compact_index_def cong: map_cong)
qed

lemma compact_cases:
  assumes "index_wf (idx d)" "compact_archived_batch J io d prefixes = (d', res)"
  obtains (kept) "d' = d" "(\<exists>e. res = Inl e) \<or> res = Inr 0"
    | (compacted) t where "next_trimmed (idx d) prefixes (trimmed (idx d)) = Inr t" "extends_trim (idx d) t"
        "d' = d\<lparr>log_file := json_lines J (compact_entries (idx d) t), idx := compact_index (idx d) t\<rparr>"
        "res = Inr (length (filter (\<lambda>e. \<not> above t (fst e)) (records (idx d)))) \<or> (\<exists>e. res = Inl e)"
proof (cases "next_trimmed (idx d) prefixes (trimmed (idx d))")
  case (Inl e)
  then show ?thesis using assms(2) by (intro kept) (auto simp: compact_archived_batch_def split: if_splits)
next
  case (Inr t)
  have x: "extends_trim (idx d) t"
    using next_trimmed_extends [OF Inr extends_trim_refl [OF assms(1)]] .
  show ?thesis
  proof (cases "d' = d \<and> ((\<exists>e. res = Inl e) \<or> res = Inr 0)")
    case True
    then show ?thesis using kept by blast
  next
    case False
    then show ?thesis using assms(2) Inr
      by (intro compacted [OF Inr x]) (auto simp: compact_archived_batch_def Let_def split: if_splits compact_outcome.splits)
  qed
qed

lemma compact_log_inv:
  assumes "log_inv J d" "compact_archived_batch J io d prefixes = (d', res)"
  shows "log_inv J d'"
proof -
  have wf: "index_wf (idx d)" using assms(1) by (simp add: log_inv_def)
  from wf assms(2) show ?thesis
  proof (cases rule: compact_cases)
    case (compacted t)
    have "index_wf (compact_index (idx d) t)" using wf compacted(2) by (rule compact_index_wf)
    then show ?thesis using replay_dump compacted(3) unfolding log_inv_def compact_entries_dump by auto
  qed (use assms(1) in simp)
qed

section \<open>No holes\<close>

lemma boundary_same: "same_node d d' \<Longrightarrow> has_manifest_boundary d' r = has_manifest_boundary d r"
  by (cases "control d"; cases "control d'") (auto simp: same_node_def has_manifest_boundary_def split: option.split)

lemma no_holes_same:
  assumes "no_holes d" "same_node d d'" "records (idx d') = records (idx d)" "trimmed (idx d') = trimmed (idx d)"
  shows "no_holes d'"
  using assms boundary_same [OF assms(2)]
  by (simp add: no_holes_def has_predecessor_def has_compacted_predecessor_def)

lemma no_holes_grow:
  assumes "no_holes d" "same_node d d'" "trimmed (idx d') = trimmed (idx d)"
    "\<And>k r. map_of (records (idx d)) k = Some r \<Longrightarrow> map_of (records (idx d')) k \<noteq> None"
    "\<And>k r. map_of (records (idx d')) k = Some r \<Longrightarrow> map_of (records (idx d)) k = Some r \<or> has_predecessor d' r"
  shows "no_holes d'"
  unfolding no_holes_def
proof (intro allI impI)
  fix k r assume r: "map_of (records (idx d')) k = Some r"
  show "has_predecessor d' r"
  proof (cases "map_of (records (idx d)) k = Some r")
    case True
    then have "has_predecessor d r" using assms(1) unfolding no_holes_def by blast
    then show ?thesis
      using boundary_same [OF assms(2), of r] assms(3) assms(4) [of "(stream r, lsn r - 1)"]
      by (auto simp: has_predecessor_def has_compacted_predecessor_def bt_has_iff)
  next
    case False
    then show ?thesis using assms(5) [OF r] by simp
  qed
qed

lemma append_no_holes:
  assumes "no_holes d" "append_locked J io d r token = (d', res)"
  shows "no_holes d'"
proof (cases "appends_record J d r token")
  case True
  then have pr: "has_predecessor d r" by (simp add: appends_record_def)
  show ?thesis
  proof (cases io)
    case Written
    then have d': "d' = d\<lparr>log_file := log_file d @ json_line J (RecordEntry r), idx := filed (idx d) r\<rparr>"
      using assms(2) True by (simp add: append_locked_new write_log_def)
    have sn: "same_node d d'" by (simp add: d' same_node_def)
    have "has_predecessor d' r"
      using pr boundary_same [OF sn, of r]
      by (auto simp: has_predecessor_def has_compacted_predecessor_def bt_has_iff d' records_filed)
    then show ?thesis
      by (intro no_holes_grow [OF assms(1) sn]) (auto simp: d' records_filed split: if_splits)
  next
    case (WriteFailed n t e)
    then have "d' = d\<lparr>log_file := log_file d @ take n (json_line J (RecordEntry r))\<rparr>"
      using assms(2) True by (simp add: append_locked_new write_log_def)
    then show ?thesis by (intro no_holes_same [OF assms(1)]) (simp_all add: same_node_def)
  qed
next
  case False
  then show ?thesis using append_locked_kept [OF False] assms by auto
qed

lemma batch_new_preds:
  assumes "batch_new d rs acc = Inr new" "r \<in> set new"
  shows "r \<in> set acc \<or> has_predecessor d r \<or> (\<exists>q \<in> set new. stream q = stream r \<and> lsn q = lsn r - 1)"
  using assms
proof (induction rs arbitrary: acc)
  case (Cons q rs)
  show ?case
  proof (cases "map_of (records (idx d)) (record_key q)")
    case None
    have ok: "epoch_or_zero (idx d) (stream q) \<le> writer_epoch q" "\<not> below_trim (idx d) (stream q) (lsn q)"
      using Cons.prems(1) by (simp_all add: Let_def not_less split: if_splits)
    have b: "batch_new d rs (acc @ [q]) = Inr new"
      "has_predecessor d q \<or> (\<exists>p \<in> set acc. stream p = stream q \<and> lsn p = lsn q - 1)"
      using Cons.prems(1) None ok
      by (auto simp: Let_def has_predecessor_def list_ex_iff split: if_splits)
    have "set acc \<subseteq> set new" using batch_new_result [OF b(1)] by auto
    then show ?thesis using Cons.IH [OF b(1) Cons.prems(2)] b(2) by auto
  next
    case (Some x)
    then have "batch_new d rs acc = Inr new"
      using Cons.prems(1) by (auto simp: Let_def split: if_splits)
    then show ?thesis using Cons.IH Cons.prems(2) by blast
  qed
qed simp

lemma records_insert_commit [simp]:
  "records (foldl insert_commit i cs) = records i" "trimmed (foldl insert_commit i cs) = trimmed i"
  "highest_epoch (foldl insert_commit i cs) = highest_epoch i"
  by (induction cs arbitrary: i) (simp_all add: insert_commit_def)

text \<open>What a batch has written when its checks pass.\<close>

lemma batch_plan_records:
  assumes "index_wf (idx d)" "consecutive rs" "batch_plan d rs commit = Inr (new, commits)"
  shows "map_of (records (foldl insert_record (idx d) new)) k =
      (if k \<in> record_key ` set new then map_of (map (\<lambda>r. (record_key r, r)) rs) k else map_of (records (idx d)) k)"
    "trimmed (foldl insert_record (idx d) new) = trimmed (idx d)" "distinct (map record_key new)" "set new \<subseteq> set rs"
    "committed (foldl insert_record (idx d) new) = committed (idx d)"
    "\<And>r. r \<in> set new \<Longrightarrow> map_of (records (foldl insert_record (idx d) new)) (record_key r) = Some r"
proof -
  have bn: "batch_new d rs [] = Inr new" using assms(3) by (auto simp: batch_plan_def bind_result_Inr_iff)
  have new: "new = filter (\<lambda>r. map_of (records (idx d)) (record_key r) = None) rs"
    and ok: "\<And>r. r \<in> set rs \<Longrightarrow> \<not> below_trim (idx d) (stream r) (lsn r)"
    using batch_new_result [OF bn] by simp_all
  have drs: "distinct (map record_key rs)" using consecutive_keys [OF assms(2)] .
  show dn: "distinct (map record_key new)" and sub: "set new \<subseteq> set rs"
    unfolding new using drs by (auto intro: distinct_map_filter)
  have okn: "\<not> below_trim (idx d) (stream r) (lsn r) \<and> map_of (records (idx d)) (record_key r) = None" if "r \<in> set new" for r
    using that ok unfolding new by simp
  note fm0 = filed_many [OF assms(1) dn okn]
  have fm: "map_of (records (foldl insert_record (idx d) new)) k =
       (case map_of (map (\<lambda>r. (record_key r, r)) new) k of Some r \<Rightarrow> Some r | None \<Rightarrow> map_of (records (idx d)) k)"
    "committed (foldl insert_record (idx d) new) = committed (idx d)" "trimmed (foldl insert_record (idx d) new) = trimmed (idx d)" for k
    using fm0 by blast+
  have look: "map_of (map (\<lambda>r. (record_key r, r)) xs) (record_key r) = Some r"
    if "distinct (map record_key xs)" "r \<in> set xs" for r xs
    using that by (intro map_of_is_SomeI) (auto simp: comp_def)
  have none: "map_of (map (\<lambda>r. (record_key r, r)) new) k = None" if "k \<notin> record_key ` set new"
    using that by (auto simp: map_of_eq_None_iff)
  show "map_of (records (foldl insert_record (idx d) new)) k =
      (if k \<in> record_key ` set new then map_of (map (\<lambda>r. (record_key r, r)) rs) k else map_of (records (idx d)) k)"
  proof (cases "k \<in> record_key ` set new")
    case True
    then obtain r where r: "r \<in> set new" "k = record_key r" by blast
    then show ?thesis using look [OF dn r(1)] look [OF drs, of r] sub fm(1) [of k] by auto
  next
    case False
    then show ?thesis using none fm(1) [of k] by simp
  qed
  show "map_of (records (foldl insert_record (idx d) new)) (record_key r) = Some r" if "r \<in> set new" for r
    using look [OF dn that] fm(1) [of "record_key r"] by simp
  show "trimmed (foldl insert_record (idx d) new) = trimmed (idx d)"
    "committed (foldl insert_record (idx d) new) = committed (idx d)" by (rule fm)+
qed

lemma batch_no_holes:
  assumes "no_holes d" "index_wf (idx d)" "append_batch J io d rs token commit = (d', res)"
  shows "no_holes d'"
  using append_batch_cases [of J d rs token commit]
proof (elim disjE exE conjE)
  fix r assume "\<forall>io. append_batch J io d rs token commit = (d, r)"
  then show ?thesis using assms by simp
next
  fix new commits
  assume co: "consecutive rs" and pl: "batch_plan d rs commit = Inr (new, commits)"
    and eq: "\<forall>io. append_batch J io d rs token commit =
      (case write_log io (log_file d) (json_lines J (map RecordEntry new @ map CommitEntry commits)) of
          (f, Inl e) \<Rightarrow>
            (d\<lparr>log_file := (case io of
                 WriteFailed _ truncated _ \<Rightarrow> if truncated then take (length (log_file d)) f else f
               | Written \<Rightarrow> f)\<rparr>, Inl e)
        | (f, Inr _) \<Rightarrow>
            (d\<lparr>log_file := f, idx := foldl insert_commit (foldl insert_record (idx d) new) commits\<rparr>, Inr ()))"
  show ?thesis
  proof (cases io)
    case (WriteFailed n t e)
    then have "idx d' = idx d" "same_node d d'"
      using assms(3) eq [rule_format, of io] by (auto simp: write_log_def same_node_def split: if_splits)
    then show ?thesis by (intro no_holes_same [OF assms(1)]) simp_all
  next
    case Written
    then have d': "idx d' = foldl insert_commit (foldl insert_record (idx d) new) commits" "same_node d d'"
      using assms(3) eq [rule_format, of io] by (auto simp: write_log_def same_node_def)
    note bp = batch_plan_records [OF assms(2) co pl]
    have bn: "batch_new d rs [] = Inr new" using pl by (auto simp: batch_plan_def bind_result_Inr_iff)
    have grow: "map_of (records (idx d')) k \<noteq> None" if "map_of (records (idx d)) k \<noteq> None" for k
    proof (cases "k \<in> record_key ` set new")
      case True
      then obtain q where "q \<in> set new" "k = record_key q" by blast
      then show ?thesis using bp(6) [of q] by (simp add: d'(1))
    next
      case False
      then show ?thesis using that bp(1) [of k] by (simp add: d'(1))
    qed
    have "has_predecessor d' r" if r: "r \<in> set new" for r
    proof -
      have "has_predecessor d r \<or> (\<exists>q \<in> set new. stream q = stream r \<and> lsn q = lsn r - 1)"
        using batch_new_preds [OF bn r] by simp
      then show ?thesis
      proof
        assume "has_predecessor d r"
        then show ?thesis using boundary_same [OF d'(2), of r] grow [of "(stream r, lsn r - 1)"] bp(2)
          by (auto simp: has_predecessor_def has_compacted_predecessor_def bt_has_iff d'(1))
      next
        assume "\<exists>q \<in> set new. stream q = stream r \<and> lsn q = lsn r - 1"
        then obtain q where "q \<in> set new" "record_key q = (stream r, lsn r - 1)" by (auto simp: record_key_def)
        then have "map_of (records (idx d')) (stream r, lsn r - 1) = Some q" using bp(6) [of q] by (simp add: d'(1))
        then show ?thesis by (simp add: has_predecessor_def bt_has_iff)
      qed
    qed
    then have "map_of (records (idx d)) k = Some r \<or> has_predecessor d' r" if "map_of (records (idx d')) k = Some r" for k r
    proof (cases "k \<in> record_key ` set new")
      case True
      then obtain q where q: "q \<in> set new" "k = record_key q" by blast
      then have "q = r" using bp(6) [OF q(1)] that by (simp add: d'(1))
      then show ?thesis using \<open>\<And>r. r \<in> set new \<Longrightarrow> has_predecessor d' r\<close> q(1) by blast
    next
      case False
      then show ?thesis using that bp(1) [of k] by (simp add: d'(1))
    qed
    then show ?thesis using grow bp(2) by (intro no_holes_grow [OF assms(1) d'(2)]) (auto simp: d'(1))
  qed
qed

section \<open>The invariant of a node\<close>

lemma withdraw_no_holes:
  assumes "no_holes d" "index_wf (idx d)" "same_node d d'" "idx d' = withdraw_suffix s n (idx d)"
  shows "no_holes d'"
  unfolding no_holes_def
proof (intro allI impI)
  fix k r assume r: "map_of (records (idx d')) k = Some r"
  obtain u m where k: "k = (u, m)" by fastforce
  have kept: "map_of (records (idx d)) (u, m) = Some r" "\<not> (u = s \<and> n \<le> m)"
    using r by (auto simp: assms(4) k withdraw_suffix_fields split: if_splits)
  then have "stream r = u" "lsn r = m" using index_wfD(5) [OF assms(2), of u m r] by simp_all
  moreover have "has_predecessor d r" using assms(1) kept(1) unfolding no_holes_def by blast
  ultimately show "has_predecessor d' r"
    using kept(2) boundary_same [OF assms(3), of r]
    by (auto simp: has_predecessor_def has_compacted_predecessor_def bt_has_iff assms(4) withdraw_suffix_fields)
qed

lemma compact_no_holes:
  assumes "no_holes d" "index_wf (idx d)" "same_node d d'" "extends_trim (idx d) t" "idx d' = compact_index (idx d) t"
  shows "no_holes d'"
  unfolding no_holes_def
proof (intro allI impI)
  fix k r assume r: "map_of (records (idx d')) k = Some r"
  obtain u m where k: "k = (u, m)" by fastforce
  have kept: "map_of (records (idx d)) (u, m) = Some r" "above t (u, m)"
    using r by (auto simp: assms(5) k compact_index_def map_of_bt_retain split: if_splits)
  then have um: "stream r = u" "lsn r = m" using index_wfD(5) [OF assms(2), of u m r] by simp_all
  have pr: "has_predecessor d r" using assms(1) kept(1) unfolding no_holes_def by blast
  show "has_predecessor d' r"
  proof (cases "above t (u, m - 1)")
    case True
    have "\<not> has_compacted_predecessor (idx d) r"
    proof
      assume "has_compacted_predecessor (idx d) r"
      then obtain q where q: "map_of (trimmed (idx d)) u = Some q" "archived_lsn q = m - 1"
        using um by (auto simp: has_compacted_predecessor_def split: option.splits)
      then have "\<exists>p. map_of t u = Some p \<and> archived_lsn q \<le> archived_lsn p"
        using assms(4) unfolding extends_trim_def by (metis order_refl)
      then show False using True q(2) by (auto simp: above_def)
    qed
    then show ?thesis using pr True um boundary_same [OF assms(3), of r]
      by (auto simp: has_predecessor_def bt_has_iff assms(5) compact_index_def map_of_bt_retain)
  next
    case False
    then have "has_compacted_predecessor (idx d') r"
      using kept(2) um by (auto simp: has_compacted_predecessor_def assms(5) compact_index_def above_def split: option.splits)
    then show ?thesis by (simp add: has_predecessor_def)
  qed
qed

lemma marker_readable:
  assumes "trim (mt_owner t) \<noteq> []" "trim (mt_signature t) \<noteq> []"
  shows "read_maintenance_state (Marker \<lparr>ms_version = MAINTENANCE_MARKER_VERSION, ms_generation = mt_generation t,
      ms_active = Some (marker t), last_released = None\<rparr>) = Inr \<lparr>ms_version = MAINTENANCE_MARKER_VERSION,
      ms_generation = mt_generation t, ms_active = Some (marker t), last_released = None\<rparr>"
    "read_maintenance_state (Marker \<lparr>ms_version = MAINTENANCE_MARKER_VERSION, ms_generation = mt_generation t,
      ms_active = None, last_released = Some (marker t)\<rparr>) = Inr \<lparr>ms_version = MAINTENANCE_MARKER_VERSION,
      ms_generation = mt_generation t, ms_active = None, last_released = Some (marker t)\<rparr>"
  using assms by (simp_all add: read_maintenance_state_def fence_invalid_def marker_def)

lemma set_maintenance_inv:
  assumes "maintenance_inv d" "set_maintenance io d m = (d', res)" "read_maintenance_state (Marker m) = Inr m"
    "ms_generation (maintenance d) \<le> ms_generation m"
  shows "maintenance_inv d'" "idx d' = idx d" "log_file d' = log_file d" "same_node d d'"
    "ms_generation (maintenance d) \<le> ms_generation (maintenance d')"
  using assms
  by (auto simp: maintenance_inv_def set_maintenance_def persist_maintenance_state_def same_node_def
      split: persist_outcome.splits if_splits)

lemma fence_step:
  assumes "maintenance_inv d" "token_ok t" "fence io d t = (d', res)"
  shows "maintenance_inv d' \<and> idx d' = idx d \<and> log_file d' = log_file d \<and> same_node d d' \<and>
    ms_generation (maintenance d) \<le> ms_generation (maintenance d')"
proof (cases "ms_active (maintenance d) = None \<and> \<not> mt_generation t \<le> ms_generation (maintenance d)")
  case True
  then have sm: "set_maintenance io d \<lparr>ms_version = MAINTENANCE_MARKER_VERSION, ms_generation = mt_generation t,
      ms_active = Some (marker t), last_released = None\<rparr> = (d', res)"
    using assms(3) by (simp add: fence_def)
  show ?thesis
    using set_maintenance_inv [OF assms(1) sm] marker_readable(1) [of t] assms(2) True by (simp add: token_ok_def)
next
  case False
  then have "d' = d" using assms(3) by (auto simp: fence_def split: option.splits if_splits)
  then show ?thesis using assms(1) by (simp add: same_node_def)
qed

lemma active_generation:
  assumes "maintenance_inv d" "ms_active (maintenance d) = Some (marker t)"
  shows "ms_generation (maintenance d) = mt_generation t"
  using assms by (auto simp: maintenance_inv_def read_maintenance_state_def fence_invalid_def marker_def split: if_splits)

lemma release_step:
  assumes "maintenance_inv d" "token_ok t" "release_fence io d t = (d', res)"
  shows "maintenance_inv d' \<and> idx d' = idx d \<and> log_file d' = log_file d \<and> same_node d d' \<and>
    ms_generation (maintenance d) \<le> ms_generation (maintenance d')"
proof (cases "ms_active (maintenance d) = Some (marker t) \<or>
    ms_active (maintenance d) = None \<and> last_released (maintenance d) \<noteq> Some (marker t) \<and>
    ms_generation (maintenance d) < mt_generation t")
  case True
  then have sm: "set_maintenance io d \<lparr>ms_version = MAINTENANCE_MARKER_VERSION, ms_generation = mt_generation t,
      ms_active = None, last_released = Some (marker t)\<rparr> = (d', res)"
    "ms_generation (maintenance d) \<le> mt_generation t"
    using assms(3) active_generation [OF assms(1), of t] by (auto simp: release_fence_def Let_def)
  show ?thesis
    using set_maintenance_inv [OF assms(1) sm(1)] marker_readable(2) [of t] assms(2) sm(2) by (simp add: token_ok_def)
next
  case False
  then have "d' = d" using assms(3) by (auto simp: release_fence_def Let_def split: option.splits if_splits)
  then show ?thesis using assms(1) by (simp add: same_node_def)
qed

lemma disk_open_result:
  assumes "disk_open J sha256 io io' cap name tier v = (v', Inr d')"
  shows "node_name d' = name" "maintenance_file d' = v_marker v" "read_maintenance_state (v_marker v) = Inr (maintenance d')"
    "open_log J (v_log v) = Inr (log_file d', idx d')"
    "map_option stream_segments (control d') = map_option stream_segments (v_control v)"
proof -
  have ne: "trim name \<noteq> []" "trim tier \<noteq> []" using assms by (auto simp: disk_open_def split: if_splits)
  obtain m f i where r: "read_maintenance_state (v_marker v) = Inr m" "open_log J (v_log v) = Inr (f, i)"
    using assms ne by (auto simp: disk_open_def bind_result_def split: sum.splits prod.splits)
  let ?d = "\<lparr>log_file = f, idx = i, maintenance = m, maintenance_file = v_marker v, log_max_bytes = cap,
      node_name = name, control = v_control v, placement = None\<rparr>"
  have "node_name d' = name \<and> maintenance_file d' = v_marker v \<and> maintenance d' = m \<and> log_file d' = f \<and> idx d' = i \<and>
      map_option stream_segments (control d') = map_option stream_segments (v_control v)"
  proof (cases "v_control v")
    case None
    then have "d' = ?d" using assms ne r by (simp add: disk_open_def)
    then show ?thesis by simp
  next
    case (Some c)
    obtain c' f' res where op: "open_placement sha256 io io' c (v_sidecar v) = (c', f', res)" by (metis prod_cases3)
    have "stream_segments c' = stream_segments c"
      using op by (auto simp: open_placement_def split: if_splits sum.splits prod.splits persist_outcome.splits)
    moreover obtain st where "d' = ?d\<lparr>control := Some c', placement := Some st\<rparr>"
      using assms ne r op Some by (auto simp: disk_open_def bind_result_Inr_iff)
    ultimately show ?thesis using Some by simp
  qed
  then show "node_name d' = name" "maintenance_file d' = v_marker v" "read_maintenance_state (v_marker v) = Inr (maintenance d')"
    "open_log J (v_log v) = Inr (log_file d', idx d')"
    "map_option stream_segments (control d') = map_option stream_segments (v_control v)"
    using r by auto
qed

context logged_operation

begin

lemma frame:
  assumes "index_wf (idx d)" "operate J io d = (d', res)"
  shows "\<exists>f i. d' = d\<lparr>log_file := f, idx := i\<rparr>"
  using contract [OF assms(1), of J]
proof (elim disjE exE conjE)
  fix r assume "\<forall>io. operate J io d = (d, r)"
  then have "d' = d\<lparr>log_file := log_file d, idx := idx d\<rparr>" using assms(2) by simp
  then show ?thesis by blast
next
  fix es i a
  assume w: "operate J Written d = (d\<lparr>log_file := log_file d @ json_lines J es, idx := i\<rparr>, Inr a)"
    and fl: "\<forall>n t e. \<exists>f \<in> {log_file d, log_file d @ take n (json_lines J es)}.
        operate J (WriteFailed n t e) d = (d\<lparr>log_file := f\<rparr>, Inl (NodeStorage e))"
  show ?thesis
  proof (cases io)
    case Written
    then show ?thesis using w assms(2) by auto
  next
    case (WriteFailed n t e)
    obtain f where "operate J (WriteFailed n t e) d = (d\<lparr>log_file := f\<rparr>, Inl (NodeStorage e))"
      using fl by blast
    then have "d' = d\<lparr>log_file := f\<rparr>" using assms(2) WriteFailed by (metis Pair_inject)
    then show ?thesis by (intro exI [of _ f] exI [of _ "idx d"]) simp
  qed
qed

lemma nothing_written:
  assumes "index_wf (idx d)" "operate J (WriteFailed 0 t e) d = (d', res)"
  shows "d' = d"
  using contract [OF assms(1), of J]
proof (elim disjE exE conjE)
  fix es
  assume "\<forall>n t e. \<exists>f \<in> {log_file d, log_file d @ take n (json_lines J es)}.
        operate J (WriteFailed n t e) d = (d\<lparr>log_file := f\<rparr>, Inl (NodeStorage e))"
  from this [rule_format, of 0 t e] show ?thesis using assms(2) by simp
qed (use assms(2) in simp)

end

lemma batch_truncated:
  assumes "append_batch J (WriteFailed n True e) d rs token commit = (d', res)"
  shows "d' = d"
  using append_batch_cases [of J d rs token commit]
proof (elim disjE exE conjE)
  fix new commits
  assume "\<forall>io. append_batch J io d rs token commit =
      (case write_log io (log_file d) (json_lines J (map RecordEntry new @ map CommitEntry commits)) of
          (f, Inl e) \<Rightarrow>
            (d\<lparr>log_file := (case io of
                 WriteFailed _ truncated _ \<Rightarrow> if truncated then take (length (log_file d)) f else f
               | Written \<Rightarrow> f)\<rparr>, Inl e)
        | (f, Inr _) \<Rightarrow>
            (d\<lparr>log_file := f, idx := foldl insert_commit (foldl insert_record (idx d) new) commits\<rparr>, Inr ()))"
  from this [rule_format, of "WriteFailed n True e"] show ?thesis using assms by (simp add: write_log_def)
qed (use assms in simp)

lemma node_inv_parts:
  assumes "node_inv J d"
  shows "log_inv J d" "no_holes d" "maintenance_inv d" "index_wf (idx d)"
  using assms by (simp_all add: node_inv_def log_inv_def)

text \<open>A change of neither the log nor the indexes nor the fence.\<close>

lemma node_inv_same:
  assumes "node_inv J d" "log_file d' = log_file d" "idx d' = idx d" "same_node d d'"
    "maintenance d' = maintenance d" "maintenance_file d' = maintenance_file d"
  shows "node_inv J d'"
  using assms no_holes_same [OF node_inv_parts(2) [OF assms(1)] assms(4)]
  by (simp add: node_inv_def log_inv_def maintenance_inv_def)

lemma node_inv_logged:
  assumes "node_inv J d" "log_inv J d'" "no_holes d'" "d' = d\<lparr>log_file := f, idx := i\<rparr>"
  shows "node_inv J d'"
  using assms by (simp add: node_inv_def maintenance_inv_def)

lemma append_node_inv:
  assumes "node_inv J d" "append_locked J io d r token = (d', res)" "io = Written \<or> io = WriteFailed 0 t e"
  shows "node_inv J d'"
proof -
  note inv = node_inv_parts [OF assms(1)]
  obtain f i where f: "d' = d\<lparr>log_file := f, idx := i\<rparr>" using appending.frame [OF inv(4) assms(2)] by blast
  have "log_inv J d'"
    using assms(2,3) appending.keeps_log_inv [OF inv(1)] appending.nothing_written [OF inv(4)] inv(1) by blast
  then show ?thesis using append_no_holes [OF inv(2) assms(2)] f by (rule node_inv_logged [OF assms(1)])
qed

lemma batch_node_inv:
  assumes "node_inv J d" "append_batch J io d rs token commit = (d', res)" "io = Written \<or> io = WriteFailed n True e"
  shows "node_inv J d'"
proof -
  note inv = node_inv_parts [OF assms(1)]
  obtain f i where f: "d' = d\<lparr>log_file := f, idx := i\<rparr>" using batching.frame [OF inv(4) assms(2)] by blast
  have "log_inv J d'"
    using assms(2,3) batching.keeps_log_inv [OF inv(1)] batch_truncated inv(1) by blast
  then show ?thesis using batch_no_holes [OF inv(2,4) assms(2)] f by (rule node_inv_logged [OF assms(1)])
qed

lemma commit_node_inv:
  assumes "node_inv J d" "commit_inner J io d r token = (d', res)" "io = Written \<or> io = WriteFailed 0 t e"
  shows "node_inv J d'"
proof -
  note inv = node_inv_parts [OF assms(1)]
  obtain f i where f: "d' = d\<lparr>log_file := f, idx := i\<rparr>" using committing.frame [OF inv(4) assms(2)] by blast
  have l: "log_inv J d'"
    using assms(2,3) committing.keeps_log_inv [OF inv(1)] committing.nothing_written [OF inv(4)] inv(1) by blast
  have "records (idx d') = records (idx d) \<and> trimmed (idx d') = trimmed (idx d)"
    using assms(2) by (auto simp: commit_inner_def Let_def split: if_splits sum.splits prod.splits)
  moreover have "same_node d d'" by (simp add: f same_node_def)
  ultimately have "no_holes d'" using no_holes_same [OF inv(2)] by blast
  then show ?thesis using l f by (intro node_inv_logged [OF assms(1)])
qed

lemma supersede_node_inv:
  assumes "node_inv J d" "supersede J io d s n w = (d', res)" "io = Written \<or> io = WriteFailed 0 t e"
  shows "node_inv J d'"
proof -
  note inv = node_inv_parts [OF assms(1)]
  obtain f i where f: "d' = d\<lparr>log_file := f, idx := i\<rparr>" using superseding.frame [OF inv(4) assms(2)] by blast
  have l: "log_inv J d'"
    using assms(2,3) superseding.keeps_log_inv [OF inv(1)] superseding.nothing_written [OF inv(4)] inv(1) by blast
  have "idx d' = idx d \<or> idx d' = withdraw_suffix s n (idx d)"
    using assms(2) by (auto simp: supersede_def Let_def split: if_splits sum.splits prod.splits)
  moreover have sn: "same_node d d'" by (simp add: f same_node_def)
  ultimately have "no_holes d'"
    using no_holes_same [OF inv(2) sn] withdraw_no_holes [OF inv(2,4) sn] by (elim disjE) simp_all
  then show ?thesis using l f by (intro node_inv_logged [OF assms(1)])
qed

lemma compact_node_inv:
  assumes "node_inv J d" "compact_archived_batch J io d prefixes = (d', res)"
  shows "node_inv J d'"
proof -
  note inv = node_inv_parts [OF assms(1)]
  from inv(4) assms(2) show ?thesis
  proof (cases rule: compact_cases)
    case (compacted t)
    have "same_node d d'" by (simp add: compacted(3) same_node_def)
    then have "no_holes d'" using compact_no_holes [OF inv(2,4) _ compacted(2)] compacted(3) by simp
    then show ?thesis using compact_log_inv [OF inv(1) assms(2)] compacted(3) by (intro node_inv_logged [OF assms(1)])
  qed (use assms(1) in simp)
qed

lemma restart_node_inv:
  assumes "json_ok J" "node_inv J d" "disk_open J sha256 io io' cap (node_name d) tier (volume d) = (v, Inr d')"
    "length (log_file d) \<le> u64_max"
  shows "node_inv J d'" "log_file d' = log_file d" "idx d' = idx d" "ms_generation (maintenance d) \<le> ms_generation (maintenance d')"
proof -
  note inv = node_inv_parts [OF assms(2)]
  note op = disk_open_result [OF assms(3)]
  obtain es where es: "log_file d = json_lines J es" "apply_entries es empty_index = Inr (idx d)"
    using inv(1) by (auto simp: log_inv_def)
  have "open_log J (log_file d) = Inr (log_file d, idx d)"
    using open_lines [OF assms(1)] assms(4) es by simp
  then show same: "log_file d' = log_file d" "idx d' = idx d" using op(4) by (simp_all add: volume_def)
  have sn: "same_node d d'" using op(1,5) by (simp add: same_node_def volume_def)
  obtain m where m: "read_maintenance_state (maintenance_file d) = Inr m" "ms_generation (maintenance d) \<le> ms_generation m"
    using inv(3) by (auto simp: maintenance_inv_def)
  then have m': "maintenance d' = m" using op(3) by (simp add: volume_def)
  then show "ms_generation (maintenance d) \<le> ms_generation (maintenance d')" using m by simp
  have "read_maintenance_state (Marker m) = Inr m"
    using m(1) by (auto simp: read_maintenance_state_def maintenance_default_def fence_invalid_def split: marker_file.splits if_splits)
  then have "maintenance_inv d'" using op(2) m(1) m' by (simp add: maintenance_inv_def volume_def)
  then show "node_inv J d'" using no_holes_same [OF inv(2) sn] same inv(1) by (simp add: node_inv_def log_inv_def)
qed

lemma placement_same:
  "placement_lease d s p = (d', r) \<Longrightarrow> \<exists>st. d' = d\<lparr>placement := st\<rparr>"
  "\<exists>st. drop_lease d s l = d\<lparr>placement := st\<rparr>"
  "placement_fence_begin d s q = (d', r') \<Longrightarrow> \<exists>st. d' = d\<lparr>placement := st\<rparr>"
  "placement_fence_finish io d s q = Some (d', r'') \<Longrightarrow> \<exists>st. d' = d\<lparr>placement := st\<rparr>"
proof -
  have id: "\<exists>st. d = d\<lparr>placement := st\<rparr>" by (intro exI [of _ "placement d"]) simp
  show "placement_lease d s p = (d', r) \<Longrightarrow> \<exists>st. d' = d\<lparr>placement := st\<rparr>"
    using id by (auto simp: placement_lease_def Let_def split: option.splits sum.splits prod.splits bool.splits)
  show "\<exists>st. drop_lease d s l = d\<lparr>placement := st\<rparr>"
    using id by (auto simp: drop_lease_def split: option.splits)
  show "placement_fence_begin d s q = (d', r') \<Longrightarrow> \<exists>st. d' = d\<lparr>placement := st\<rparr>"
    using id by (auto simp: placement_fence_begin_def split: option.splits sum.splits prod.splits)
  show "placement_fence_finish io d s q = Some (d', r'') \<Longrightarrow> \<exists>st. d' = d\<lparr>placement := st\<rparr>"
    by (cases "placement d") (auto simp: placement_fence_finish_def)
qed

lemma node_inv_placement:
  assumes "node_inv J d" "\<exists>st. d' = d\<lparr>placement := st\<rparr>"
  shows "node_inv J d'"
proof -
  obtain st where "d' = d\<lparr>placement := st\<rparr>" using assms(2) by blast
  then show ?thesis by (intro node_inv_same [OF assms(1)]) (simp_all add: same_node_def)
qed

lemma node_inv_maintenance:
  assumes "node_inv J d" "maintenance_inv d' \<and> idx d' = idx d \<and> log_file d' = log_file d \<and> same_node d d' \<and> g"
  shows "node_inv J d'"
  using assms no_holes_same [OF node_inv_parts(2) [OF assms(1)]] by (auto simp: node_inv_def log_inv_def)

lemma node_inv_step:
  assumes "json_ok J" "node_inv J d" "node_step J d d'"
  shows "node_inv J d'"
  using assms(3)
proof (cases rule: node_step.cases)
  case lease
  from placement_same(1) [OF this] show ?thesis by (rule node_inv_placement [OF assms(2)])
next
  case unlease
  then show ?thesis using node_inv_placement [OF assms(2)] placement_same(2) by simp
next
  case append
  then show ?thesis by (rule append_node_inv [OF assms(2)])
next
  case append_many
  then show ?thesis by (rule batch_node_inv [OF assms(2)])
next
  case mark
  then show ?thesis by (rule commit_node_inv [OF assms(2)])
next
  case withdraw
  then show ?thesis by (rule supersede_node_inv [OF assms(2)])
next
  case compact
  then show ?thesis by (rule compact_node_inv [OF assms(2)])
next
  case hold
  from fence_step [OF node_inv_parts(3) [OF assms(2)] hold(2,1)] show ?thesis by (rule node_inv_maintenance [OF assms(2)])
next
  case release
  from release_step [OF node_inv_parts(3) [OF assms(2)] release(2,1)] show ?thesis by (rule node_inv_maintenance [OF assms(2)])
next
  case fence_begins
  from placement_same(3) [OF this] show ?thesis by (rule node_inv_placement [OF assms(2)])
next
  case fence_ends
  from placement_same(4) [OF this] show ?thesis by (rule node_inv_placement [OF assms(2)])
next
  case restart
  from restart_node_inv(1) [OF assms(1,2) this] show ?thesis .
qed

lemma node_reachable_inv: "node_reachable J d \<Longrightarrow> json_ok J \<Longrightarrow> node_inv J d"
proof (induction rule: node_reachable.induct)
  case (fresh d)
  have "log_inv J d" unfolding log_inv_def using fresh(1,2) empty_index_wf by (auto intro: exI [of _ "[]"])
  moreover have "no_holes d" using fresh(2) by (simp add: no_holes_def empty_index_def)
  moreover have "maintenance_inv d" using fresh(3,4)
    by (simp add: maintenance_inv_def read_maintenance_state_def maintenance_default_def fence_invalid_def)
  ultimately show ?case by (simp add: node_inv_def)
qed (use node_inv_step in blast)

end
