(* ===== verification/Node_Safety.thy ===== *)
theory Node_Safety
  imports Disk_Replica
begin

text \<open>
  What a storage node promises over its whole life, a run of \<open>node_step\<close>: the log stands for the
  indexes at every moment, so acknowledged batches survive a restart and a torn write is harmless; a
  batch is its appends; there are no holes; withdrawals, compactions and the maintenance fence do
  what they say. Two theorems state where the code falls short of its comments: the newline of a torn
  line is not restored on opening, and the log budget does not bind batches.
\<close>

section \<open>Specification\<close>


definition with_new :: "json \<Rightarrow> disk_replica \<Rightarrow> encrypted_record list \<Rightarrow> disk_replica" where
  "with_new J d new = d\<lparr>log_file := log_file d @ json_lines J (map RecordEntry new), idx := foldl insert_record (idx d) new\<rparr>"


definition demo_node :: disk_replica where
  "demo_node = \<lparr>log_file = [], idx = empty_index, maintenance = maintenance_default, maintenance_file = MarkerMissing,
     log_max_bytes = None, node_name = ''n'', control = None, placement = None\<rparr>"

definition demo_held :: disk_replica where
  "demo_held = fst (append_locked demo_json Written demo_node (demo_record 1) None)"

definition demo_batch :: disk_replica where
  "demo_batch = fst (append_many_inner_with_placement demo_json Written demo_node [demo_record 1, demo_record 2] None True None)"

definition demo_token :: "nat \<Rightarrow> maintenance_token" where
  "demo_token n = \<lparr>mt_owner = ''op'', mt_generation = n, mt_signature = ''ab''\<rparr>"


definition demo_torn :: disk_replica where
  "demo_torn = demo_node\<lparr>log_file := [2], idx := filed empty_index (demo_record 1)\<rparr>"

section \<open>A batch is its appends\<close>




lemma with_new_fields [simp]:
  "maintenance (with_new J d new) = maintenance d" "log_max_bytes (with_new J d new) = log_max_bytes d"
  "idx (with_new J d new) = foldl insert_record (idx d) new"
  "with_new J d [] = d"
  by (simp_all add: with_new_def)







section \<open>Acknowledged batches\<close>







section \<open>The properties\<close>

lemma demo_node_reachable: "node_reachable demo_json demo_node"
  by (rule node_reachable.fresh) (simp_all add: demo_node_def)

lemmas demo_node_defs = demo_node_def maintenance_default_def maintenance_allowed_def empty_index_def epoch_or_zero_def
  below_trim_def demo_record_def record_key_def has_compacted_predecessor_def write_log_def Let_def

lemma demo_first: "appends_record demo_json demo_node (demo_record 1) None"
  by (simp add: appends_record_def has_predecessor_def demo_node_defs)

lemma demo_held_eq:
  "append_locked demo_json Written demo_node (demo_record 1) None = (demo_held, Inr ())"
  "demo_held = demo_node\<lparr>log_file := [2, newline], idx := filed empty_index (demo_record 1)\<rparr>"
proof -
  have c: "demo_code (RecordEntry (demo_record 1)) = 0"
    by (simp add: demo_code_def demo_entries_def)
  then have "append_locked demo_json Written demo_node (demo_record 1) None =
      (demo_node\<lparr>log_file := [2, newline], idx := filed empty_index (demo_record 1)\<rparr>, Inr ())"
    unfolding append_locked_new [OF demo_first] by (simp add: write_log_def json_line_def demo_json_def demo_node_def)
  then show "append_locked demo_json Written demo_node (demo_record 1) None = (demo_held, Inr ())"
    "demo_held = demo_node\<lparr>log_file := [2, newline], idx := filed empty_index (demo_record 1)\<rparr>"
    by (simp_all add: demo_held_def)
qed

lemma demo_held_reachable: "node_reachable demo_json demo_held"
  using node_reachable.step [OF demo_node_reachable node_step.append [OF demo_held_eq(1)]] by simp

lemma demo_held_record: "map_of (records (idx demo_held)) (''t/s'', 1) = Some (demo_record 1)"
  by (simp add: demo_held_eq(2) records_filed demo_record_def record_key_def)

lemma log_inv_open:
  "json_ok J \<Longrightarrow> log_inv J d \<Longrightarrow> length (log_file d) \<le> u64_max \<Longrightarrow> open_log J (log_file d) = Inr (log_file d, idx d)"
  using open_lines by (auto simp: log_inv_def)


lemma demo_batch_ok:
  "append_many_inner_with_placement demo_json Written demo_node [demo_record 1, demo_record 2] None True None = (demo_batch, Inr ())"
  "length (log_file demo_batch) = 14"
proof -
  have v: "validate_append_batch [demo_record 1, demo_record 2] = Inr ()"
    by (simp add: validate_append_batch_def validate_pair_def demo_record_def checked_add_u64_def u64_bound_def)
  have c: "demo_code (RecordEntry (demo_record 1)) = 0" "demo_code (RecordEntry (demo_record 2)) = 1"
    "demo_code (CommitEntry (demo_record 1)) = 2" "demo_code (CommitEntry (demo_record 2)) = 3"
    by (simp_all add: demo_code_def demo_entries_def demo_record_def)
  have new: "batch_new demo_node [demo_record 1, demo_record 2] [] = Inr [demo_record 1, demo_record 2]"
    by (simp add: demo_node_defs)
  have com: "batch_commits (idx demo_node) [demo_record 1, demo_record 2] [demo_record 1, demo_record 2] [] =
      Inr [demo_record 1, demo_record 2]"
    by (simp add: demo_node_defs bt_has_def)
  show "append_many_inner_with_placement demo_json Written demo_node [demo_record 1, demo_record 2] None True None = (demo_batch, Inr ())"
    "length (log_file demo_batch) = 14"
    using v new com c unfolding demo_batch_def
    by (simp_all add: append_many_inner_with_placement_def append_many_locked_def placement_lease_def drop_lease_def
        demo_node_def maintenance_allowed_def maintenance_default_def write_log_def demo_json_def del: batch_new.simps batch_commits.simps)
qed




text \<open>C6: A torn append is atomic: wherever the write of a record stops, the node that is restarted from
  the file has either the indexes of before or those of after the append.\<close>

theorem torn_append_is_atomic:
  assumes "json_ok J" "node_reachable J d" "append_locked J Written d r token = (after, Inr ())"
    "append_locked J (WriteFailed n t e) d r token = (d', res)" "length (log_file after) \<le> u64_max"
  shows "\<exists>f i. open_log J (log_file d') = Inr (f, i) \<and> (i = idx d \<or> i = idx after)"
proof -
  note inv = node_inv_parts [OF node_reachable_inv [OF assms(2,1)]]
  obtain es where es: "log_file d = json_lines J es" "apply_entries es empty_index = Inr (idx d)"
    using inv(1) by (auto simp: log_inv_def)
  show ?thesis
  proof (cases "appends_record J d r token")
    case True
    have a: "after = d\<lparr>log_file := log_file d @ json_lines J [RecordEntry r], idx := filed (idx d) r\<rparr>"
      "log_file d' = json_lines J es @ take n (json_lines J [RecordEntry r])"
      using assms(3,4) es(1) by (auto simp: append_locked_new [OF True] write_log_def json_lines_one simp del: json_lines_simps)
    have "length (json_lines J (es @ [RecordEntry r])) \<le> u64_max" using assms(5) a(1) es(1) by simp
    then obtain j f where j: "j \<le> length [RecordEntry r]" "open_log J (log_file d') =
        bind_result (apply_entries (es @ take j [RecordEntry r]) empty_index) (\<lambda>i. Inr (f, i))"
      using open_torn_lines [OF assms(1), of es "[RecordEntry r]" n] unfolding a(2) by blast
    then have "j = 0 \<or> j = 1" by auto
    then show ?thesis
      using j(2) es(2) filed_new(1) [OF inv(4) True] a(1)
      by (elim disjE) (simp_all add: apply_entries_append del: apply_entries.simps(2))
  next
    case False
    then have "d' = d" using append_locked_kept [OF False] assms(4) by auto
    moreover have "after = d" using append_locked_kept [OF False] assms(3) by auto
    ultimately show ?thesis
      using log_inv_open [OF assms(1) inv(1)] assms(5) by auto
  qed
qed

theorem torn_append_is_atomic_witness:
  "\<exists>f i. open_log demo_json (log_file (fst (append_locked demo_json (WriteFailed 1 False ''disk full'') demo_node (demo_record 1) None)))
     = Inr (f, i) \<and> (i = idx demo_node \<or> i = idx demo_held)"
  by (rule torn_append_is_atomic [OF demo_json_ok demo_node_reachable demo_held_eq(1), of 1 False "''disk full''" _
        "snd (append_locked demo_json (WriteFailed 1 False ''disk full'') demo_node (demo_record 1) None)"])
    (simp_all add: demo_held_eq(2) u64_max_def u64_bound_def)


lemma committed_insert_record [simp]: "committed (foldl insert_record i new) = committed i"
  by (induction new arbitrary: i) (simp_all add: insert_record_def)





lemma demo_batch_locked:
  "validate_append_batch [demo_record 1, demo_record 2] = Inr ()"
  "append_many_locked demo_json Written demo_node [demo_record 1, demo_record 2] None True = (demo_batch, Inr ())"
proof -
  have v: "validate_append_batch [demo_record 1, demo_record 2] = Inr ()"
    by (simp add: validate_append_batch_def validate_pair_def demo_record_def checked_add_u64_def u64_bound_def)
  have "placement_lease demo_node s None = (demo_node, Inr None)" "\<And>d. placement d = None \<Longrightarrow> drop_lease d s l = d" for s l
    by (simp_all add: placement_lease_def demo_node_def drop_lease_def)
  then show "append_many_locked demo_json Written demo_node [demo_record 1, demo_record 2] None True = (demo_batch, Inr ())"
    using demo_batch_ok(1) v by (auto simp: append_many_inner_with_placement_def drop_lease_def split: prod.splits option.splits)
  show "validate_append_batch [demo_record 1, demo_record 2] = Inr ()" by (rule v)
qed




text \<open>C7: A node has no holes: after any life, every record it holds is the first of its stream, follows
  a record it holds or an archived prefix, or opens a range that the manifest proves; no record is at or
  below the archived prefix, and only held records are committed.\<close>

theorem node_has_no_holes:
  assumes "json_ok J" "node_reachable J d" "map_of (records (idx d)) (s, n) = Some r"
  shows "(n \<le> 1 \<or> bt_has (records (idx d)) (s, n - 1) \<or> has_compacted_predecessor (idx d) r \<or> has_manifest_boundary d r) \<and>
    \<not> below_trim (idx d) s n \<and> (\<forall>k q. map_of (committed (idx d)) k = Some q \<longrightarrow> map_of (records (idx d)) k = Some q)"
proof -
  note inv = node_inv_parts [OF node_reachable_inv [OF assms(2,1)]]
  have "has_predecessor d r" using inv(2) assms(3) unfolding no_holes_def by blast
  moreover have "stream r = s" "lsn r = n" "\<not> below_trim (idx d) s n"
    using index_wfD(5) [OF inv(4) assms(3)] by simp_all
  moreover have "\<forall>k q. map_of (committed (idx d)) k = Some q \<longrightarrow> map_of (records (idx d)) k = Some q"
    using index_wfD(6) [OF inv(4)] by blast
  ultimately show ?thesis by (simp add: has_predecessor_def)
qed

theorem node_has_no_holes_witness: "\<not> below_trim (idx demo_held) ''t/s'' 1"
  using node_has_no_holes [OF demo_json_ok demo_held_reachable demo_held_record] by blast

lemma step_generation:
  assumes "json_ok J" "node_inv J d" "node_step J d d'"
  shows "ms_generation (maintenance d) \<le> ms_generation (maintenance d')"
  using assms(3)
proof (cases rule: node_step.cases)
  case lease
  from placement_same(1) [OF this] show ?thesis by auto
next
  case (unlease s l)
  then show ?thesis using placement_same(2) [of d s l] by auto
next
  case append
  from appending.frame [OF node_inv_parts(4) [OF assms(2)] this(1)] show ?thesis by auto
next
  case append_many
  from batching.frame [OF node_inv_parts(4) [OF assms(2)] this(1)] show ?thesis by auto
next
  case mark
  from committing.frame [OF node_inv_parts(4) [OF assms(2)] this(1)] show ?thesis by auto
next
  case withdraw
  from superseding.frame [OF node_inv_parts(4) [OF assms(2)] this(1)] show ?thesis by auto
next
  case compact
  with node_inv_parts(4) [OF assms(2)] show ?thesis by (cases rule: compact_cases) auto
next
  case hold
  from fence_step [OF node_inv_parts(3) [OF assms(2)] hold(2,1)] show ?thesis by blast
next
  case release
  from release_step [OF node_inv_parts(3) [OF assms(2)] release(2,1)] show ?thesis by blast
next
  case fence_begins
  from placement_same(3) [OF this] show ?thesis by auto
next
  case fence_ends
  from placement_same(4) [OF this] show ?thesis by auto
next
  case restart
  from restart_node_inv(4) [OF assms(1,2) this] show ?thesis .
qed

text \<open>C27: The generation of the maintenance fence never goes back, restarts after failed writes of the
  marker included, and a token whose generation has been reached acquires the fence only when it is
  the one that holds it.\<close>

theorem maintenance_generation_grows:
  assumes "json_ok J" "node_reachable J d" "node_step J d d'"
  shows "ms_generation (maintenance d) \<le> ms_generation (maintenance d') \<and>
    (mt_generation t \<le> ms_generation (maintenance d') \<longrightarrow> ms_active (maintenance d') \<noteq> Some (marker t) \<longrightarrow>
       fence io d' t = (d', Inl WriterFenced))"
  using step_generation [OF assms(1) node_reachable_inv [OF assms(2,1)] assms(3)]
  by (auto simp: fence_def split: option.split)

lemma demo_fence: "fence Persisted demo_node (demo_token 2) = (fst (fence Persisted demo_node (demo_token 2)), Inr ())"
  by (simp add: fence_def set_maintenance_def persist_maintenance_state_def demo_node_def maintenance_default_def demo_token_def)

theorem maintenance_generation_grows_witness:
  "fence Persisted (fst (fence Persisted demo_node (demo_token 2))) (demo_token 1) =
     (fst (fence Persisted demo_node (demo_token 2)), Inl WriterFenced)"
proof -
  have "node_step demo_json demo_node (fst (fence Persisted demo_node (demo_token 2)))"
    by (rule node_step.hold [OF demo_fence]) (simp add: token_ok_def demo_token_def trim_def is_ws_def)
  from maintenance_generation_grows [OF demo_json_ok demo_node_reachable this, of "demo_token 1" Persisted]
  show ?thesis
    by (simp add: fence_def set_maintenance_def persist_maintenance_state_def demo_node_def maintenance_default_def
        demo_token_def marker_def)
qed












text \<open>C37: The lost newline: when the write of an append stops after the record and before its newline,
  the restarted node has the record, but it does not complete the line; a following append that is
  acknowledged writes onto it, and the node cannot be opened again.\<close>

theorem lost_newline_corrupts_log:
  assumes "json_ok J" "node_reachable J d" "appends_record J d r token"
    "restarted = d\<lparr>log_file := log_file d @ js_to_vec J (RecordEntry r), idx := filed (idx d) r\<rparr>"
    "appends_record J restarted q token'"
    "js_syntax J (js_to_vec J (RecordEntry r) @ js_to_vec J (RecordEntry q)) \<noteq> SynOk"
    "append_locked J (WriteFailed (length (js_to_vec J (RecordEntry r))) False e) d r token = (torn, res)"
    "append_locked J Written restarted q token' = (final, res')" "length (log_file final) \<le> u64_max"
  shows "open_log J (log_file torn) = Inr (log_file restarted, idx restarted) \<and> res' = Inr () \<and>
    (\<exists>err. open_log J (log_file final) = Inl err)"
proof -
  note inv = node_inv_parts [OF node_reachable_inv [OF assms(2,1)]]
  obtain es where es: "log_file d = json_lines J es" "apply_entries es empty_index = Inr (idx d)"
    using inv(1) by (auto simp: log_inv_def)
  let ?r = "js_to_vec J (RecordEntry r)" and ?q = "js_to_vec J (RecordEntry q)"
  have torn: "log_file torn = json_lines J es @ ?r"
    using assms(7) es(1) by (auto simp: append_locked_new [OF assms(3)] write_log_def json_line_def)
  have fin: "log_file final = json_lines J es @ (?r @ ?q) @ newline # []" "res' = Inr ()"
    using assms(8) es(1) unfolding append_locked_new [OF assms(5)] by (auto simp: write_log_def json_line_def assms(4))
  have nl: "newline \<notin> set (?r @ ?q)" "carriage_return \<notin> set (?r @ ?q)" "?r @ ?q \<noteq> []"
    using json_to_vec(1-3) [OF assms(1)] by auto
  have "length (json_lines J es) + length ?r \<le> u64_max" using assms(9) fin(1) by simp
  from open_torn [OF assms(1) this order_refl]
  have "open_log J (log_file torn) = Inr (json_lines J es @ ?r, filed (idx d) r)"
    using es(2) filed_new(1) [OF inv(4) assms(3)] torn by (simp add: apply_entries_append del: apply_entries.simps(2))
  moreover have "\<exists>err. open_log J (log_file final) = Inl err"
  proof -
    have "last (?r @ ?q) \<noteq> carriage_return" using nl(2,3) last_in_set by metis
    then have st: "strip_cr (?r @ ?q) = ?r @ ?q" by (simp add: strip_cr_def)
    have "\<exists>err. replay J t pos [?r @ ?q, []] i = Inl err" for t pos i
      using st nl(3) assms(6) by (cases "js_syntax J (?r @ ?q)") (auto simp: replay.simps(2) Let_def)
    moreover have "split_lines (log_file final) = map (js_to_vec J) es @ [?r @ ?q, []]"
      unfolding fin(1) split_lines_json [OF assms(1)] using split_lines_line [OF nl(1), of "[]"] by simp
    moreover have "length (json_lines J es) \<le> u64_max" using assms(9) fin(1) by simp
    ultimately show ?thesis
      using replay_lines [OF assms(1), of 0 es _ "[?r @ ?q, []]" empty_index] es(2)
      unfolding open_log_def by (metis (no_types, lifting) add_0 bind_result_simps)
  qed
  ultimately show ?thesis using fin(2) es(1) by (simp add: assms(4))
qed

theorem lost_newline_corrupts_log_witness:
  "open_log demo_json [2] = Inr ([2], idx demo_torn) \<and>
   snd (append_locked demo_json Written demo_torn (demo_record 2) None) = Inr () \<and>
   (\<exists>err. open_log demo_json (log_file (fst (append_locked demo_json Written demo_torn (demo_record 2) None))) = Inl err)"
proof -
  have c: "js_to_vec demo_json (RecordEntry (demo_record 1)) = [2]" "js_to_vec demo_json (RecordEntry (demo_record 2)) = [1, 2]"
    by (simp_all add: demo_json_def demo_code_def demo_entries_def demo_record_def)
  have r: "demo_torn = demo_node\<lparr>log_file := log_file demo_node @ js_to_vec demo_json (RecordEntry (demo_record 1)),
      idx := filed (idx demo_node) (demo_record 1)\<rparr>"
    unfolding c demo_torn_def by (simp add: demo_node_def)
  have a: "appends_record demo_json demo_torn (demo_record 2) None"
    by (simp add: appends_record_def has_predecessor_def demo_torn_def filed_def bt_has_def demo_node_defs)
  have s: "js_syntax demo_json (js_to_vec demo_json (RecordEntry (demo_record 1)) @ js_to_vec demo_json (RecordEntry (demo_record 2))) \<noteq> SynOk"
    unfolding c by (simp add: demo_json_def)
  have l: "length (log_file (fst (append_locked demo_json Written demo_torn (demo_record 2) None))) \<le> u64_max"
    "log_file (fst (append_locked demo_json (WriteFailed (length (js_to_vec demo_json (RecordEntry (demo_record 1)))) False [])
      demo_node (demo_record 1) None)) = [2]"
    unfolding append_locked_new [OF a] append_locked_new [OF demo_first]
    by (simp_all add: write_log_def json_line_def c c [unfolded One_nat_def] demo_torn_def demo_node_def u64_max_def u64_bound_def)
  show ?thesis
    using lost_newline_corrupts_log [OF demo_json_ok demo_node_reachable demo_first r a s prod.collapse [symmetric]
        prod.collapse [symmetric] l(1), of "[]"] l(2) by (simp add: demo_torn_def)
qed

text \<open>C38: The log budget binds single appends only: a single append that would take the log over the
  budget is refused and changes nothing, but whether a batch is accepted, and what it writes, does not
  depend on the budget at all.\<close>

theorem batches_ignore_log_budget:
  "append_many_locked J io (d\<lparr>log_max_bytes := cap\<rparr>) rs token commit =
     (let (d', res) = append_many_locked J io d rs token commit in (d'\<lparr>log_max_bytes := cap\<rparr>, res)) \<and>
   (log_max_bytes d = Some limit \<and> limit < saturating_add_u64 (length (log_file d)) (length (json_line J (RecordEntry r))) \<and>
      bt_get (records (idx d)) (record_key r) = None \<longrightarrow>
    (\<exists>e. append_locked J io d r token = (d, Inl e)))"
proof
  have same: "same_node d (d\<lparr>log_max_bytes := cap\<rparr>)" by (simp add: same_node_def)
  have bn: "batch_new (d\<lparr>log_max_bytes := cap\<rparr>) rs new = batch_new d rs new" for new
    by (induction rs arbitrary: new) (auto simp: boundary_same [OF same] Let_def split: option.split)
  show "append_many_locked J io (d\<lparr>log_max_bytes := cap\<rparr>) rs token commit =
      (let (d', res) = append_many_locked J io d rs token commit in (d'\<lparr>log_max_bytes := cap\<rparr>, res))"
  proof -
    have pl: "batch_plan (d\<lparr>log_max_bytes := cap\<rparr>) rs commit = batch_plan d rs commit"
      by (cases commit) (simp_all add: batch_plan_def bn)
    show ?thesis
      unfolding append_many_locked_def batch_plan_def [symmetric] pl
      by (cases "batch_plan d rs commit"; cases io) (auto simp: write_log_def Let_def)
  qed
  show "log_max_bytes d = Some limit \<and> limit < saturating_add_u64 (length (log_file d)) (length (json_line J (RecordEntry r))) \<and>
      bt_get (records (idx d)) (record_key r) = None \<longrightarrow> (\<exists>e. append_locked J io d r token = (d, Inl e))"
    by (auto simp: append_locked_def Let_def)
qed

theorem batches_ignore_log_budget_witness:
  "append_many_locked demo_json Written (demo_node\<lparr>log_max_bytes := Some 0\<rparr>) [demo_record 1, demo_record 2] None True =
     (demo_batch\<lparr>log_max_bytes := Some 0\<rparr>, Inr ())"
  using batches_ignore_log_budget [where d = demo_node and J = demo_json and io = Written and cap = "Some 0"
      and rs = "[demo_record 1, demo_record 2]" and token = None and commit = True]
  unfolding demo_batch_locked(2) by simp

end
