(* ===== verification/Control_Head.thy ===== *)
theory Control_Head
  imports Manifest
begin

text \<open>
  The control head (\<open>crates/walleye-bitr-server/src/control_head.rs\<close>): one object of an object store
  that holds membership, cohorts, the complete placement manifest and the stream handoffs in progress,
  changed only by conditional writes. An operation is a program over the calls it makes to the store
  (\<open>io\<close>): \<open>Get\<close> and \<open>Put\<close> with what the code does with each answer, so that \<open>Control_Run\<close>
  can interleave the calls of any number of operations. The object appears after JSON decoding; the
  length of its encoding, the encoding of the metadata and SHA-256 are parameters. Writing to an
  in-memory JSON buffer does not fail.
\<close>

section \<open>Definitions\<close>

definition CONTROL_HEAD_VERSION :: nat where "CONTROL_HEAD_VERSION = 1"
definition MAX_CONTROL_HEAD_BYTES :: nat where "MAX_CONTROL_HEAD_BYTES = 32 * 1024 * 1024"
definition MAX_OPERATION_ID_BYTES :: nat where "MAX_OPERATION_ID_BYTES = 512"
definition MAX_COMPLETED_OPERATIONS :: nat where "MAX_COMPLETED_OPERATIONS = 100000"
definition MAX_SOURCE_AUTHORITY_BYTES :: nat where "MAX_SOURCE_AUTHORITY_BYTES = 256"
definition MAX_SOURCE_DIGEST_BYTES :: nat where "MAX_SOURCE_DIGEST_BYTES = 256"
definition MAX_PENDING_HANDOFFS :: nat where "MAX_PENDING_HANDOFFS = 4096"
definition MAX_STREAM_NAME_BYTES :: nat where "MAX_STREAM_NAME_BYTES = 1024"

datatype head_error =
    Invalid string
  | ObjectStore
  | AlreadyExists
  | Precondition
  | SourceMarkerMismatch
  | OperationConflict string
  | PendingHandoffConflict string string
  | MissingEtag

subsection \<open>Source marker and handoff descriptors\<close>

record control_source_marker =
  sm_authority :: string
  sm_authority_epoch :: nat
  sm_revision :: nat
  sm_digest :: string

definition marker_validate :: "control_source_marker \<Rightarrow> (unit, head_error) result" where
  "marker_validate m =
     (if trim (sm_authority m) = [] \<or> MAX_SOURCE_AUTHORITY_BYTES < length (sm_authority m)
      then Inl (Invalid ''control source authority is empty or too long'')
      else if sm_authority_epoch m = 0 \<or> sm_revision m = 0
      then Inl (Invalid ''control source authority epoch and revision must be nonzero'')
      else if trim (sm_digest m) = [] \<or> MAX_SOURCE_DIGEST_BYTES < length (sm_digest m)
      then Inl (Invalid ''control source digest is empty or too long'')
      else Inr ())"

datatype handoff_stage = Prepared | SourceFenced | ArchiveVerified | RoutePublished

fun rank :: "handoff_stage \<Rightarrow> nat" where
  "rank Prepared = 0"
| "rank SourceFenced = 1"
| "rank ArchiveVerified = 2"
| "rank RoutePublished = 3"

fun operation_suffix :: "handoff_stage \<Rightarrow> string" where
  "operation_suffix Prepared = ''prepared''"
| "operation_suffix SourceFenced = ''source-fenced''"
| "operation_suffix ArchiveVerified = ''archive-verified''"
| "operation_suffix RoutePublished = ''route-published''"

record pending_handoff =
  ph_operation_id :: string
  ph_stream :: string
  ph_source :: stream_segment
  ph_target_cohort_id :: nat
  ph_target_members :: "durable_member list"
  ph_target_member_hash :: string
  ph_target_tier :: string
  ph_target_max_append_bytes :: nat
  ph_target_writer_epoch :: nat
  ph_transition_placement :: placement_epoch
  ph_successor_placement_epoch :: nat
  ph_successor_placement :: "placement_epoch option"
  ph_stage :: handoff_stage
  ph_archived_lsn :: "nat option"
  ph_successor :: "stream_segment option"

definition validate_placement :: "placement_epoch \<Rightarrow> string \<Rightarrow> (unit, head_error) result" where
  "validate_placement p label =
     (if epoch p = 0 \<or> trim (route_digest p) = []
      then Inl (Invalid (''pending handoff '' @ label @ '' placement is incomplete'')) else Inr ())"

definition successor_matches :: "pending_handoff \<Rightarrow> stream_segment \<Rightarrow> nat \<Rightarrow> placement_epoch \<Rightarrow> bool" where
  "successor_matches d successor archived placement \<longleftrightarrow>
     cohort_id successor = ph_target_cohort_id d \<and>
     member_ids successor = map dm_id (ph_target_members d) \<and>
     member_hash successor = ph_target_member_hash d \<and>
     seg_writer_epoch successor = ph_target_writer_epoch d \<and>
     seg_placement_epoch successor = epoch placement \<and>
     epoch placement = ph_successor_placement_epoch d \<and>
     start_lsn successor = max (saturating_add_u64 archived 1) (start_lsn (ph_source d)) \<and>
     end_lsn successor = None"

definition handoff_validate :: "string option \<Rightarrow> pending_handoff \<Rightarrow> (unit, head_error) result" where
  "handoff_validate key d =
     (if (case key of Some k \<Rightarrow> k \<noteq> ph_stream d | None \<Rightarrow> False)
      then Inl (Invalid ''pending handoff map key does not match stream'')
      else if trim (ph_operation_id d) = [] \<or> MAX_OPERATION_ID_BYTES < length (ph_operation_id d)
      then Inl (Invalid ''pending handoff operation id is empty or too long'')
      else if trim (ph_stream d) = [] \<or> MAX_STREAM_NAME_BYTES < length (ph_stream d)
      then Inl (Invalid ''pending handoff stream is empty or too long'')
      else if length (ph_target_members d) \<noteq> REPLICATION_FACTOR \<or> trim (ph_target_member_hash d) = []
      then Inl (Invalid ''pending handoff successor cohort is incomplete'')
      else if \<not> ascending (map dm_id (ph_target_members d)) \<or>
              (\<exists>m \<in> set (ph_target_members d). trim (dm_id m) = [] \<or> trim (dm_url m) = [] \<or>
                 dm_cohort_id m \<noteq> ph_target_cohort_id d)
      then Inl (Invalid ''pending handoff successor members are not deterministic'')
      else if start_lsn (ph_source d) = 0 \<or> end_lsn (ph_source d) \<noteq> None \<or>
              length (member_ids (ph_source d)) \<noteq> REPLICATION_FACTOR \<or>
              trim (member_hash (ph_source d)) = [] \<or> \<not> ascending (member_ids (ph_source d))
      then Inl (Invalid ''pending handoff source route is not an open complete range'')
      else if cohort_id (ph_source d) = ph_target_cohort_id d \<or>
              ph_target_writer_epoch d \<noteq> seg_writer_epoch (ph_source d)
      then Inl (Invalid ''pending handoff source and successor identities conflict'')
      else case validate_placement (ph_transition_placement d) ''transition'' of
        Inl e \<Rightarrow> Inl e
      | Inr _ \<Rightarrow>
          if ph_successor_placement_epoch d = 0
          then Inl (Invalid ''pending handoff successor placement epoch is zero'')
          else if epoch (ph_transition_placement d) \<le> seg_placement_epoch (ph_source d) \<or>
                  ph_successor_placement_epoch d \<le> epoch (ph_transition_placement d)
          then Inl (Invalid ''pending handoff placement epochs are not strictly increasing'')
          else if rank (ph_stage d) < rank ArchiveVerified \<and>
                  (ph_archived_lsn d \<noteq> None \<or> ph_successor_placement d \<noteq> None)
          then Inl (Invalid ''pending handoff archive watermark is ahead of its stage'')
          else if rank ArchiveVerified \<le> rank (ph_stage d) \<and>
                  (ph_archived_lsn d = None \<or> ph_successor_placement d = None)
          then Inl (Invalid ''pending handoff archive stage has no watermark'')
          else if rank ArchiveVerified \<le> rank (ph_stage d)
          then (case (ph_successor d, ph_archived_lsn d, ph_successor_placement d) of
                  (None, _, _) \<Rightarrow> Inl (Invalid ''archived handoff has no successor route'')
                | (_, None, _) \<Rightarrow> Inl (Invalid ''archived handoff has no archive watermark'')
                | (_, _, None) \<Rightarrow> Inl (Invalid ''archived handoff has no successor placement'')
                | (Some successor, Some archived, Some placement) \<Rightarrow>
                    if successor_matches d successor archived placement then Inr ()
                    else Inl (Invalid ''archived handoff successor route does not match its claim''))
          else if ph_successor d \<noteq> None
          then Inl (Invalid ''unpublished handoff carries a successor route'')
          else Inr ())"

definition same_member_incarnation :: "durable_member \<Rightarrow> durable_member \<Rightarrow> bool" where
  "same_member_incarnation l r \<longleftrightarrow>
     dm_id l = dm_id r \<and> dm_url l = dm_url r \<and> dm_cohort_id l = dm_cohort_id r \<and> dm_name l = dm_name r \<and>
     dm_machine_id l = dm_machine_id r \<and> dm_volume_id l = dm_volume_id r \<and> dm_ordinal l = dm_ordinal r \<and>
     dm_tier l = dm_tier r \<and> dm_max_append_bytes l = dm_max_append_bytes r"

definition immutable_eq :: "pending_handoff \<Rightarrow> pending_handoff \<Rightarrow> bool" where
  "immutable_eq d f \<longleftrightarrow>
     ph_operation_id d = ph_operation_id f \<and> ph_stream d = ph_stream f \<and> ph_source d = ph_source f \<and>
     ph_target_cohort_id d = ph_target_cohort_id f \<and>
     list_all (\<lambda>(l, r). same_member_incarnation l r) (zip (ph_target_members d) (ph_target_members f)) \<and>
     ph_target_member_hash d = ph_target_member_hash f \<and> ph_target_tier d = ph_target_tier f \<and>
     ph_target_max_append_bytes d = ph_target_max_append_bytes f \<and>
     ph_target_writer_epoch d = ph_target_writer_epoch f \<and>
     ph_transition_placement d = ph_transition_placement f \<and>
     ph_successor_placement_epoch d = ph_successor_placement_epoch f \<and>
     (ph_successor_placement d = None \<or> ph_successor_placement f = ph_successor_placement d) \<and>
     (ph_successor d = None \<or> ph_successor f = ph_successor d)"

definition pending_operation_id ::
  "'a external_scheme \<Rightarrow> string \<Rightarrow> string \<Rightarrow> string \<Rightarrow> (string, head_error) result" where
  "pending_operation_id x oid s phase =
     (if trim oid = [] \<or> trim s = [] \<or> trim phase = []
      then Inl (Invalid ''pending handoff operation id, stream, and phase must not be empty'')
      else Inr (''handoff:'' @ phase @ '':'' @
        hex_encode (x_sha256 x (as_bytes ''lakeday-cloud/pending-handoff/v1'' @ [0] @ as_bytes oid @ [0] @
          as_bytes s @ [0] @ as_bytes phase))))"

subsection \<open>Metadata and heads\<close>

record control_metadata =
  cm_membership_epoch :: nat
  cm_members :: "(string, durable_member) bt"
  cm_cohorts :: "(nat, durable_cohort) bt"
  cm_manifest :: replica_manifest
  cm_pending :: "(string, pending_handoff) bt"

record operation_receipt =
  or_authority_epoch :: nat
  or_revision :: nat
  or_metadata_digest :: string

record control_head =
  ch_version :: nat
  ch_authority_epoch :: nat
  ch_revision :: nat
  ch_operation_id :: string
  ch_completed :: "(string, operation_receipt) bt"
  ch_source_marker :: control_source_marker
  ch_metadata_digest :: string
  ch_metadata :: control_metadata

record head_external = external +
  x_json_metadata :: "control_metadata \<Rightarrow> byte list"
  x_head_bytes :: "control_head \<Rightarrow> nat"

definition metadata_digest :: "head_external \<Rightarrow> control_metadata \<Rightarrow> string" where
  "metadata_digest x m = hex_encode (x_sha256 x (x_json_metadata x m))"

definition cohort_check :: "control_metadata \<Rightarrow> nat \<times> durable_cohort \<Rightarrow> (unit, head_error) result" where
  "cohort_check m = (\<lambda>(i, c).
     if i \<noteq> dc_id c \<or> dc_members c = [] then Inl (Invalid ''control cohort map key does not match cohort identity'')
     else if \<not> ascending (dc_members c) then Inl (Invalid ''control cohort members are not in deterministic order'')
     else if length (remdups_adj (sort (dc_members c))) \<noteq> length (dc_members c)
     then Inl (Invalid ''control cohort contains duplicate member identities'')
     else check_all (\<lambda>member_id.
       case bt_get (cm_members m) member_id of
         None \<Rightarrow> Inl (Invalid ''control cohort references an unknown member'')
       | Some member \<Rightarrow>
           if dm_cohort_id member \<noteq> i then Inl (Invalid ''control member and cohort identities disagree'')
           else Inr ()) (dc_members c))"

text \<open>How often a member is named by the cohorts.\<close>

definition cohort_count :: "(nat, durable_cohort) bt \<Rightarrow> string \<Rightarrow> nat" where
  "cohort_count cohorts member_id = length (filter (\<lambda>i. i = member_id) (concat (map (\<lambda>(_, c). dc_members c) cohorts)))"

definition segment_check :: "control_metadata \<Rightarrow> stream_segment \<Rightarrow> (unit, head_error) result" where
  "segment_check m g =
     (case bt_get (cm_cohorts m) (cohort_id g) of
        None \<Rightarrow> Inl (Invalid ''control manifest references an unknown segment cohort'')
      | Some c \<Rightarrow>
          if member_ids g \<noteq> [] \<and> member_ids g \<noteq> dc_members c
          then Inl (Invalid ''control manifest segment member set differs from its cohort'') else Inr ())"

definition metadata_validate :: "head_external \<Rightarrow> control_metadata \<Rightarrow> (unit, head_error) result" where
  "metadata_validate x m =
     (if cm_membership_epoch m = 0 then Inl (Invalid ''control membership epoch must be nonzero'')
      else case manifest_validate x (cm_manifest m) of
        Inl e \<Rightarrow> Inl (Invalid (case e of Protocol msg \<Rightarrow> ''replica gateway protocol error: '' @ msg | _ \<Rightarrow> []))
      | Inr _ \<Rightarrow>
      (case check_all (\<lambda>(i, member). if trim i = [] \<or> dm_id member \<noteq> i
                then Inl (Invalid ''control member map key does not match member identity'') else Inr ()) (cm_members m) of
        Inl e \<Rightarrow> Inl e
      | Inr _ \<Rightarrow>
      (case check_all (cohort_check m) (cm_cohorts m) of
        Inl e \<Rightarrow> Inl e
      | Inr _ \<Rightarrow>
          if \<exists>e \<in> set (cm_members m). cohort_count (cm_cohorts m) (dm_id (snd e)) \<noteq> 1
          then Inl (Invalid ''control member is not assigned to exactly one cohort'')
          else if rm_cohort_id (cm_manifest m) \<noteq> 0 \<and> \<not> bt_has (cm_cohorts m) (rm_cohort_id (cm_manifest m))
          then Inl (Invalid ''control manifest references an unknown default cohort'')
          else
      (case check_all (segment_check m) (concat (map snd (rm_segments (cm_manifest m)))) of
        Inl e \<Rightarrow> Inl e
      | Inr _ \<Rightarrow>
          if MAX_PENDING_HANDOFFS < length (cm_pending m) then Inl (Invalid ''too many pending stream handoffs'')
          else check_all (\<lambda>(s, d). handoff_validate (Some s) d) (cm_pending m)))))"

definition own_receipt :: "control_head \<Rightarrow> operation_receipt" where
  "own_receipt h = \<lparr>or_authority_epoch = ch_authority_epoch h, or_revision = ch_revision h,
                    or_metadata_digest = ch_metadata_digest h\<rparr>"

definition head_validate :: "head_external \<Rightarrow> control_head \<Rightarrow> (unit, head_error) result" where
  "head_validate x h =
     (if ch_version h \<noteq> CONTROL_HEAD_VERSION
      then Inl (Invalid (''unsupported control-head version '' @ show_nat (ch_version h)))
      else if ch_authority_epoch h = 0 \<or> ch_revision h = 0
      then Inl (Invalid ''control-head authority epoch and revision must be nonzero'')
      else if trim (ch_operation_id h) = [] \<or> MAX_OPERATION_ID_BYTES < length (ch_operation_id h)
      then Inl (Invalid ''control-head operation id is empty or too long'')
      else if ch_completed h = [] \<or> MAX_COMPLETED_OPERATIONS < length (ch_completed h)
      then Inl (Invalid ''control-head completed operation receipts are empty or too large'')
      else case bt_get (ch_completed h) (ch_operation_id h) of
        None \<Rightarrow> Inl (Invalid ''control-head is missing its current operation receipt'')
      | Some receipt \<Rightarrow>
          if receipt \<noteq> own_receipt h
          then Inl (Invalid ''control-head current operation receipt does not match the head'')
          else if \<exists>e \<in> set (ch_completed h).
                    or_authority_epoch (snd e) = 0 \<or> or_revision (snd e) = 0 \<or>
                    ch_authority_epoch h < or_authority_epoch (snd e) \<or> ch_revision h < or_revision (snd e) \<or>
                    trim (or_metadata_digest (snd e)) = []
          then Inl (Invalid ''control-head contains an invalid completed operation receipt'')
          else case marker_validate (ch_source_marker h) of
            Inl e \<Rightarrow> Inl e
          | Inr _ \<Rightarrow>
              if ch_authority_epoch h < sm_authority_epoch (ch_source_marker h) \<or>
                 ch_revision h < sm_revision (ch_source_marker h)
              then Inl (Invalid ''control source marker is newer than the control head'')
              else case metadata_validate x (ch_metadata h) of
                Inl e \<Rightarrow> Inl e
              | Inr _ \<Rightarrow>
                  if ch_metadata_digest h \<noteq> metadata_digest x (ch_metadata h)
                  then Inl (Invalid ''control-head metadata digest does not match its payload'')
                  else Inr ())"

definition head_new ::
  "head_external \<Rightarrow> nat \<Rightarrow> nat \<Rightarrow> string \<Rightarrow> control_source_marker \<Rightarrow> control_metadata \<Rightarrow> (control_head, head_error) result" where
  "head_new x authority_epoch revision oid source_marker metadata =
     (let digest = metadata_digest x metadata;
          h = \<lparr>ch_version = CONTROL_HEAD_VERSION, ch_authority_epoch = authority_epoch, ch_revision = revision,
               ch_operation_id = oid,
               ch_completed = [(oid, \<lparr>or_authority_epoch = authority_epoch, or_revision = revision,
                                               or_metadata_digest = digest\<rparr>)],
               ch_source_marker = source_marker, ch_metadata_digest = digest, ch_metadata = metadata\<rparr>
      in case head_validate x h of Inl e \<Rightarrow> Inl e | Inr _ \<Rightarrow> Inr h)"

text \<open>The loop that carries the entries of one map over to another: an entry that is there with another value
  is an error. \<open>merge_completed_operations\<close> runs it over the receipts of the current head and
  \<open>preserve_pending_handoffs\<close> over its claims.\<close>

fun carry_over :: "('k::linorder \<Rightarrow> 'v \<Rightarrow> 'e) \<Rightarrow> ('k, 'v) bt \<Rightarrow> ('k, 'v) bt \<Rightarrow> (('k, 'v) bt, 'e) result" where
  "carry_over err own [] = Inr own"
| "carry_over err own ((k, v) # rest) =
     (case bt_get own k of
        Some existing \<Rightarrow> if existing \<noteq> v then Inl (err k v) else carry_over err own rest
      | None \<Rightarrow> carry_over err (bt_insert k v own) rest)"

definition merge_receipts ::
  "(string, operation_receipt) bt \<Rightarrow> (string, operation_receipt) bt \<Rightarrow> ((string, operation_receipt) bt, head_error) result" where
  "merge_receipts = carry_over (\<lambda>oid _. OperationConflict oid)"

definition merge_completed_operations ::
  "head_external \<Rightarrow> control_head \<Rightarrow> control_head \<Rightarrow> (control_head, head_error) result" where
  "merge_completed_operations x h current =
     (case merge_receipts (ch_completed h) (ch_completed current) of
        Inl e \<Rightarrow> Inl e
      | Inr merged \<Rightarrow>
          let h' = h\<lparr>ch_completed := bt_insert (ch_operation_id h) (own_receipt h) merged\<rparr>
          in (case head_validate x h' of Inl e \<Rightarrow> Inl e | Inr _ \<Rightarrow> Inr h'))"

subsection \<open>Calls to the object store\<close>

text \<open>An entity tag identifies one write of the object. A store may answer without one.\<close>

datatype put_mode = PutCreate | PutUpdate nat

datatype get_answer = Got control_head "nat option" | NotFound | GetFailed

datatype put_answer = PutDone "nat option" | PutExists | PutPrecondition | PutFailed

datatype 'a io =
    Done 'a
  | Get "get_answer \<Rightarrow> 'a io"
  | Put put_mode control_head "put_answer \<Rightarrow> 'a io"

primrec bind_io :: "'a io \<Rightarrow> ('a \<Rightarrow> 'b io) \<Rightarrow> 'b io" where
  "bind_io (Done r) k = k r"
| "bind_io (Get f) k = Get (\<lambda>a. bind_io (f a) k)"
| "bind_io (Put m h f) k = Put m h (\<lambda>a. bind_io (f a) k)"

text \<open>The question mark of the code: an error ends the operation.\<close>

definition try_io :: "('a, 'e) result io \<Rightarrow> ('a \<Rightarrow> ('b, 'e) result io) \<Rightarrow> ('b, 'e) result io" where
  "try_io p k = bind_io p (\<lambda>r. case r of Inl e \<Rightarrow> Done (Inl e) | Inr a \<Rightarrow> k a)"

definition try_pure :: "('a, 'e) result \<Rightarrow> ('a \<Rightarrow> ('b, 'e) result io) \<Rightarrow> ('b, 'e) result io" where
  "try_pure r k = (case r of Inl e \<Rightarrow> Done (Inl e) | Inr a \<Rightarrow> k a)"

record head_snapshot =
  hs_head :: control_head
  hs_version :: nat

type_synonym snapshot_io = "(head_snapshot, head_error) result io"

definition loaded :: "head_external \<Rightarrow> get_answer \<Rightarrow> (head_snapshot option, head_error) result" where
  "loaded x a =
     (case a of
        NotFound \<Rightarrow> Inr None
      | GetFailed \<Rightarrow> Inl ObjectStore
      | Got h tag \<Rightarrow>
          if MAX_CONTROL_HEAD_BYTES < x_head_bytes x h then Inl (Invalid ''control-head object exceeds 33554432 bytes'')
          else (case tag of
              None \<Rightarrow> Inl MissingEtag
            | Some t \<Rightarrow>
                (case head_validate x h of
                   Inl e \<Rightarrow> Inl e
                 | Inr _ \<Rightarrow> Inr (Some \<lparr>hs_head = h, hs_version = t\<rparr>))))"

definition load :: "head_external \<Rightarrow> (head_snapshot option, head_error) result io" where
  "load x = Get (\<lambda>a. Done (loaded x a))"

text \<open>\<open>load().await?.ok_or(Precondition)?\<close>\<close>

definition load_present :: "head_external \<Rightarrow> (head_snapshot \<Rightarrow> snapshot_io) \<Rightarrow> snapshot_io" where
  "load_present x k =
     try_io (load x) (\<lambda>r. case r of None \<Rightarrow> Done (Inl Precondition) | Some current \<Rightarrow> k current)"

definition validate_size_and_head :: "head_external \<Rightarrow> control_head \<Rightarrow> (unit, head_error) result" where
  "validate_size_and_head x h =
     (case head_validate x h of
        Inl e \<Rightarrow> Inl e
      | Inr _ \<Rightarrow>
          if MAX_CONTROL_HEAD_BYTES < x_head_bytes x h then Inl (Invalid ''control-head payload exceeds 33554432 bytes'')
          else Inr ())"

definition snapshot_from_put :: "control_head \<Rightarrow> nat option \<Rightarrow> (head_snapshot, head_error) result" where
  "snapshot_from_put h tag =
     (case tag of None \<Rightarrow> Inl MissingEtag | Some t \<Rightarrow> Inr \<lparr>hs_head = h, hs_version = t\<rparr>)"

definition receipt_matches_head :: "operation_receipt \<Rightarrow> control_head \<Rightarrow> bool" where
  "receipt_matches_head r h \<longleftrightarrow>
     or_authority_epoch r = ch_authority_epoch h \<and> or_revision r = ch_revision h \<and>
     or_metadata_digest r = ch_metadata_digest h"

definition create :: "head_external \<Rightarrow> control_head \<Rightarrow> snapshot_io" where
  "create x h =
     try_pure (validate_size_and_head x h) (\<lambda>_.
       Put PutCreate h (\<lambda>a.
         case a of
           PutDone tag \<Rightarrow> Done (snapshot_from_put h tag)
         | PutExists \<Rightarrow>
             load_present x (\<lambda>current.
               case bt_get (ch_completed (hs_head current)) (ch_operation_id h) of
                 Some receipt \<Rightarrow>
                   if receipt_matches_head receipt h then Done (Inr current)
                   else Done (Inl (OperationConflict (ch_operation_id h)))
               | None \<Rightarrow> Done (Inl AlreadyExists))
         | _ \<Rightarrow> Done (Inl ObjectStore)))"

definition validate_expected :: "head_snapshot \<Rightarrow> head_snapshot \<Rightarrow> (unit, head_error) result" where
  "validate_expected expected current =
     (if ch_source_marker (hs_head expected) \<noteq> ch_source_marker (hs_head current) then Inl SourceMarkerMismatch
      else if hs_head expected \<noteq> hs_head current then Inl Precondition
      else Inr ())"

definition validate_transition :: "control_head \<Rightarrow> control_head \<Rightarrow> (unit, head_error) result" where
  "validate_transition current new =
     (if ch_revision new \<noteq> saturating_add_u64 (ch_revision current) 1 then Inl Precondition
      else if ch_authority_epoch new < ch_authority_epoch current then Inl Precondition
      else if ch_authority_epoch current < ch_authority_epoch new \<and>
              ch_authority_epoch new \<noteq> saturating_add_u64 (ch_authority_epoch current) 1
      then Inl Precondition
      else if ch_authority_epoch new = ch_authority_epoch current \<and> ch_source_marker new \<noteq> ch_source_marker current
      then Inl SourceMarkerMismatch
      else if ch_authority_epoch new = saturating_add_u64 (ch_authority_epoch current) 1 \<and>
              (sm_authority_epoch (ch_source_marker new) \<noteq> ch_authority_epoch current \<or>
               sm_revision (ch_source_marker new) \<noteq> ch_revision current \<or>
               sm_digest (ch_source_marker new) \<noteq> ch_metadata_digest current)
      then Inl SourceMarkerMismatch
      else Inr ())"

definition preserve_claims ::
  "(string, pending_handoff) bt \<Rightarrow> (string, pending_handoff) bt \<Rightarrow> ((string, pending_handoff) bt, head_error) result" where
  "preserve_claims = carry_over (\<lambda>s existing. PendingHandoffConflict s (ph_operation_id existing))"

definition preserve_pending_handoffs ::
  "head_external \<Rightarrow> control_head \<Rightarrow> control_head \<Rightarrow> (control_head, head_error) result" where
  "preserve_pending_handoffs x current new =
     (case preserve_claims (cm_pending (ch_metadata new)) (cm_pending (ch_metadata current)) of
        Inl e \<Rightarrow> Inl e
      | Inr claims \<Rightarrow>
          let m = (ch_metadata new)\<lparr>cm_pending := claims\<rparr>; digest = metadata_digest x m
          in Inr (new\<lparr>ch_metadata := m, ch_metadata_digest := digest,
                      ch_completed :=
                        (case bt_get (ch_completed new) (ch_operation_id new) of
                           Some receipt \<Rightarrow>
                             bt_insert (ch_operation_id new) (receipt\<lparr>or_metadata_digest := digest\<rparr>) (ch_completed new)
                         | None \<Rightarrow> ch_completed new)\<rparr>))"

text \<open>The conditional write at the end of every update.\<close>

definition put_update :: "head_external \<Rightarrow> head_snapshot \<Rightarrow> control_head \<Rightarrow> snapshot_io" where
  "put_update x expected new =
     Put (PutUpdate (hs_version expected)) new (\<lambda>a.
       case a of
         PutDone tag \<Rightarrow> Done (snapshot_from_put new tag)
       | PutPrecondition \<Rightarrow>
           load_present x (\<lambda>latest.
             case bt_get (ch_completed (hs_head latest)) (ch_operation_id new) of
               Some receipt \<Rightarrow>
                 if receipt_matches_head receipt new then Done (Inr latest) else Done (Inl Precondition)
             | None \<Rightarrow> Done (Inl Precondition))
       | _ \<Rightarrow> Done (Inl ObjectStore))"

definition update_inner :: "head_external \<Rightarrow> head_snapshot \<Rightarrow> control_head \<Rightarrow> bool \<Rightarrow> snapshot_io" where
  "update_inner x expected new preserve_pending =
     load_present x (\<lambda>current.
       try_pure (if preserve_pending then preserve_pending_handoffs x (hs_head current) new else Inr new) (\<lambda>new.
         case bt_get (ch_completed (hs_head current)) (ch_operation_id new) of
           Some receipt \<Rightarrow>
             if receipt_matches_head receipt new then Done (Inr current)
             else Done (Inl (OperationConflict (ch_operation_id new)))
         | None \<Rightarrow>
             try_pure (validate_expected expected current) (\<lambda>_.
             try_pure (validate_transition (hs_head current) new) (\<lambda>_.
             try_pure (merge_completed_operations x new (hs_head current)) (\<lambda>new.
             try_pure (validate_size_and_head x new) (\<lambda>_.
               put_update x expected new))))))"

definition head_update :: "head_external \<Rightarrow> head_snapshot \<Rightarrow> control_head \<Rightarrow> snapshot_io" where
  "head_update x expected new = update_inner x expected new True"

definition update_exact :: "head_external \<Rightarrow> head_snapshot \<Rightarrow> control_head \<Rightarrow> snapshot_io" where
  "update_exact x expected new = update_inner x expected new False"

subsection \<open>Handoffs\<close>

definition head_with_metadata ::
  "head_external \<Rightarrow> control_head \<Rightarrow> control_metadata \<Rightarrow> string \<Rightarrow> (control_head, head_error) result" where
  "head_with_metadata x current metadata oid =
     (case checked_add_u64 (ch_revision current) 1 of
        None \<Rightarrow> Inl (Invalid ''control-head revision exhausted'')
      | Some revision \<Rightarrow> head_new x (ch_authority_epoch current) revision oid (ch_source_marker current) metadata)"

fun position :: "('a \<Rightarrow> bool) \<Rightarrow> 'a list \<Rightarrow> nat option" where
  "position P [] = None"
| "position P (y # ys) = (if P y then Some 0 else map_option Suc (position P ys))"

definition source_member_ok :: "control_metadata \<Rightarrow> pending_handoff \<Rightarrow> cohort_status \<Rightarrow> string \<Rightarrow> bool" where
  "source_member_ok m d status member_id =
     (case bt_get (cm_members m) member_id of
        None \<Rightarrow> False
      | Some member \<Rightarrow>
          (if ph_stage d = RoutePublished
           then (status = CRetired \<and> dm_status member = MRemoved) \<or>
                (status \<noteq> CRetired \<and> dm_status member \<in> {MActive, MDraining})
           else dm_status member \<in> {MActive, MDraining}) \<and>
          dm_cohort_id member = cohort_id (ph_source d))"

definition target_member_ok :: "control_metadata \<Rightarrow> durable_member \<Rightarrow> bool" where
  "target_member_ok m target =
     (case bt_get (cm_members m) (dm_id target) of
        None \<Rightarrow> False
      | Some member \<Rightarrow> same_member_incarnation member target \<and> dm_status member \<in> {MJoining, MActive})"

text \<open>The sealed source range of a published handoff.\<close>

definition sealed_source :: "pending_handoff \<Rightarrow> stream_segment \<Rightarrow> bool" where
  "sealed_source d g \<longleftrightarrow>
     start_lsn g = start_lsn (ph_source d) \<and> cohort_id g = cohort_id (ph_source d) \<and>
     member_ids g = member_ids (ph_source d) \<and> member_hash g = member_hash (ph_source d) \<and>
     seg_writer_epoch g = seg_writer_epoch (ph_source d) \<and>
     seg_placement_epoch g = seg_placement_epoch (ph_source d) \<and> end_lsn g = ph_archived_lsn d"

definition published_ok :: "pending_handoff \<Rightarrow> stream_segment list \<Rightarrow> bool" where
  "published_ok d ranges =
     (case ph_successor d of
        None \<Rightarrow> False
      | Some successor \<Rightarrow>
          (case position (\<lambda>g. g = successor) ranges of
             None \<Rightarrow> False
           | Some successor_index \<Rightarrow>
               if (case ph_archived_lsn d of Some archived \<Rightarrow> start_lsn (ph_source d) \<le> archived | None \<Rightarrow> False)
               then (case position (sealed_source d) ranges of
                       None \<Rightarrow> False
                     | Some source_index \<Rightarrow> source_index + 1 = successor_index)
               else start_lsn successor = start_lsn (ph_source d)))"

definition validate_handoff_against_metadata ::
  "head_external \<Rightarrow> control_metadata \<Rightarrow> pending_handoff \<Rightarrow> bool \<Rightarrow> (unit, head_error) result" where
  "validate_handoff_against_metadata x m d allow_published =
     (case bt_get (cm_cohorts m) (cohort_id (ph_source d)) of
        None \<Rightarrow> Inl (Invalid ''pending handoff source cohort is absent'')
      | Some source_cohort \<Rightarrow>
          if dc_members source_cohort \<noteq> member_ids (ph_source d) \<or>
             \<not> (dc_status source_cohort \<in> {CActive, CDraining} \<or>
                (ph_stage d = RoutePublished \<and> dc_status source_cohort = CRetired))
          then Inl Precondition
          else if \<not> list_all (source_member_ok m d (dc_status source_cohort)) (member_ids (ph_source d))
          then Inl Precondition
          else
            let source_members = List.map_filter (bt_get (cm_members m)) (member_ids (ph_source d))
            in if length source_members \<noteq> REPLICATION_FACTOR \<or>
                  members_hash x source_members \<noteq> member_hash (ph_source d)
               then Inl Precondition
               else case bt_get (cm_cohorts m) (ph_target_cohort_id d) of
                 None \<Rightarrow> Inl (Invalid ''pending handoff target cohort is absent'')
               | Some target_cohort \<Rightarrow>
                   if dc_members target_cohort \<noteq> map dm_id (ph_target_members d) \<or>
                      dc_status target_cohort \<notin> {CJoining, CActive} \<or>
                      dc_tier target_cohort \<noteq> ph_target_tier d \<or>
                      dc_max_append_bytes target_cohort \<noteq> ph_target_max_append_bytes d \<or>
                      members_hash x (ph_target_members d) \<noteq> ph_target_member_hash d
                   then Inl Precondition
                   else if \<not> list_all (target_member_ok m) (ph_target_members d) then Inl Precondition
                   else case bt_get (rm_segments (cm_manifest m)) (ph_stream d) of
                     None \<Rightarrow> Inl Precondition
                   | Some ranges \<Rightarrow>
                       if ph_stage d \<noteq> RoutePublished
                       then (if ranges \<noteq> [] \<and> last ranges = ph_source d then Inr () else Inl Precondition)
                       else if \<not> allow_published then Inl Precondition
                       else if published_ok d ranges then Inr () else Inl Precondition)"

text \<open>Enters the claim of one stream into the metadata of a head and writes the head.\<close>

definition write_claims ::
  "head_external \<Rightarrow> head_snapshot \<Rightarrow> control_metadata \<Rightarrow> string \<Rightarrow> snapshot_io" where
  "write_claims x current metadata oid =
     try_pure (head_with_metadata x (hs_head current) metadata oid) (update_exact x current)"

definition with_claim :: "control_head \<Rightarrow> pending_handoff \<Rightarrow> control_metadata" where
  "with_claim h d = (ch_metadata h)\<lparr>cm_pending := bt_insert (ph_stream d) d (cm_pending (ch_metadata h))\<rparr>"

definition claim_pending_handoff :: "head_external \<Rightarrow> head_snapshot \<Rightarrow> pending_handoff \<Rightarrow> snapshot_io" where
  "claim_pending_handoff x expected d =
     try_pure (handoff_validate (Some (ph_stream d)) d) (\<lambda>_.
       if ph_stage d \<noteq> Prepared
       then Done (Inl (Invalid ''pending handoff claims must start in prepared stage''))
       else load_present x (\<lambda>current.
         try_pure (pending_operation_id x (ph_operation_id d) (ph_stream d) ''claim'') (\<lambda>claim_operation.
           case bt_get (cm_pending (ch_metadata (hs_head current))) (ph_stream d) of
             Some existing \<Rightarrow>
               if immutable_eq existing d then Done (Inr current)
               else Done (Inl (PendingHandoffConflict (ph_stream d) (ph_operation_id existing)))
           | None \<Rightarrow>
               if bt_has (ch_completed (hs_head current)) claim_operation
               then Done (Inl (OperationConflict (ph_operation_id d)))
               else
                 try_pure (validate_expected expected current) (\<lambda>_.
                 try_pure (validate_handoff_against_metadata x (ch_metadata (hs_head current)) d False) (\<lambda>_.
                   write_claims x current (with_claim (hs_head current) d) claim_operation)))))"

definition rebase_pending_handoff_advance ::
  "head_external \<Rightarrow> pending_handoff \<Rightarrow> string \<Rightarrow> pending_handoff \<Rightarrow> snapshot_io" where
  "rebase_pending_handoff_advance x d oid observed_claim =
     load_present x (\<lambda>latest.
       case bt_get (cm_pending (ch_metadata (hs_head latest))) (ph_stream d) of
         None \<Rightarrow> Done (Inl Precondition)
       | Some latest_claim \<Rightarrow>
           if ph_operation_id latest_claim \<noteq> ph_operation_id d
           then Done (Inl (PendingHandoffConflict (ph_stream d) (ph_operation_id latest_claim)))
           else if latest_claim = d \<and> bt_has (ch_completed (hs_head latest)) oid then Done (Inr latest)
           else if latest_claim \<noteq> observed_claim
           then (if rank (ph_stage d) \<le> rank (ph_stage latest_claim) then Done (Inl Precondition)
                 else Done (Inl (OperationConflict (ph_operation_id d))))
           else
             try_pure (validate_handoff_against_metadata x (ch_metadata (hs_head latest)) d True) (\<lambda>_.
               write_claims x latest (with_claim (hs_head latest) d) oid))"

text \<open>What \<open>advance_pending_handoff\<close> answers for a stage that is not ahead of the recorded one.\<close>

definition replay_advance ::
  "head_external \<Rightarrow> head_snapshot \<Rightarrow> pending_handoff \<Rightarrow> pending_handoff \<Rightarrow> string \<Rightarrow> snapshot_io" where
  "replay_advance x current existing d oid =
     (let exact_phase = ph_archived_lsn d = ph_archived_lsn existing \<and> ph_successor d = ph_successor existing \<and>
            (ph_successor_placement d = None \<or> ph_successor_placement d = ph_successor_placement existing);
          recorded = bt_has (ch_completed (hs_head current)) oid
      in if rank (ph_stage d) < rank (ph_stage existing) \<and> exact_phase
         then (if recorded then Done (Inr current) else Done (Inl Precondition))
         else if ph_stage d = ph_stage existing
         then (if exact_phase \<and> recorded then Done (Inr current)
               else Done (Inl (OperationConflict (ph_operation_id d))))
         else Done (Inl Precondition))"

definition advance_pending_handoff :: "head_external \<Rightarrow> head_snapshot \<Rightarrow> pending_handoff \<Rightarrow> snapshot_io" where
  "advance_pending_handoff x expected d =
     try_pure (handoff_validate (Some (ph_stream d)) d) (\<lambda>_.
       if ph_stage d = Prepared
       then Done (Inl (Invalid ''pending handoff advance must move beyond prepared stage''))
       else load_present x (\<lambda>current.
         try_pure (pending_operation_id x (ph_operation_id d) (ph_stream d) (operation_suffix (ph_stage d))) (\<lambda>oid.
           case bt_get (cm_pending (ch_metadata (hs_head current))) (ph_stream d) of
             None \<Rightarrow>
               if bt_has (ch_completed (hs_head current)) oid then Done (Inr current) else Done (Inl Precondition)
           | Some existing \<Rightarrow>
               if ph_operation_id existing \<noteq> ph_operation_id d
               then Done (Inl (PendingHandoffConflict (ph_stream d) (ph_operation_id existing)))
               else if \<not> immutable_eq existing d then Done (Inl (OperationConflict (ph_operation_id d)))
               else if rank (ph_stage d) \<le> rank (ph_stage existing) then replay_advance x current existing d oid
               else
                 (case validate_expected expected current of
                    Inl e \<Rightarrow>
                      if e = Precondition then rebase_pending_handoff_advance x d oid existing else Done (Inl e)
                  | Inr _ \<Rightarrow>
                      try_pure (validate_handoff_against_metadata x (ch_metadata (hs_head current)) d True) (\<lambda>_.
                      try_pure (head_with_metadata x (hs_head current) (with_claim (hs_head current) d) oid) (\<lambda>new.
                        bind_io (update_exact x current new) (\<lambda>r.
                          case r of
                            Inr snapshot \<Rightarrow> Done (Inr snapshot)
                          | Inl e \<Rightarrow>
                              if e = Precondition then rebase_pending_handoff_advance x d oid existing
                              else Done (Inl e))))))))"

definition publish_pending_handoff ::
  "head_external \<Rightarrow> head_snapshot \<Rightarrow> control_metadata \<Rightarrow> pending_handoff \<Rightarrow> snapshot_io" where
  "publish_pending_handoff x expected metadata d =
     try_pure (handoff_validate (Some (ph_stream d)) d) (\<lambda>_.
       if ph_stage d \<noteq> RoutePublished
       then Done (Inl (Invalid ''pending handoff publication requires route_published stage''))
       else if bt_get (cm_pending metadata) (ph_stream d) \<noteq> Some d then Done (Inl Precondition)
       else load_present x (\<lambda>current.
         case bt_get (cm_pending (ch_metadata (hs_head current))) (ph_stream d) of
           None \<Rightarrow> Done (Inl Precondition)
         | Some existing \<Rightarrow>
             if ph_operation_id existing \<noteq> ph_operation_id d
             then Done (Inl (PendingHandoffConflict (ph_stream d) (ph_operation_id existing)))
             else
               try_pure (pending_operation_id x (ph_operation_id d) (ph_stream d) (operation_suffix (ph_stage d))) (\<lambda>oid.
                 if existing = d \<and> ph_stage existing = RoutePublished \<and> bt_has (ch_completed (hs_head current)) oid
                 then Done (Inr current)
                 else if \<not> immutable_eq existing d \<or> rank (ph_stage d) \<le> rank (ph_stage existing) \<or>
                         rank (ph_stage existing) < rank ArchiveVerified
                 then Done (Inl Precondition)
                 else
                   try_pure (validate_expected expected current) (\<lambda>_.
                   try_pure (validate_handoff_against_metadata x metadata d True) (\<lambda>_.
                     write_claims x current metadata oid)))))"

definition complete_pending_handoff :: "head_external \<Rightarrow> head_snapshot \<Rightarrow> string \<Rightarrow> string \<Rightarrow> snapshot_io" where
  "complete_pending_handoff x expected s oid =
     load_present x (\<lambda>current.
       try_pure (pending_operation_id x oid s ''complete'') (\<lambda>complete_operation.
         case bt_get (cm_pending (ch_metadata (hs_head current))) s of
           None \<Rightarrow>
             if bt_has (ch_completed (hs_head current)) complete_operation then Done (Inr current)
             else Done (Inl Precondition)
         | Some existing \<Rightarrow>
             if ph_operation_id existing \<noteq> oid then Done (Inl (PendingHandoffConflict s (ph_operation_id existing)))
             else if ph_stage existing \<noteq> RoutePublished then Done (Inl Precondition)
             else
               try_pure (validate_expected expected current) (\<lambda>_.
               try_pure (validate_handoff_against_metadata x (ch_metadata (hs_head current)) existing True) (\<lambda>_.
                 write_claims x current
                   ((ch_metadata (hs_head current))\<lparr>cm_pending := bt_remove s (cm_pending (ch_metadata (hs_head current)))\<rparr>)
                   complete_operation))))"

end
