(* ===== verification/Control_Run.thy ===== *)
theory Control_Run
  imports Control_Head
begin

text \<open>
  Concurrent use of the control head: the gateway's handoff operations on top of \<open>Control_Head\<close>
  (\<open>crates/walleye-bitr-server/src/lib.rs\<close>) and the runs of any number of operations against one
  object. Each call to the store is one event. A call may fail; a write whose caller got an error
  may still take effect at any later time (\<open>Land\<close>). \<open>c_log\<close> is the history of the object, every
  version that was ever written. A caller passes to an operation only snapshots it got from the
  store. The local cache each gateway keeps of the head is not part of it.
\<close>

section \<open>Definitions\<close>

subsection \<open>Handoffs of the gateway\<close>

definition head_error_text :: "head_error \<Rightarrow> string" where
  "head_error_text e =
     (case e of
        Invalid m \<Rightarrow> ''invalid replica control head: '' @ m
      | ObjectStore \<Rightarrow> ''replica control head object-store operation failed: ''
      | AlreadyExists \<Rightarrow> ''replica control head already exists''
      | Precondition \<Rightarrow> ''replica control head conditional update failed''
      | SourceMarkerMismatch \<Rightarrow> ''replica control head source marker does not match the expected authority''
      | OperationConflict oid \<Rightarrow> ''replica control head operation '' @ oid @ '' conflicts with an existing value''
      | PendingHandoffConflict s oid \<Rightarrow>
          ''pending handoff for stream '' @ s @ '' is owned by operation '' @ oid
      | MissingEtag \<Rightarrow> ''replica control head object has no ETag for conditional update'')"

definition store_io :: "('a, head_error) result io \<Rightarrow> ('a, replica_error) result io" where
  "store_io p =
     bind_io p (\<lambda>r. Done (case r of Inl e \<Rightarrow> Inl (NodeStorage (head_error_text e)) | Inr a \<Rightarrow> Inr a))"

definition already_owned :: "string \<Rightarrow> string \<Rightarrow> replica_error" where
  "already_owned s oid = Protocol (''stream '' @ s @ '' is already owned by online handoff '' @ oid)"

definition gateway_claim :: "head_external \<Rightarrow> pending_handoff \<Rightarrow> (bool, replica_error) result io" where
  "gateway_claim x d =
     try_io (store_io (load x)) (\<lambda>r.
       case r of
         None \<Rightarrow> Done (Inr False)
       | Some expected \<Rightarrow>
           (case bt_get (cm_pending (ch_metadata (hs_head expected))) (ph_stream d) of
              Some existing \<Rightarrow>
                if ph_operation_id existing \<noteq> ph_operation_id d
                then Done (Inl (already_owned (ph_stream d) (ph_operation_id existing)))
                else try_io (store_io (claim_pending_handoff x expected d)) (\<lambda>_. Done (Inr True))
            | None \<Rightarrow> try_io (store_io (claim_pending_handoff x expected d)) (\<lambda>_. Done (Inr True))))"

definition gateway_advance :: "head_external \<Rightarrow> pending_handoff \<Rightarrow> (bool, replica_error) result io" where
  "gateway_advance x d =
     try_io (store_io (load x)) (\<lambda>r.
       case r of
         None \<Rightarrow> Done (Inr False)
       | Some expected \<Rightarrow> try_io (store_io (advance_pending_handoff x expected d)) (\<lambda>_. Done (Inr True)))"

record stream_cutover =
  sc_stream :: string
  sc_source :: stream_segment
  sc_successor :: stream_segment
  sc_archived_lsn :: nat
  sc_pending_handoff :: "pending_handoff option"

text \<open>The ranges of the stream with the source sealed at the archive watermark, or replaced when it never
  held a record.\<close>

definition cutover_ranges :: "stream_segment list \<Rightarrow> stream_segment \<Rightarrow> nat \<Rightarrow> stream_segment \<Rightarrow> stream_segment list" where
  "cutover_ranges ranges source archived published =
     butlast ranges @
       (if archived < start_lsn source then [published]
        else [(last ranges)\<lparr>end_lsn := Some archived\<rparr>, published])"

definition publish_route ::
  "head_external \<Rightarrow> stream_cutover \<Rightarrow> pending_handoff \<Rightarrow> head_snapshot \<Rightarrow> (unit, replica_error) result io" where
  "publish_route x cutover base expected =
     (let metadata = ch_metadata (hs_head expected);
          manifest = cm_manifest metadata;
          s = sc_stream cutover
      in case bt_get (rm_segments manifest) s of
           None \<Rightarrow> Done (Inl LsnConflict)
         | Some ranges \<Rightarrow>
             if ranges = [] then Done (Inl LsnConflict)
             else case checked_add_u64 (rm_revision manifest) 1 of
               None \<Rightarrow> Done (Inl (Protocol ''manifest revision exhausted''))
             | Some next_revision \<Rightarrow>
                 let published = (case ph_successor base of Some g \<Rightarrow> g | None \<Rightarrow> sc_successor cutover);
                     archived = (case ph_archived_lsn base of Some a \<Rightarrow> a | None \<Rightarrow> sc_archived_lsn cutover)
                 in if manifest_revision published = 0 \<or> next_revision < manifest_revision published \<or>
                       trim (operation_id published) = []
                    then Done (Inl LsnConflict)
                    else if last ranges \<noteq> sc_source cutover then Done (Inl LsnConflict)
                    else if archived \<noteq> sc_archived_lsn cutover then Done (Inl LsnConflict)
                    else
                      let segs = bt_insert s (cutover_ranges ranges (sc_source cutover) archived published) (rm_segments manifest);
                          manifest' = manifest\<lparr>rm_segments := segs, rm_revision := next_revision,
                            rm_operation_id := ph_operation_id base @ '':route'', rm_digest := manifest_digest x segs\<rparr>;
                          d = base\<lparr>ph_stage := RoutePublished, ph_archived_lsn := Some archived,
                            ph_successor := Some published,
                            ph_successor_placement :=
                              Some (case ph_successor_placement base of
                                      Some p \<Rightarrow> p
                                    | None \<Rightarrow> placement_for_route (x_sha256 x) s published)\<rparr>;
                          metadata' = metadata\<lparr>cm_manifest := manifest', cm_pending := bt_insert s d (cm_pending metadata)\<rparr>
                      in try_io (store_io (publish_pending_handoff x expected metadata' d)) (\<lambda>expected.
                         try_io (store_io (complete_pending_handoff x expected s (ph_operation_id base))) (\<lambda>_.
                           Done (Inr ()))))"

definition same_route :: "stream_segment \<Rightarrow> stream_segment \<Rightarrow> bool" where
  "same_route successor g \<longleftrightarrow>
     start_lsn g = start_lsn successor \<and> cohort_id g = cohort_id successor \<and> member_ids g = member_ids successor \<and>
     member_hash g = member_hash successor \<and> seg_placement_epoch g = seg_placement_epoch successor \<and> end_lsn g = None"

definition publish_one_pending_handoff :: "head_external \<Rightarrow> stream_cutover \<Rightarrow> (unit, replica_error) result io" where
  "publish_one_pending_handoff x cutover =
     (case sc_pending_handoff cutover of
        None \<Rightarrow> Done (Inr ())
      | Some base \<Rightarrow>
          try_io (store_io (load x)) (\<lambda>r.
            case r of
              None \<Rightarrow> Done (Inl (Protocol ''authoritative membership head is not initialized''))
            | Some expected \<Rightarrow>
                let metadata = ch_metadata (hs_head expected);
                    ranges = bt_get (rm_segments (cm_manifest metadata)) (sc_stream cutover)
                in case bt_get (cm_pending metadata) (sc_stream cutover) of
                     Some existing \<Rightarrow>
                       if ph_operation_id existing = ph_operation_id base \<and> ph_stage existing = RoutePublished
                       then (case ph_successor existing of
                               None \<Rightarrow> Done (Inl LsnConflict)
                             | Some published \<Rightarrow>
                                 if (case ranges of Some gs \<Rightarrow> published \<in> set gs | None \<Rightarrow> False)
                                 then try_io (store_io (complete_pending_handoff x expected (sc_stream cutover) (ph_operation_id base)))
                                        (\<lambda>_. Done (Inr ()))
                                 else Done (Inl LsnConflict))
                       else publish_route x cutover base expected
                   | None \<Rightarrow>
                       if (case ranges of Some gs \<Rightarrow> list_ex (same_route (sc_successor cutover)) gs | None \<Rightarrow> False)
                       then Done (Inr ())
                       else publish_route x cutover base expected))"

subsection \<open>Runs\<close>

datatype call =
    CreateHead control_head
  | UpdateHead head_snapshot control_head
  | ClaimHandoff head_snapshot pending_handoff
  | AdvanceHandoff head_snapshot pending_handoff
  | CompleteHandoff head_snapshot string string
  | GatewayClaim pending_handoff
  | GatewayAdvance pending_handoff
  | GatewayPublish stream_cutover

datatype answer = Snapshot "(head_snapshot, head_error) result" | Outcome "(bool, replica_error) result"

fun program :: "head_external \<Rightarrow> call \<Rightarrow> answer io" where
  "program x (CreateHead h) = bind_io (create x h) (\<lambda>r. Done (Snapshot r))"
| "program x (UpdateHead expected h) = bind_io (head_update x expected h) (\<lambda>r. Done (Snapshot r))"
| "program x (ClaimHandoff expected d) = bind_io (claim_pending_handoff x expected d) (\<lambda>r. Done (Snapshot r))"
| "program x (AdvanceHandoff expected d) = bind_io (advance_pending_handoff x expected d) (\<lambda>r. Done (Snapshot r))"
| "program x (CompleteHandoff expected s oid) = bind_io (complete_pending_handoff x expected s oid) (\<lambda>r. Done (Snapshot r))"
| "program x (GatewayClaim d) = bind_io (gateway_claim x d) (\<lambda>r. Done (Outcome r))"
| "program x (GatewayAdvance d) = bind_io (gateway_advance x d) (\<lambda>r. Done (Outcome r))"
| "program x (GatewayPublish cutover) =
     bind_io (publish_one_pending_handoff x cutover) (\<lambda>r. Done (Outcome (map_sum id (\<lambda>_. True) r)))"

text \<open>The snapshot a caller passes.\<close>

fun expects :: "call \<Rightarrow> head_snapshot list" where
  "expects (UpdateHead expected _) = [expected]"
| "expects (ClaimHandoff expected _) = [expected]"
| "expects (AdvanceHandoff expected _) = [expected]"
| "expects (CompleteHandoff expected _ _) = [expected]"
| "expects _ = []"

record cell =
  c_object :: "(control_head \<times> nat) option"
  c_tags :: nat
  c_log :: "head_snapshot list"
  c_late :: "(put_mode \<times> control_head) list"
  c_calls :: "(call \<times> answer io) list"

datatype choice = Works | Fails | Untagged

definition get_object :: "choice \<Rightarrow> cell \<Rightarrow> get_answer" where
  "get_object ch w =
     (case ch of
        Fails \<Rightarrow> GetFailed
      | Works \<Rightarrow> (case c_object w of None \<Rightarrow> NotFound | Some (h, t) \<Rightarrow> Got h (Some t))
      | Untagged \<Rightarrow> (case c_object w of None \<Rightarrow> NotFound | Some (h, t) \<Rightarrow> Got h None))"

text \<open>A conditional write that is admitted makes a new version.\<close>

definition put_admitted :: "put_mode \<Rightarrow> cell \<Rightarrow> bool" where
  "put_admitted m w \<longleftrightarrow>
     (case m of
        PutCreate \<Rightarrow> c_object w = None
      | PutUpdate t \<Rightarrow> (case c_object w of None \<Rightarrow> False | Some (_, t') \<Rightarrow> t' = t))"

definition write_object :: "control_head \<Rightarrow> cell \<Rightarrow> cell" where
  "write_object h w =
     w\<lparr>c_object := Some (h, c_tags w), c_tags := c_tags w + 1,
       c_log := \<lparr>hs_head = h, hs_version = c_tags w\<rparr> # c_log w\<rparr>"

definition put_object :: "choice \<Rightarrow> put_mode \<Rightarrow> control_head \<Rightarrow> cell \<Rightarrow> cell \<times> put_answer" where
  "put_object ch m h w =
     (if ch = Fails then (w\<lparr>c_late := c_late w @ [(m, h)]\<rparr>, PutFailed)
      else if put_admitted m w then (write_object h w, PutDone (if ch = Works then Some (c_tags w) else None))
      else (w, case m of PutCreate \<Rightarrow> PutExists | PutUpdate _ \<Rightarrow> PutPrecondition))"

datatype head_event = Begin call | Step nat choice | Land nat

definition head_event :: "head_external \<Rightarrow> head_event \<Rightarrow> cell \<Rightarrow> cell option" where
  "head_event x ev w =
     (case ev of
        Begin c \<Rightarrow>
          if set (expects c) \<subseteq> set (c_log w) then Some (w\<lparr>c_calls := c_calls w @ [(c, program x c)]\<rparr>) else None
      | Step i ch \<Rightarrow>
          if i < length (c_calls w)
          then (case c_calls w ! i of (c, p) \<Rightarrow>
                  (case p of
                     Done _ \<Rightarrow> None
                   | Get f \<Rightarrow> Some (w\<lparr>c_calls := (c_calls w)[i := (c, f (get_object ch w))]\<rparr>)
                   | Put m h f \<Rightarrow>
                       (case put_object ch m h w of (w', a) \<Rightarrow>
                          Some (w'\<lparr>c_calls := (c_calls w')[i := (c, f a)]\<rparr>))))
          else None
      | Land j \<Rightarrow>
          if j < length (c_late w)
          then (case c_late w ! j of (m, h) \<Rightarrow>
                  let w' = w\<lparr>c_late := take j (c_late w) @ drop (Suc j) (c_late w)\<rparr>
                  in Some (if put_admitted m w then write_object h w' else w'))
          else None)"

fun head_run :: "head_external \<Rightarrow> head_event list \<Rightarrow> cell \<Rightarrow> cell option" where
  "head_run x [] w = Some w"
| "head_run x (ev # evs) w = (case head_event x ev w of None \<Rightarrow> None | Some w' \<Rightarrow> head_run x evs w')"

definition empty_cell :: cell where
  "empty_cell = \<lparr>c_object = None, c_tags = 0, c_log = [], c_late = [], c_calls = []\<rparr>"

text \<open>The heads in the order in which they were written, and the claim of a stream in a head.\<close>

definition heads :: "cell \<Rightarrow> control_head list" where
  "heads w = map hs_head (rev (c_log w))"

definition claim_of :: "control_head \<Rightarrow> string \<Rightarrow> pending_handoff option" where
  "claim_of h s = bt_get (cm_pending (ch_metadata h)) s"

definition ranges_of :: "control_head \<Rightarrow> string \<Rightarrow> stream_segment list option" where
  "ranges_of h s = bt_get (rm_segments (cm_manifest (ch_metadata h))) s"

end
