(* ===== verification/Control_Logic.thy ===== *)
theory Control_Logic
  imports Control_Run
begin

text \<open>
  What the operations on the control head may write and answer. \<open>head_step\<close> is the contract of one
  new version of the head: the next revision, all receipts kept, and a claim of a stream either
  kept (moving forward through its stages) or completed after its route was published. \<open>good\<close>
  is a program logic for the operations as programs over calls to the store: with the snapshots seen
  so far, every write the program may try is a \<open>head_step\<close> of a snapshot it has seen, whatever the
  store answers, and its answer meets a postcondition. There is one rule per operation
  (\<open>good_claim\<close>, \<open>good_advance\<close>, \<open>good_publish\<close>, \<dots>) and \<open>good_program\<close> for all calls.
\<close>

section \<open>Specification\<close>

definition head_ok :: "head_external \<Rightarrow> control_head \<Rightarrow> bool" where
  "head_ok x h \<longleftrightarrow> validate_size_and_head x h = Inr ()"

text \<open>The same claim, possibly at a later stage.\<close>

definition same_claim :: "pending_handoff \<Rightarrow> pending_handoff \<Rightarrow> bool" where
  "same_claim e d \<longleftrightarrow> d = e \<or> immutable_eq e d \<and> rank (ph_stage e) < rank (ph_stage d)"

text \<open>What may become of the claim of a stream from one head to the next.\<close>

definition claim_step :: "control_head \<Rightarrow> control_head \<Rightarrow> string \<Rightarrow> bool" where
  "claim_step current new s \<longleftrightarrow>
     (case claim_of current s of
        None \<Rightarrow> True
      | Some e \<Rightarrow>
          (case claim_of new s of
             Some d \<Rightarrow> same_claim e d
           | None \<Rightarrow>
               ph_stage e = RoutePublished \<and> (\<exists>ranges. ranges_of current s = Some ranges \<and> published_ok e ranges) \<and>
               cm_manifest (ch_metadata new) = cm_manifest (ch_metadata current)))"

definition head_step :: "control_head \<Rightarrow> control_head \<Rightarrow> bool" where
  "head_step current new \<longleftrightarrow>
     ch_revision new = saturating_add_u64 (ch_revision current) 1 \<and>
     (ch_authority_epoch new = ch_authority_epoch current \<and> ch_source_marker new = ch_source_marker current \<or>
      ch_authority_epoch new = ch_authority_epoch current + 1 \<and>
      sm_authority_epoch (ch_source_marker new) = ch_authority_epoch current \<and>
      sm_revision (ch_source_marker new) = ch_revision current \<and>
      sm_digest (ch_source_marker new) = ch_metadata_digest current) \<and>
     \<not> bt_has (ch_completed current) (ch_operation_id new) \<and>
     map_of (ch_completed current) \<subseteq>\<^sub>m map_of (ch_completed new) \<and>
     (\<forall>s. claim_step current new s)"

text \<open>A write an operation may issue, given the snapshots it has seen.\<close>

definition put_ok :: "head_external \<Rightarrow> head_snapshot set \<Rightarrow> put_mode \<Rightarrow> control_head \<Rightarrow> bool" where
  "put_ok x K m h \<longleftrightarrow> head_ok x h \<and>
     (case m of PutCreate \<Rightarrow> True | PutUpdate t \<Rightarrow> \<exists>s \<in> K. hs_version s = t \<and> head_step (hs_head s) h)"

text \<open>A program that issues only such writes, whatever the store answers, and whose result satisfies \<open>R\<close>.\<close>

primrec good :: "head_external \<Rightarrow> (head_snapshot set \<Rightarrow> 'a \<Rightarrow> bool) \<Rightarrow> 'a io \<Rightarrow> head_snapshot set \<Rightarrow> bool" where
  "good x R (Done r) = (\<lambda>K. R K r)"
| "good x R (Get f) = (\<lambda>K. good x R (f NotFound) K \<and> good x R (f GetFailed) K \<and> (\<forall>h. good x R (f (Got h None)) K) \<and>
     (\<forall>h t. good x R (f (Got h (Some t))) (insert \<lparr>hs_head = h, hs_version = t\<rparr> K)))"
| "good x R (Put m h f) = (\<lambda>K. put_ok x K m h \<and> good x R (f PutExists) K \<and> good x R (f PutPrecondition) K \<and>
     good x R (f PutFailed) K \<and> good x R (f (PutDone None)) K \<and>
     (\<forall>t. good x R (f (PutDone (Some t))) (insert \<lparr>hs_head = h, hs_version = t\<rparr> K)))"

definition ok_answer :: "(head_snapshot set \<Rightarrow> 'a \<Rightarrow> bool) \<Rightarrow> head_snapshot set \<Rightarrow> ('a, 'e) result \<Rightarrow> bool" where
  "ok_answer Q K r \<longleftrightarrow> (case r of Inl _ \<Rightarrow> True | Inr a \<Rightarrow> Q K a)"

text \<open>A snapshot that was seen, of a head that receipted an operation.\<close>

definition receipted :: "string \<Rightarrow> head_snapshot set \<Rightarrow> head_snapshot \<Rightarrow> bool" where
  "receipted oid K s \<longleftrightarrow> s \<in> K \<and> bt_has (ch_completed (hs_head s)) oid"

definition seen_head :: "head_snapshot set \<Rightarrow> head_snapshot \<Rightarrow> bool" where
  "seen_head K s \<longleftrightarrow> s \<in> K"

definition loaded_ok :: "head_external \<Rightarrow> head_snapshot set \<Rightarrow> head_snapshot option \<Rightarrow> bool" where
  "loaded_ok x K r \<longleftrightarrow> (\<forall>s. r = Some s \<longrightarrow> s \<in> K \<and> head_ok x (hs_head s))"

definition growing :: "(head_snapshot set \<Rightarrow> 'a \<Rightarrow> bool) \<Rightarrow> bool" where
  "growing R \<longleftrightarrow> (\<forall>K K' r. K \<subseteq> K' \<longrightarrow> R K r \<longrightarrow> R K' r)"

definition answer_ok :: "call \<Rightarrow> head_snapshot set \<Rightarrow> answer \<Rightarrow> bool" where
  "answer_ok c K a \<longleftrightarrow>
     (case c of
        CreateHead h \<Rightarrow> (\<forall>s. a = Snapshot (Inr s) \<longrightarrow> receipted (ch_operation_id h) K s)
      | UpdateHead _ h \<Rightarrow> (\<forall>s. a = Snapshot (Inr s) \<longrightarrow> receipted (ch_operation_id h) K s)
      | _ \<Rightarrow> True)"

section \<open>Programs\<close>

lemma put_ok_mono: "put_ok x K m h \<Longrightarrow> K \<subseteq> K' \<Longrightarrow> put_ok x K' m h"
  by (auto simp: put_ok_def split: put_mode.splits)

lemma growing_ok [simp]: "growing Q \<Longrightarrow> growing (ok_answer Q)"
  by (auto simp: growing_def ok_answer_def split: sum.splits)

lemma growing_records [simp]: "growing (receipted oid)"
  by (auto simp: growing_def receipted_def)

lemma growing_seen [simp]: "growing seen_head"
  by (auto simp: growing_def seen_head_def)

lemma growing_True [simp]: "growing (\<lambda>K r. True)"
  by (simp add: growing_def)

lemma good_mono: "good x R p K \<Longrightarrow> K \<subseteq> K' \<Longrightarrow> growing R \<Longrightarrow> good x R p K'"
proof (induction p arbitrary: K K')
  case (Done r)
  then show ?case by (simp add: growing_def)
next
  case (Get f)
  have "good x R (f (Got h (Some t))) (insert \<lparr>hs_head = h, hs_version = t\<rparr> K')" for h t
    by (rule Get.IH [OF rangeI, where K = "insert \<lparr>hs_head = h, hs_version = t\<rparr> K"]) (use Get.prems in auto)
  then show ?case using Get.prems Get.IH [OF rangeI _ Get.prems(2,3)] by simp
next
  case (Put m h f)
  have "good x R (f (PutDone (Some t))) (insert \<lparr>hs_head = h, hs_version = t\<rparr> K')" for t
    by (rule Put.IH [OF rangeI, where K = "insert \<lparr>hs_head = h, hs_version = t\<rparr> K"]) (use Put.prems in auto)
  then show ?case using Put.prems Put.IH [OF rangeI _ Put.prems(2,3)] put_ok_mono [OF _ Put.prems(2)] by simp
qed

lemma good_bind:
  "good x P p K \<Longrightarrow> (\<And>K' r. K \<subseteq> K' \<Longrightarrow> P K' r \<Longrightarrow> good x R (k r) K') \<Longrightarrow> good x R (bind_io p k) K"
proof (induction p arbitrary: K)
  case (Done r)
  then show ?case by simp
next
  case (Get f)
  have "good x R (bind_io (f (Got h (Some t))) k) (insert \<lparr>hs_head = h, hs_version = t\<rparr> K)" for h t
    by (rule Get.IH [OF rangeI]) (use Get.prems in auto)
  then show ?case using Get.prems(1) Get.IH [OF rangeI _ Get.prems(2)] by simp
next
  case (Put m h f)
  have "good x R (bind_io (f (PutDone (Some t))) k) (insert \<lparr>hs_head = h, hs_version = t\<rparr> K)" for t
    by (rule Put.IH [OF rangeI]) (use Put.prems in auto)
  then show ?case using Put.prems(1) Put.IH [OF rangeI _ Put.prems(2)] by simp
qed

lemma good_try_pure:
  "(\<And>a. r = Inr a \<Longrightarrow> good x (ok_answer Q) (k a) K) \<Longrightarrow> good x (ok_answer Q) (try_pure r k) K"
  by (cases r) (auto simp: try_pure_def ok_answer_def)

lemma good_try_io:
  assumes "good x (ok_answer P) p K" "\<And>K' a. K \<subseteq> K' \<Longrightarrow> P K' a \<Longrightarrow> good x (ok_answer Q) (k a) K'"
  shows "good x (ok_answer Q) (try_io p k) K"
  unfolding try_io_def
proof (rule good_bind [OF assms(1)], goal_cases)
  case (1 K' r)
  then show ?case using assms(2) by (cases r) (auto simp: ok_answer_def)
qed

lemma ok_answer_simps [simp]: "ok_answer Q K (Inl e)" "ok_answer Q K (Inr a) = Q K a"
  by (simp_all add: ok_answer_def)

lemma loaded_Some:
  "loaded x a = Inr (Some s) \<longleftrightarrow> a = Got (hs_head s) (Some (hs_version s)) \<and> head_ok x (hs_head s)"
  by (auto simp: loaded_def head_ok_def validate_size_and_head_def split: get_answer.splits option.splits sum.splits if_splits)

lemma loaded_Some_got: "head_ok x h \<Longrightarrow> loaded x (Got h (Some t)) = Inr (Some \<lparr>hs_head = h, hs_version = t\<rparr>)"
  by (simp add: loaded_Some)

lemma good_load: "good x (ok_answer (loaded_ok x)) (load x) K"
proof -
  have a: "ok_answer (loaded_ok x) K (loaded x a)" if "\<And>s. a = Got (hs_head s) (Some (hs_version s)) \<Longrightarrow> s \<in> K" for K a
    using that loaded_Some [of x a] by (cases "loaded x a") (auto simp: loaded_ok_def)
  have "ok_answer (loaded_ok x) (insert \<lparr>hs_head = h, hs_version = t\<rparr> K) (loaded x (Got h (Some t)))" for h t by (rule a) auto
  then show ?thesis using a [of NotFound K] a [of GetFailed K] a [of "Got h None" K for h] by (simp add: load_def)
qed

lemma good_load_present:
  assumes "\<And>K' s. insert s K \<subseteq> K' \<Longrightarrow> head_ok x (hs_head s) \<Longrightarrow> good x (ok_answer Q) (k s) K'"
  shows "good x (ok_answer Q) (load_present x k) K"
  unfolding load_present_def
  by (rule good_try_io [OF good_load]) (use assms in \<open>auto simp: loaded_ok_def split: option.splits\<close>)

section \<open>Updates of the head\<close>

lemma carry_over_keeps:
  "carry_over err own cur = Inr merged \<Longrightarrow> map_of own \<subseteq>\<^sub>m map_of merged \<and> (\<forall>(k, v) \<in> set cur. map_of merged k = Some v)"
proof (induction err own cur rule: carry_over.induct)
  case (1 err own)
  then show ?case by simp
next
  case (2 err own k v rest)
  show ?case
  proof (cases "map_of own k")
    case None
    then have m: "carry_over err (bt_insert k v own) rest = Inr merged" using 2(3) by simp
    note ih = 2(1) [OF None m]
    have "map_of own \<subseteq>\<^sub>m map_of (bt_insert k v own)" using None by (auto simp: map_le_def map_of_bt_insert)
    moreover have "map_of merged k = Some v"
      using ih by (auto simp: map_le_def map_of_bt_insert dest!: bspec [of _ _ k])
    ultimately show ?thesis using ih by (auto intro: map_le_trans)
  next
    case (Some e)
    then have "e = v" and m: "carry_over err own rest = Inr merged" using 2(3) by (auto split: if_splits)
    note ih = 2(2) [OF Some _ m]
    moreover have "map_of merged k = Some v" using ih \<open>e = v\<close> Some by (auto simp: map_le_def dest!: bspec [of _ _ k])
    ultimately show ?thesis using \<open>e = v\<close> by auto
  qed
qed

lemma preserve_pending_keeps:
  assumes "preserve_pending_handoffs x current new = Inr new'" "claim_of current s = Some e"
  shows "claim_of new' s = Some e"
proof -
  obtain claims where "preserve_claims (cm_pending (ch_metadata new)) (cm_pending (ch_metadata current)) = Inr claims"
    and "cm_pending (ch_metadata new') = claims"
    using assms(1) by (auto simp: preserve_pending_handoffs_def Let_def split: sum.splits)
  then show ?thesis using carry_over_keeps assms(2)
    by (fastforce simp: preserve_claims_def claim_of_def dest: map_of_SomeD)
qed

lemma head_validateD:
  assumes "head_validate x h = Inr ()"
  shows "bt_get (ch_completed h) (ch_operation_id h) = Some (own_receipt h)"
    "metadata_validate x (ch_metadata h) = Inr ()" "ch_metadata_digest h = metadata_digest x (ch_metadata h)"
    "0 < ch_revision h" "0 < ch_authority_epoch h" "length (ch_completed h) \<le> MAX_COMPLETED_OPERATIONS"
  using assms by (auto simp: head_validate_def split: if_splits option.splits sum.splits)

lemma head_okD:
  assumes "head_ok x h"
  shows "head_validate x h = Inr ()" "x_head_bytes x h \<le> MAX_CONTROL_HEAD_BYTES"
  using assms by (auto simp: head_ok_def validate_size_and_head_def split: sum.splits if_splits)

lemma metadata_claims:
  assumes "metadata_validate x m = Inr ()" "bt_get (cm_pending m) s = Some d"
  shows "handoff_validate (Some s) d = Inr ()" "ph_stream d = s"
proof -
  have "check_all (\<lambda>(s, d). handoff_validate (Some s) d) (cm_pending m) = Inr ()"
    using assms(1) by (auto simp: metadata_validate_def split: if_splits sum.splits)
  then show "handoff_validate (Some s) d = Inr ()" using assms(2) by (auto simp: check_all_ok dest: map_of_SomeD)
  then show "ph_stream d = s" by (auto simp: handoff_validate_def split: if_splits)
qed

lemma claim_valid:
  assumes "head_ok x h" "claim_of h s = Some d"
  shows "handoff_validate (Some s) d = Inr ()" "ph_stream d = s"
  using metadata_claims [OF head_validateD(2) [OF head_okD(1) [OF assms(1)]]] assms(2) by (auto simp: claim_of_def)

lemma claim_step_metadata: "ch_metadata new' = ch_metadata new \<Longrightarrow> claim_step current new' s = claim_step current new s"
  by (auto simp: claim_step_def claim_of_def split: option.splits)

lemma merge_completed_step:
  assumes m: "merge_completed_operations x new current = Inr new'"
    and t: "validate_transition current new = Inr ()" and o: "bt_get (ch_completed current) (ch_operation_id new) = None"
    and c: "\<And>s. claim_step current new s"
  shows "head_step current new'" "ch_operation_id new' = ch_operation_id new"
proof -
  obtain merged where mr: "merge_receipts (ch_completed new) (ch_completed current) = Inr merged"
    and n: "new' = new\<lparr>ch_completed := bt_insert (ch_operation_id new) (own_receipt new) merged\<rparr>"
    using m by (auto simp: merge_completed_operations_def Let_def split: sum.splits)
  show oid: "ch_operation_id new' = ch_operation_id new" unfolding n by simp
  have keep: "map_of (ch_completed current) \<subseteq>\<^sub>m map_of (ch_completed new')"
    unfolding map_le_def
  proof
    fix k assume "k \<in> dom (map_of (ch_completed current))"
    then obtain r where r: "map_of (ch_completed current) k = Some r" by auto
    then have "k \<noteq> ch_operation_id new" "map_of merged k = Some r"
      using o carry_over_keeps [OF mr [unfolded merge_receipts_def]] by (auto dest: map_of_SomeD)
    then show "map_of (ch_completed current) k = map_of (ch_completed new') k" using r unfolding n by (simp add: map_of_bt_insert)
  qed
  have "\<forall>s. claim_step current new' s" using c claim_step_metadata [of new' new current] by (simp add: n)
  moreover have "ch_authority_epoch new = ch_authority_epoch current \<and> ch_source_marker new = ch_source_marker current \<or>
      ch_authority_epoch new = ch_authority_epoch current + 1 \<and>
      sm_authority_epoch (ch_source_marker new) = ch_authority_epoch current \<and>
      sm_revision (ch_source_marker new) = ch_revision current \<and> sm_digest (ch_source_marker new) = ch_metadata_digest current"
  proof (cases "ch_authority_epoch current < ch_authority_epoch new")
    case True
    then show ?thesis using t by (auto simp: validate_transition_def saturating_add_u64_def split: if_splits)
  next
    case False
    then have "ch_authority_epoch new = ch_authority_epoch current" using t by (auto simp: validate_transition_def split: if_splits)
    then show ?thesis using t by (auto simp: validate_transition_def split: if_splits)
  qed
  moreover have "ch_revision new = saturating_add_u64 (ch_revision current) 1" using t by (auto simp: validate_transition_def split: if_splits)
  ultimately show "head_step current new'" using o keep oid unfolding head_step_def by (simp add: n bt_has_iff)
qed

lemma good_put_update:
  assumes "expected \<in> K" "head_step (hs_head expected) new" "head_ok x new"
  shows "good x (ok_answer (receipted (ch_operation_id new))) (put_update x expected new) K"
proof -
  have "bt_has (ch_completed new) (ch_operation_id new)" using head_validateD(1) [OF head_okD(1) [OF assms(3)]] by (simp add: bt_has_iff)
  then have "good x (ok_answer (receipted (ch_operation_id new))) (Done (snapshot_from_put new a)) (insert \<lparr>hs_head = new, hs_version = t\<rparr> K)"
    if "a = Some t" for a t using that by (simp add: snapshot_from_put_def receipted_def)
  moreover have "good x (ok_answer (receipted (ch_operation_id new))) (load_present x (\<lambda>latest.
             case bt_get (ch_completed (hs_head latest)) (ch_operation_id new) of
               Some receipt \<Rightarrow>
                 if receipt_matches_head receipt new then Done (Inr latest) else Done (Inl Precondition)
             | None \<Rightarrow> Done (Inl Precondition))) K"
    by (rule good_load_present) (auto simp: receipted_def bt_has_iff split: option.splits)
  ultimately show ?thesis using assms by (auto simp: put_update_def put_ok_def snapshot_from_put_def)
qed

lemma good_update_inner:
  assumes e: "expected \<in> K"
    and c: "\<And>s. \<not> pres \<Longrightarrow> claim_step (hs_head expected) new s"
  shows "good x (ok_answer (receipted (ch_operation_id new))) (update_inner x expected new pres) K"
  unfolding update_inner_def
proof (rule good_load_present, rule good_try_pure)
  fix K' current new1
  assume K': "insert current K \<subseteq> K'" and ok: "head_ok x (hs_head current)"
    and n1: "(if pres then preserve_pending_handoffs x (hs_head current) new else Inr new) = Inr new1"
  have oid: "ch_operation_id new1 = ch_operation_id new"
    using n1 by (auto simp: preserve_pending_handoffs_def Let_def split: if_splits sum.splits)
  show "good x (ok_answer (receipted (ch_operation_id new)))
      (case bt_get (ch_completed (hs_head current)) (ch_operation_id new1) of
         Some receipt \<Rightarrow>
           if receipt_matches_head receipt new1 then Done (Inr current)
           else Done (Inl (OperationConflict (ch_operation_id new1)))
       | None \<Rightarrow>
           try_pure (validate_expected expected current) (\<lambda>_.
           try_pure (validate_transition (hs_head current) new1) (\<lambda>_.
           try_pure (merge_completed_operations x new1 (hs_head current)) (\<lambda>new.
           try_pure (validate_size_and_head x new) (\<lambda>_. put_update x expected new))))) K'"
  proof (cases "bt_get (ch_completed (hs_head current)) (ch_operation_id new1)")
    case (Some r)
    then show ?thesis using K' oid by (auto simp: receipted_def bt_has_iff)
  next
    case None
    have "good x (ok_answer (receipted (ch_operation_id new))) (put_update x expected new2) K'"
      if v: "validate_expected expected current = Inr ()" "validate_transition (hs_head current) new1 = Inr ()"
        "merge_completed_operations x new1 (hs_head current) = Inr new2" "validate_size_and_head x new2 = Inr ()" for new2
    proof -
      have h: "hs_head expected = hs_head current" using v(1) by (auto simp: validate_expected_def split: if_splits)
      have "claim_step (hs_head current) new1 s" for s
      proof (cases pres)
        case True
        then show ?thesis using preserve_pending_keeps n1 by (auto simp: claim_step_def same_claim_def split: option.splits)
      next
        case False
        then show ?thesis using c h n1 by simp
      qed
      note st = merge_completed_step [OF v(3,2) None this]
      show ?thesis using good_put_update [of expected K' new2 x] st v(4) h e K' oid by (auto simp: head_ok_def)
    qed
    then show ?thesis using None by (auto intro!: good_try_pure)
  qed
qed

section \<open>Handoff operations\<close>

lemma good_weaken: "good x R p K \<Longrightarrow> (\<And>K r. R K r \<Longrightarrow> R' K r) \<Longrightarrow> good x R' p K"
  by (induction p arbitrary: K) auto

lemma receipted_seen: "ok_answer (receipted oid) K r \<Longrightarrow> ok_answer seen_head K r"
  by (cases r) (simp_all add: receipted_def seen_head_def)

lemma head_with_metadata_new:
  assumes "head_with_metadata x h m oid = Inr new"
  shows "ch_metadata new = m" "metadata_validate x m = Inr ()" "ch_operation_id new = oid"
proof -
  have "ch_metadata new = m \<and> ch_operation_id new = oid \<and> head_validate x new = Inr ()"
    using assms by (auto simp: head_with_metadata_def head_new_def Let_def split: option.splits sum.splits)
  then show "ch_metadata new = m" "metadata_validate x m = Inr ()" "ch_operation_id new = oid"
    using head_validateD(2) [of x new] by auto
qed

lemma good_exact:
  assumes "current \<in> K" "\<And>s. claim_step (hs_head current) new s"
  shows "good x (ok_answer seen_head) (update_exact x current new) K"
  unfolding update_exact_def by (rule good_weaken [OF good_update_inner receipted_seen]) (use assms in auto)

lemma good_write_claims:
  assumes "current \<in> K"
    and "\<And>new s. ch_metadata new = m \<Longrightarrow> metadata_validate x m = Inr () \<Longrightarrow> claim_step (hs_head current) new s"
  shows "good x (ok_answer seen_head) (write_claims x current m oid) K"
  unfolding write_claims_def
  by (rule good_try_pure, rule good_exact [OF assms(1)]) (use assms(2) head_with_metadata_new in auto)

lemma claim_step_insert:
  assumes "ch_metadata new = with_claim h d" and "\<And>e. claim_of h (ph_stream d) = Some e \<Longrightarrow> same_claim e d"
  shows "claim_step h new s"
  using assms by (auto simp: claim_step_def claim_of_def with_claim_def map_of_bt_insert same_claim_def split: option.splits)

lemma good_claim:
  assumes "expected \<in> K"
  shows "good x (ok_answer seen_head) (claim_pending_handoff x expected d) K"
proof -
  have "good x (ok_answer seen_head) (write_claims x current (with_claim (hs_head current) d) oid) K'"
    if "insert current K \<subseteq> K'" "bt_get (cm_pending (ch_metadata (hs_head current))) (ph_stream d) = None" for current K' oid
    by (rule good_write_claims, use that in simp)
      (rule claim_step_insert, use that in \<open>auto simp: claim_of_def\<close>)
  then show ?thesis unfolding claim_pending_handoff_def
    by (auto intro!: good_try_pure good_load_present simp: seen_head_def split: option.splits)
qed

lemma good_rebase:
  assumes "immutable_eq existing d" "rank (ph_stage existing) < rank (ph_stage d)"
  shows "good x (ok_answer seen_head) (rebase_pending_handoff_advance x d oid existing) K"
proof -
  have "good x (ok_answer seen_head) (write_claims x current (with_claim (hs_head current) d) oid) K'"
    if "insert current K \<subseteq> K'" "bt_get (cm_pending (ch_metadata (hs_head current))) (ph_stream d) = Some existing" for current K'
    by (rule good_write_claims, use that in simp)
      (rule claim_step_insert, use that assms in \<open>auto simp: claim_of_def same_claim_def\<close>)
  then show ?thesis unfolding rebase_pending_handoff_advance_def
    by (auto intro!: good_try_pure good_load_present simp: seen_head_def split: option.splits)
qed

lemma good_advance:
  assumes "expected \<in> K"
  shows "good x (ok_answer seen_head) (advance_pending_handoff x expected d) K"
proof -
  have rb: "good x (ok_answer seen_head) (rebase_pending_handoff_advance x d oid existing) K'"
    if "immutable_eq existing d" "\<not> rank (ph_stage d) \<le> rank (ph_stage existing)" for oid existing K'
    by (rule good_rebase) (use that in auto)
  have up: "good x (ok_answer seen_head) (bind_io (update_exact x current new) (\<lambda>r.
              case r of
                Inr snapshot \<Rightarrow> Done (Inr snapshot)
              | Inl e \<Rightarrow>
                  if e = Precondition then rebase_pending_handoff_advance x d oid existing
                  else Done (Inl e))) K'"
    if "insert current K \<subseteq> K'" "bt_get (cm_pending (ch_metadata (hs_head current))) (ph_stream d) = Some existing"
      "immutable_eq existing d" "\<not> rank (ph_stage d) \<le> rank (ph_stage existing)"
      "head_with_metadata x (hs_head current) (with_claim (hs_head current) d) oid = Inr new" for current K' oid existing new
  proof (rule good_bind [OF good_exact])
    show "current \<in> K'" using that by simp
    show "claim_step (hs_head current) new s" for s
      by (rule claim_step_insert [OF head_with_metadata_new(1) [OF that(5)]])
        (use that in \<open>auto simp: claim_of_def same_claim_def\<close>)
  qed (use rb that in \<open>auto split: sum.splits\<close>)
  show ?thesis unfolding advance_pending_handoff_def
  proof (intro good_try_pure, simp, intro impI good_load_present good_try_pure)
    fix K' current oid
    assume K': "insert current K \<subseteq> K'"
    show "good x (ok_answer seen_head)
      (case bt_get (cm_pending (ch_metadata (hs_head current))) (ph_stream d) of
             None \<Rightarrow>
               if bt_has (ch_completed (hs_head current)) oid then Done (Inr current) else Done (Inl Precondition)
           | Some existing \<Rightarrow>
               if ph_operation_id existing \<noteq> ph_operation_id d
               then Done (Inl (PendingHandoffConflict (ph_stream d) (ph_operation_id existing)))
               else if \<not> immutable_eq existing d then Done (Inl (OperationConflict (ph_operation_id d)))
               else if rank (ph_stage d) \<le> rank (ph_stage existing) then replay_advance x current existing d oid
               else
                 (case validate_expected expected current of
                    Inl e \<Rightarrow>
                      if e = Precondition then rebase_pending_handoff_advance x d oid existing else Done (Inl e)
                  | Inr _ \<Rightarrow>
                      try_pure (validate_handoff_against_metadata x (ch_metadata (hs_head current)) d True) (\<lambda>_.
                      try_pure (head_with_metadata x (hs_head current) (with_claim (hs_head current) d) oid) (\<lambda>new.
                        bind_io (update_exact x current new) (\<lambda>r.
                          case r of
                            Inr snapshot \<Rightarrow> Done (Inr snapshot)
                          | Inl e \<Rightarrow>
                              if e = Precondition then rebase_pending_handoff_advance x d oid existing
                              else Done (Inl e)))))) K'"
      using K' rb up [OF K'] by (auto simp: replay_advance_def Let_def seen_head_def intro!: good_try_pure split: option.splits sum.splits)
  qed
qed

lemma validate_published:
  assumes "validate_handoff_against_metadata x m d True = Inr ()" "ph_stage d = RoutePublished"
  shows "\<exists>ranges. bt_get (rm_segments (cm_manifest m)) (ph_stream d) = Some ranges \<and> published_ok d ranges"
  using assms by (auto simp: validate_handoff_against_metadata_def Let_def split: option.splits if_splits)

lemma good_publish:
  assumes e: "expected \<in> K" and m: "cm_pending metadata = bt_insert s0 d (cm_pending (ch_metadata (hs_head expected)))"
  shows "good x (ok_answer seen_head) (publish_pending_handoff x expected metadata d) K"
proof -
  have "good x (ok_answer seen_head) (write_claims x current metadata oid) K'"
    if c: "insert current K \<subseteq> K'" "bt_get (cm_pending (ch_metadata (hs_head current))) (ph_stream d) = Some existing"
      "immutable_eq existing d" "\<not> rank (ph_stage d) \<le> rank (ph_stage existing)" "validate_expected expected current = Inr ()"
    for current K' oid existing
  proof (rule good_write_claims)
    show "current \<in> K'" using c(1) by simp
    fix new :: control_head and s assume n: "ch_metadata new = metadata" "metadata_validate x metadata = Inr ()"
    have h: "hs_head expected = hs_head current" using c(5) by (auto simp: validate_expected_def split: if_splits)
    have s0: "ph_stream d = s0" by (rule metadata_claims [OF n(2)]) (simp add: m map_of_bt_insert)
    show "claim_step (hs_head current) new s"
    proof (cases "s = s0")
      case True
      then show ?thesis using c n(1) s0 by (auto simp: claim_step_def claim_of_def m map_of_bt_insert same_claim_def)
    next
      case False
      then show ?thesis using n(1) h by (auto simp: claim_step_def claim_of_def m map_of_bt_insert same_claim_def split: option.splits)
    qed
  qed
  then show ?thesis unfolding publish_pending_handoff_def
    by (auto intro!: good_try_pure good_load_present simp: seen_head_def split: option.splits)
qed

lemma good_complete:
  assumes "expected \<in> K"
  shows "good x (ok_answer seen_head) (complete_pending_handoff x expected s oid) K"
proof -
  have "good x (ok_answer seen_head) (write_claims x current
      ((ch_metadata (hs_head current))\<lparr>cm_pending := bt_remove s (cm_pending (ch_metadata (hs_head current)))\<rparr>) oid') K'"
    if c: "insert current K \<subseteq> K'" "head_ok x (hs_head current)" "bt_get (cm_pending (ch_metadata (hs_head current))) s = Some existing"
      "ph_stage existing = RoutePublished" "validate_handoff_against_metadata x (ch_metadata (hs_head current)) existing True = Inr ()"
    for current K' oid' existing
  proof (rule good_write_claims)
    show "current \<in> K'" using c(1) by simp
    fix new :: control_head and s' assume n: "ch_metadata new = (ch_metadata (hs_head current))\<lparr>cm_pending := bt_remove s (cm_pending (ch_metadata (hs_head current)))\<rparr>"
    have "ph_stream existing = s" by (rule claim_valid(2) [OF c(2)]) (simp add: claim_of_def c(3))
    then have "\<exists>ranges. ranges_of (hs_head current) s = Some ranges \<and> published_ok existing ranges"
      using validate_published [OF c(5,4)] by (simp add: ranges_of_def)
    then show "claim_step (hs_head current) new s'"
      using c(3,4) n by (auto simp: claim_step_def claim_of_def map_of_bt_remove same_claim_def split: option.splits)
  qed
  then show ?thesis unfolding complete_pending_handoff_def
    by (auto intro!: good_try_pure good_load_present simp: seen_head_def split: option.splits)
qed

lemma good_create: "good x (ok_answer (receipted (ch_operation_id h))) (create x h) K"
proof -
  have "good x (ok_answer (receipted (ch_operation_id h)))
      (Put PutCreate h (\<lambda>a.
         case a of
           PutDone tag \<Rightarrow> Done (snapshot_from_put h tag)
         | PutExists \<Rightarrow>
             load_present x (\<lambda>current.
               case bt_get (ch_completed (hs_head current)) (ch_operation_id h) of
                 Some receipt \<Rightarrow>
                   if receipt_matches_head receipt h then Done (Inr current)
                   else Done (Inl (OperationConflict (ch_operation_id h)))
               | None \<Rightarrow> Done (Inl AlreadyExists))
         | _ \<Rightarrow> Done (Inl ObjectStore))) K"
    if v: "validate_size_and_head x h = Inr ()"
  proof -
    have ok: "head_ok x h" using v by (simp add: head_ok_def)
    then have "bt_has (ch_completed h) (ch_operation_id h)" using head_validateD(1) [OF head_okD(1)] by (simp add: bt_has_iff)
    then show ?thesis using ok
      by (auto simp: put_ok_def snapshot_from_put_def receipted_def bt_has_iff intro!: good_load_present split: option.splits)
  qed
  then show ?thesis unfolding create_def by (auto intro: good_try_pure)
qed

section \<open>Gateway operations\<close>

lemma good_store_io: "good x (ok_answer P) p K \<Longrightarrow> good x (ok_answer P) (store_io p) K"
  unfolding store_io_def by (rule good_bind, assumption) (auto split: sum.splits)

lemmas good_gateway = good_try_io [OF good_store_io]

lemma good_gateway_claim: "good x (ok_answer (\<lambda>K r. True)) (gateway_claim x d) K"
  unfolding gateway_claim_def
  by (rule good_gateway [OF good_load])
    (auto simp: loaded_ok_def intro!: good_gateway [OF good_claim] split: option.splits)

lemma good_gateway_advance: "good x (ok_answer (\<lambda>K r. True)) (gateway_advance x d) K"
  unfolding gateway_advance_def
  by (rule good_gateway [OF good_load])
    (auto simp: loaded_ok_def intro!: good_gateway [OF good_advance] split: option.splits)

lemma good_publish_route:
  assumes "expected \<in> K"
  shows "good x (ok_answer (\<lambda>K r. True)) (publish_route x cutover base expected) K"
  unfolding publish_route_def Let_def using assms
  by (auto simp: seen_head_def intro!: good_gateway [OF good_publish] good_gateway [OF good_complete] split: option.splits)

lemma good_publish_one: "good x (ok_answer (\<lambda>K r. True)) (publish_one_pending_handoff x cutover) K"
proof (cases "sc_pending_handoff cutover")
  case (Some base)
  then show ?thesis unfolding publish_one_pending_handoff_def
    by (simp only: option.case, intro good_gateway [OF good_load])
      (auto simp: loaded_ok_def Let_def intro!: good_publish_route good_gateway [OF good_complete] split: option.splits)
qed (simp add: publish_one_pending_handoff_def)

lemma growing_answer [simp]: "growing (answer_ok c)"
  by (auto simp: growing_def answer_ok_def receipted_def split: call.splits)

lemma good_head_update: "expected \<in> K \<Longrightarrow> good x (ok_answer (receipted (ch_operation_id h))) (head_update x expected h) K"
  unfolding head_update_def by (rule good_update_inner) auto

lemma good_program: "set (expects c) \<subseteq> K \<Longrightarrow> good x (answer_ok c) (program x c) K"
proof (cases c)
  case (CreateHead h)
  then show ?thesis by (simp, intro good_bind [OF good_create]) (auto simp: answer_ok_def)
next
  case (UpdateHead expected h)
  assume "set (expects c) \<subseteq> K"
  with UpdateHead show ?thesis by (simp, intro good_bind [OF good_head_update]) (auto simp: answer_ok_def)
next
  case (GatewayPublish cutover)
  then show ?thesis by (simp, intro good_bind [OF good_publish_one]) (auto simp: answer_ok_def)
qed (auto simp: answer_ok_def intro!: good_bind [OF good_claim] good_bind [OF good_advance] good_bind [OF good_complete]
    good_bind [OF good_gateway_claim] good_bind [OF good_gateway_advance])

end
