(* ===== verification/Control_Safety.thy ===== *)
theory Control_Safety
  imports Control_Logic "HOL-Library.Code_Target_Numeral"
begin

text \<open>
  Runs of concurrent operations on the control head. \<open>cell_inv\<close> says that the stored head is
  the newest version, that each version is a \<open>head_step\<close> of the one before and valid, and that every
  operation in progress and every write that may still land is \<open>good\<close> for the history so far. Every
  event keeps it. From it come the history of a claim (\<open>claim_history\<close>) and of the receipts
  (\<open>receipts_kept\<close>), and the properties of the head.
\<close>

section \<open>Specification\<close>

definition cell_inv :: "head_external \<Rightarrow> cell \<Rightarrow> bool" where
  "cell_inv x w \<longleftrightarrow>
     c_object w = (case c_log w of [] \<Rightarrow> None | s # _ \<Rightarrow> Some (hs_head s, hs_version s)) \<and>
     (\<forall>s \<in> set (c_log w). hs_version s < c_tags w \<and> head_ok x (hs_head s)) \<and> distinct (map hs_version (c_log w)) \<and>
     successively (\<lambda>new old. head_step (hs_head old) (hs_head new)) (c_log w) \<and>
     (\<forall>(c, p) \<in> set (c_calls w). good x (answer_ok c) p (set (c_log w))) \<and>
     (\<forall>(m, h) \<in> set (c_late w). put_ok x (set (c_log w)) m h)"

text \<open>The ranges of a stream after its handoff: the source is sealed at the archive watermark and the successor
  starts right after it, or the successor takes the place of a source that never held a record.\<close>

definition handed_over :: "pending_handoff \<Rightarrow> stream_segment list \<Rightarrow> bool" where
  "handed_over f ranges \<longleftrightarrow> (\<exists>successor archived.
     ph_successor f = Some successor \<and> ph_archived_lsn f = Some archived \<and>
     (if start_lsn (ph_source f) \<le> archived
      then \<exists>n. Suc n < length ranges \<and> sealed_source f (ranges ! n) \<and> ranges ! Suc n = successor \<and>
             (archived < u64_max \<longrightarrow> start_lsn successor = archived + 1)
      else successor \<in> set ranges \<and> start_lsn successor = start_lsn (ph_source f)))"

definition demo_external :: head_external where
  "demo_external = \<lparr>x_sha256 = (\<lambda>bs. [last bs]), x_json_segments = (\<lambda>segs. [word_of_nat (length segs)]),
     x_json_metadata = (\<lambda>m. [word_of_nat (length (cm_pending m))]), x_head_bytes = (\<lambda>h. 0)\<rparr>"

definition demo_member :: "string \<Rightarrow> nat \<Rightarrow> durable_member" where
  "demo_member i c = \<lparr>dm_id = i, dm_url = i, dm_status = MActive, dm_cohort_id = c, dm_name = [], dm_machine_id = [],
     dm_volume_id = [], dm_ordinal = 0, dm_tier = [], dm_max_append_bytes = 0\<rparr>"

definition demo_cohort :: "nat \<Rightarrow> string list \<Rightarrow> durable_cohort" where
  "demo_cohort c ms = \<lparr>dc_id = c, dc_members = ms, dc_status = CActive, dc_tier = [], dc_max_append_bytes = 0\<rparr>"

definition demo_source :: stream_segment where
  "demo_source = \<lparr>start_lsn = 1, end_lsn = None, cohort_id = 1, member_ids = [''a'', ''b'', ''c''], member_hash = ''00'',
     seg_writer_epoch = 0, manifest_revision = 1, seg_placement_epoch = 1, operation_id = ''o'', seg_tier = [], max_append_bytes = 0\<rparr>"

definition demo_successor :: stream_segment where
  "demo_successor = demo_source\<lparr>start_lsn := 6, cohort_id := 2, member_ids := [''d'', ''e'', ''f''], manifest_revision := 2,
     seg_placement_epoch := 3\<rparr>"

definition demo_metadata :: control_metadata where
  "demo_metadata = \<lparr>cm_membership_epoch = 1,
     cm_members = map (\<lambda>i. (i, demo_member i 1)) [''a'', ''b'', ''c''] @ map (\<lambda>i. (i, demo_member i 2)) [''d'', ''e'', ''f''],
     cm_cohorts = [(1, demo_cohort 1 [''a'', ''b'', ''c'']), (2, demo_cohort 2 [''d'', ''e'', ''f''])],
     cm_manifest = \<lparr>rm_version = 1, rm_revision = 1, rm_digest = ''01'', rm_writer_epoch = 0, rm_cohort_id = 1,
       rm_member_set_hash = ''00'', rm_write_cohort_id = 0, rm_segments = [(''t'', [demo_source])], rm_operation_id = ''o'',
       rm_tier = [], rm_max_append_bytes = 0\<rparr>,
     cm_pending = []\<rparr>"

definition demo_head :: "nat \<Rightarrow> string \<Rightarrow> control_head" where
  "demo_head revision oid = \<lparr>ch_version = 1, ch_authority_epoch = 1, ch_revision = revision, ch_operation_id = oid,
     ch_completed = [(oid, \<lparr>or_authority_epoch = 1, or_revision = revision, or_metadata_digest = ''00''\<rparr>)],
     ch_source_marker = \<lparr>sm_authority = ''q'', sm_authority_epoch = 1, sm_revision = 1, sm_digest = ''s''\<rparr>,
     ch_metadata_digest = ''00'', ch_metadata = demo_metadata\<rparr>"

definition demo_claim :: pending_handoff where
  "demo_claim = \<lparr>ph_operation_id = ''h'', ph_stream = ''t'', ph_source = demo_source, ph_target_cohort_id = 2,
     ph_target_members = map (\<lambda>i. demo_member i 2) [''d'', ''e'', ''f''], ph_target_member_hash = ''00'', ph_target_tier = [],
     ph_target_max_append_bytes = 0, ph_target_writer_epoch = 0,
     ph_transition_placement = \<lparr>epoch = 2, route_digest = ''p''\<rparr>, ph_successor_placement_epoch = 3,
     ph_successor_placement = None, ph_stage = Prepared, ph_archived_lsn = None, ph_successor = None\<rparr>"

definition demo_verified :: pending_handoff where
  "demo_verified = demo_claim\<lparr>ph_stage := ArchiveVerified, ph_archived_lsn := Some 5, ph_successor := Some demo_successor,
     ph_successor_placement := Some \<lparr>epoch = 3, route_digest = ''r''\<rparr>\<rparr>"

definition demo_cutover :: stream_cutover where
  "demo_cutover = \<lparr>sc_stream = ''t'', sc_source = demo_source, sc_successor = demo_successor, sc_archived_lsn = 5,
     sc_pending_handoff = Some demo_verified\<rparr>"

definition demo_first :: head_snapshot where
  "demo_first = \<lparr>hs_head = demo_head 1 ''create'', hs_version = 0\<rparr>"

text \<open>The head is created and updated.\<close>

definition demo_start :: "head_event list" where
  "demo_start = [Begin (CreateHead (demo_head 1 ''create'')), Step 0 Works,
     Begin (UpdateHead demo_first (demo_head 2 ''x'')), Step 1 Works, Step 1 Works]"

text \<open>A stream is claimed.\<close>

definition demo_claimed :: "head_event list" where
  "demo_claimed = demo_start @ [Begin (GatewayClaim demo_claim), Step 2 Works, Step 2 Works, Step 2 Works, Step 2 Works]"

text \<open>The update is tried again.\<close>

definition demo_retry :: "head_event list" where
  "demo_retry = demo_claimed @ [Begin (UpdateHead demo_first (demo_head 2 ''x'')), Step 3 Works]"

text \<open>The archive is verified, and the route is published and completed.\<close>

definition demo_handoff :: "head_event list" where
  "demo_handoff = demo_claimed @ [Begin (GatewayAdvance demo_verified), Step 3 Works, Step 3 Works, Step 3 Works, Step 3 Works,
     Begin (GatewayPublish demo_cutover)] @ replicate 7 (Step 4 Works)"

definition answer_at :: "nat \<Rightarrow> cell \<Rightarrow> answer option" where
  "answer_at i w = (if i < length (c_calls w) then (case snd (c_calls w ! i) of Done a \<Rightarrow> Some a | _ \<Rightarrow> None) else None)"

section \<open>Runs\<close>

lemma cell_invD:
  assumes "cell_inv x w"
  shows "c_object w = (case c_log w of [] \<Rightarrow> None | s # _ \<Rightarrow> Some (hs_head s, hs_version s))"
    "\<And>s. s \<in> set (c_log w) \<Longrightarrow> hs_version s < c_tags w" "\<And>s. s \<in> set (c_log w) \<Longrightarrow> head_ok x (hs_head s)"
    "distinct (map hs_version (c_log w))" "successively (\<lambda>new old. head_step (hs_head old) (hs_head new)) (c_log w)"
    "\<And>c p. (c, p) \<in> set (c_calls w) \<Longrightarrow> good x (answer_ok c) p (set (c_log w))"
    "\<And>m h. (m, h) \<in> set (c_late w) \<Longrightarrow> put_ok x (set (c_log w)) m h"
  using assms by (auto simp: cell_inv_def)

lemma empty_cell_inv: "cell_inv x empty_cell"
  by (simp add: cell_inv_def empty_cell_def)

lemma admitted_step:
  assumes inv: "cell_inv x w" and put: "put_ok x (set (c_log w)) m h" and a: "put_admitted m w"
  shows "successively (\<lambda>new old. head_step (hs_head old) (hs_head new)) (\<lparr>hs_head = h, hs_version = c_tags w\<rparr> # c_log w)"
proof (cases "c_log w")
  case (Cons s log)
  then have obj: "c_object w = Some (hs_head s, hs_version s)" using cell_invD(1) [OF inv] by simp
  then obtain s' where s': "s' \<in> set (c_log w)" "hs_version s' = hs_version s" "head_step (hs_head s') h"
    using put a by (auto simp: put_ok_def put_admitted_def split: put_mode.splits)
  have "s' = s" using cell_invD(4) [OF inv] s'(1,2) Cons by (auto simp: image_iff)
  then show ?thesis using cell_invD(5) [OF inv] s'(3) Cons by simp
qed simp

lemma write_object_inv:
  assumes inv: "cell_inv x w" and put: "put_ok x (set (c_log w)) m h" and a: "put_admitted m w"
  shows "cell_inv x (write_object h w)"
proof -
  have "c_tags w \<notin> set (map hs_version (c_log w))" using cell_invD(2) [OF inv] by (fastforce simp: image_iff)
  moreover have "good x (answer_ok c) p (insert s (set (c_log w)))" if "(c, p) \<in> set (c_calls w)" for c p s
    by (rule good_mono [OF cell_invD(6) [OF inv that]]) auto
  moreover have "put_ok x (insert s (set (c_log w))) m h" if "(m, h) \<in> set (c_late w)" for m h s
    by (rule put_ok_mono [OF cell_invD(7) [OF inv that]]) auto
  moreover have "head_ok x h" using put by (simp add: put_ok_def)
  ultimately show ?thesis using admitted_step [OF inv put a] cell_invD(2,3,4) [OF inv]
    unfolding cell_inv_def write_object_def by (auto simp: less_Suc_eq)
qed

lemma call_inv:
  assumes "cell_inv x w" "good x (answer_ok c) p (set (c_log w))"
  shows "cell_inv x (w\<lparr>c_calls := (c_calls w)[i := (c, p)]\<rparr>)" "cell_inv x (w\<lparr>c_calls := c_calls w @ [(c, p)]\<rparr>)"
proof -
  have "(c', p') = (c, p) \<or> (c', p') \<in> set (c_calls w)" if "(c', p') \<in> set ((c_calls w)[i := (c, p)])" for c' p'
    using that set_update_subset_insert [of "c_calls w" i "(c, p)"] by auto
  then show "cell_inv x (w\<lparr>c_calls := (c_calls w)[i := (c, p)]\<rparr>)" using assms by (fastforce simp: cell_inv_def)
  show "cell_inv x (w\<lparr>c_calls := c_calls w @ [(c, p)]\<rparr>)" using assms by (auto simp: cell_inv_def)
qed

lemma get_good:
  assumes inv: "cell_inv x w" and g: "good x R (Get f) (set (c_log w))"
  shows "good x R (f (get_object ch w)) (set (c_log w))"
proof (cases "c_log w")
  case Nil
  then show ?thesis using cell_invD(1) [OF inv] g by (auto simp: get_object_def split: choice.splits)
next
  case (Cons s log)
  have "good x R (f (Got (hs_head s) (Some (hs_version s)))) (insert \<lparr>hs_head = hs_head s, hs_version = hs_version s\<rparr> (set (c_log w)))"
    using g unfolding good.simps by blast
  then have "good x R (f (Got (hs_head s) (Some (hs_version s)))) (insert s (set (c_log w)))" by (cases s) simp
  moreover have "insert s (set (c_log w)) = set (c_log w)" using Cons by auto
  ultimately show ?thesis using cell_invD(1) [OF inv] g Cons by (auto simp: get_object_def split: choice.splits)
qed

lemma put_good:
  assumes inv: "cell_inv x w" and g: "good x R (Put m h f) (set (c_log w))" and grow: "growing R"
    and p: "put_object ch m h w = (w', a)"
  shows "cell_inv x w' \<and> good x R (f a) (set (c_log w')) \<and> c_calls w' = c_calls w"
proof -
  have put: "put_ok x (set (c_log w)) m h" using g by simp
  consider "ch = Fails" | "ch \<noteq> Fails" "put_admitted m w" | "ch \<noteq> Fails" "\<not> put_admitted m w" by blast
  then show ?thesis
  proof cases
    case 1
    then have w': "w' = w\<lparr>c_late := c_late w @ [(m, h)]\<rparr>" "a = PutFailed" using p by (auto simp: put_object_def)
    then show ?thesis using inv g put by (auto simp: cell_inv_def)
  next
    case 2
    then have w': "w' = write_object h w" "a = PutDone (if ch = Works then Some (c_tags w) else None)" using p by (auto simp: put_object_def)
    have "good x R (f (PutDone None)) (set (c_log w'))"
      by (rule good_mono [OF _ _ grow, where K = "set (c_log w)"]) (use g in \<open>auto simp: w' write_object_def\<close>)
    then show ?thesis using write_object_inv [OF inv put 2(2)] g by (auto simp: w' write_object_def)
  next
    case 3
    then show ?thesis using p inv g by (auto simp: put_object_def split: put_mode.splits)
  qed
qed

lemma land_inv:
  assumes inv: "cell_inv x w" and j: "j < length (c_late w)" "c_late w ! j = (m, h)"
  shows "cell_inv x (let w' = w\<lparr>c_late := take j (c_late w) @ drop (Suc j) (c_late w)\<rparr> in if put_admitted m w then write_object h w' else w')"
proof -
  let ?w = "w\<lparr>c_late := take j (c_late w) @ drop (Suc j) (c_late w)\<rparr>"
  have "cell_inv x ?w" using inv by (auto simp: cell_inv_def dest: in_set_takeD in_set_dropD)
  moreover have "put_ok x (set (c_log ?w)) m h" using cell_invD(7) [OF inv, of m h] j nth_mem by fastforce
  moreover have "put_admitted m ?w = put_admitted m w" by (cases m) (simp_all add: put_admitted_def)
  ultimately show ?thesis using write_object_inv [of x ?w m h] by (simp add: Let_def)
qed

lemma head_event_inv:
  assumes inv: "cell_inv x w" and ev: "head_event x ev w = Some w'"
  shows "cell_inv x w'"
proof (cases ev)
  case (Begin c)
  then show ?thesis using ev call_inv(2) [OF inv good_program [of c "set (c_log w)" x]] by (auto simp: head_event_def split: if_splits)
next
  case (Step i ch)
  obtain c p where cp: "i < length (c_calls w)" "c_calls w ! i = (c, p)" using ev Step by (cases "c_calls w ! i") (auto simp: head_event_def split: if_splits)
  then have g: "good x (answer_ok c) p (set (c_log w))" using cell_invD(6) [OF inv, of c p] nth_mem by fastforce
  show ?thesis
  proof (cases p)
    case (Get f)
    then show ?thesis using call_inv(1) [OF inv get_good [OF inv g [unfolded Get]]] ev Step cp by (auto simp: head_event_def)
  next
    case (Put m h f)
    obtain w1 a where w1: "put_object ch m h w = (w1, a)" by fastforce
    note pg = put_good [OF inv g [unfolded Put] growing_answer w1]
    then show ?thesis using call_inv(1) [of x w1 c "f a" i] ev Step cp w1 Put by (auto simp: head_event_def)
  qed (use ev Step cp in \<open>simp add: head_event_def\<close>)
next
  case (Land j)
  then show ?thesis using ev land_inv [OF inv, of j] by (cases "c_late w ! j") (auto simp: head_event_def Let_def split: if_splits)
qed

lemma head_run_inv: "head_run x evs w = Some w' \<Longrightarrow> cell_inv x w \<Longrightarrow> cell_inv x w'"
  by (induction evs arbitrary: w) (auto split: option.splits intro: head_event_inv)

lemma head_run_ok: "head_run x evs empty_cell = Some w \<Longrightarrow> cell_inv x w"
  by (rule head_run_inv [OF _ empty_cell_inv])

lemma position_Some: "position P xs = Some n \<Longrightarrow> n < length xs \<and> P (xs ! n)"
  by (induction xs arbitrary: n) (auto split: if_splits)

lemma published_handed_over:
  assumes v: "handoff_validate (Some s) f = Inr ()" and st: "ph_stage f = RoutePublished" and p: "published_ok f ranges"
  shows "handed_over f ranges"
proof -
  obtain successor archived placement where f: "ph_successor f = Some successor" "ph_archived_lsn f = Some archived"
      "successor_matches f successor archived placement"
    using v st by (auto simp: handoff_validate_def split: if_splits sum.splits option.splits)
  obtain n where n: "n < length ranges" "ranges ! n = successor"
    "if start_lsn (ph_source f) \<le> archived then \<exists>m. position (sealed_source f) ranges = Some m \<and> m + 1 = n
     else start_lsn successor = start_lsn (ph_source f)"
    using p f(1,2) by (auto simp: published_ok_def dest!: position_Some split: option.splits if_splits)
  have "start_lsn (ph_source f) \<le> archived \<Longrightarrow> archived < u64_max \<Longrightarrow> start_lsn successor = archived + 1"
    using f(3) by (auto simp: successor_matches_def saturating_add_u64_def u64_max_def)
  then show ?thesis using f(1,2) n position_Some [of "sealed_source f" ranges]
    by (auto simp: handed_over_def split: if_splits)
qed

lemma immutable_eq_trans:
  assumes "immutable_eq e f" "immutable_eq f d" "length (ph_target_members e) = length (ph_target_members f)"
    "length (ph_target_members f) = length (ph_target_members d)"
  shows "immutable_eq e d"
proof -
  let ?P = "list_all2 same_member_incarnation"
  have "?P (ph_target_members e) (ph_target_members f)" "?P (ph_target_members f) (ph_target_members d)"
    using assms by (auto simp: immutable_eq_def list_all2_iff list_all_iff)
  then have "?P (ph_target_members e) (ph_target_members d)"
    by (rule list_all2_trans [rotated 1]) (simp add: same_member_incarnation_def)
  then show ?thesis using assms(1,2) by (auto simp: immutable_eq_def list_all2_iff list_all_iff)
qed

lemma valid_members: "handoff_validate k d = Inr () \<Longrightarrow> length (ph_target_members d) = REPLICATION_FACTOR"
  by (auto simp: handoff_validate_def split: if_splits)

lemma same_claim_trans:
  assumes "same_claim e f" "same_claim f d" "handoff_validate k e = Inr ()" "handoff_validate k f = Inr ()" "handoff_validate k d = Inr ()"
  shows "same_claim e d"
  using assms immutable_eq_trans [of e f d] by (auto simp: same_claim_def dest!: valid_members)

lemma heads_step:
  assumes "cell_inv x w"
  shows "Suc i < length (heads w) \<Longrightarrow> head_step (heads w ! i) (heads w ! Suc i)"
    "i < length (heads w) \<Longrightarrow> head_ok x (heads w ! i)"
proof -
  have "successively head_step (heads w)" using cell_invD(5) [OF assms] by (simp add: heads_def successively_map successively_rev)
  then show "Suc i < length (heads w) \<Longrightarrow> head_step (heads w ! i) (heads w ! Suc i)" by (simp add: successively_conv_nth)
  show "i < length (heads w) \<Longrightarrow> head_ok x (heads w ! i)"
    using cell_invD(3) [OF assms] nth_mem [of i "heads w"] by (auto simp: heads_def)
qed

lemma receipts_kept:
  assumes inv: "cell_inv x w"
  shows "i \<le> j \<Longrightarrow> j < length (heads w) \<Longrightarrow> map_of (ch_completed (heads w ! i)) \<subseteq>\<^sub>m map_of (ch_completed (heads w ! j))"
proof (induction j rule: dec_induct)
  case (step j)
  then have "head_step (heads w ! j) (heads w ! Suc j)" by (intro heads_step(1) [OF inv]) simp
  then show ?case using step by (auto simp: head_step_def intro: map_le_trans)
qed simp

lemma claim_history:
  assumes inv: "cell_inv x w" and e: "claim_of (heads w ! i) s = Some e"
  shows "i \<le> j \<Longrightarrow> j < length (heads w) \<Longrightarrow> (\<exists>f. claim_of (heads w ! j) s = Some f \<and> same_claim e f) \<or>
    (\<exists>k f ranges. i \<le> k \<and> k < j \<and> claim_of (heads w ! k) s = Some f \<and> same_claim e f \<and> claim_of (heads w ! Suc k) s = None \<and>
       ranges_of (heads w ! Suc k) s = Some ranges \<and> handed_over f ranges)"
proof (induction j rule: dec_induct)
  case base
  then show ?case using e by (auto simp: same_claim_def)
next
  case (step j)
  have st: "head_step (heads w ! j) (heads w ! Suc j)" by (rule heads_step(1) [OF inv]) (use step in simp)
  note ok = heads_step(2) [OF inv]
  consider f where "claim_of (heads w ! j) s = Some f" "same_claim e f"
    | k f ranges where "i \<le> k" "k < j" "claim_of (heads w ! k) s = Some f" "same_claim e f" "claim_of (heads w ! Suc k) s = None"
       "ranges_of (heads w ! Suc k) s = Some ranges" "handed_over f ranges"
    using step by auto
  then show ?case
  proof cases
    case 1
    have cs: "claim_step (heads w ! j) (heads w ! Suc j) s" using st by (simp add: head_step_def)
    have v: "handoff_validate (Some s) f = Inr ()" "handoff_validate (Some s) e = Inr ()"
      using claim_valid(1) [OF ok 1(1)] claim_valid(1) [OF ok e] step.prems step.hyps by simp_all
    show ?thesis
    proof (cases "claim_of (heads w ! Suc j) s")
      case None
      then obtain ranges where "ph_stage f = RoutePublished" "ranges_of (heads w ! Suc j) s = Some ranges" "published_ok f ranges"
        using cs 1(1) by (auto simp: claim_step_def ranges_of_def)
      then show ?thesis using published_handed_over [OF v(1)] None 1 step(1) by blast
    next
      case (Some d)
      then have "same_claim f d" using cs 1(1) by (simp add: claim_step_def)
      moreover have "handoff_validate (Some s) d = Inr ()" using claim_valid(1) [OF ok Some] step by simp
      ultimately show ?thesis using same_claim_trans [OF 1(2) _ v(2,1)] Some by blast
    qed
  next
    case 2
    then show ?thesis using less_SucI by blast
  qed
qed

section \<open>Example\<close>

lemma demo_runs:
  "map_option (\<lambda>w. (map ch_operation_id (heads w), answer_at 1 w = None, c_object w = None)) (head_run demo_external demo_start empty_cell) =
     Some ([''create'', ''x''], False, False)"
  "map_option (\<lambda>w. (length (heads w), claim_of (heads w ! 2) ''t'', claim_of (heads w ! 5) ''t''))
     (head_run demo_external demo_handoff empty_cell) = Some (6, Some demo_claim, None)"
  by code_simp+

section \<open>Well-formed metadata\<close>

lemma metadata_members:
  assumes "metadata_validate x m = Inr ()" "bt_get (cm_members m) i = Some member"
  shows "dm_id member = i \<and> cohort_count (cm_cohorts m) i = 1"
proof -
  have "check_all (\<lambda>(i, member). if trim i = [] \<or> dm_id member \<noteq> i
      then Inl (Invalid ''control member map key does not match member identity'') else Inr ()) (cm_members m) = Inr ()"
    and c: "\<forall>e \<in> set (cm_members m). cohort_count (cm_cohorts m) (dm_id (snd e)) = 1"
    using assms(1) by (auto simp: metadata_validate_def split: if_splits sum.splits)
  then have "dm_id member = i" using map_of_SomeD [OF assms(2)] unfolding check_all_ok by (auto split: if_splits)
  then show ?thesis using c map_of_SomeD [OF assms(2)] by auto
qed

lemma metadata_ranges:
  assumes "metadata_validate x m = Inr ()" "bt_get (rm_segments (cm_manifest m)) s = Some ranges"
  shows "g \<in> set ranges \<Longrightarrow> \<exists>c. bt_get (cm_cohorts m) (cohort_id g) = Some c \<and> member_ids g = dc_members c"
    "Suc i < length ranges \<Longrightarrow> \<exists>e. end_lsn (ranges ! i) = Some e \<and> start_lsn (ranges ! Suc i) = e + 1"
proof -
  have mv: "manifest_validate x (cm_manifest m) = Inr ()"
    and sc: "check_all (segment_check m) (concat (map snd (rm_segments (cm_manifest m)))) = Inr ()"
    using assms(1) by (auto simp: metadata_validate_def split: if_splits sum.splits)
  note r = manifest_validate_ranges(1) [OF mv assms(2)]
  show "\<exists>c. bt_get (cm_cohorts m) (cohort_id g) = Some c \<and> member_ids g = dc_members c" if g: "g \<in> set ranges"
  proof -
    have "g \<in> set (concat (map snd (rm_segments (cm_manifest m))))" using map_of_SomeD [OF assms(2)] g by force
    then have "segment_check m g = Inr ()" using sc unfolding check_all_ok by blast
    moreover have "member_ids g \<noteq> []" using validate_ranges_member [OF r g] by (auto simp: REPLICATION_FACTOR_def)
    ultimately show ?thesis by (auto simp: segment_check_def split: option.splits if_splits)
  qed
  show "\<exists>e. end_lsn (ranges ! i) = Some e \<and> start_lsn (ranges ! Suc i) = e + 1" if "Suc i < length ranges"
    using validate_ranges_adjacent [OF r that] by blast
qed

section \<open>Properties\<close>

text \<open>C1: Handoffs of a stream exclude each other. In every run of any number of concurrent operations on the
  control head, with calls that fail, answers that are lost and writes that land late, a claim of a
  stream that is in the head stays there, owned by the same operation with the same source, target and
  placements and only moving forward through its stages, until the operation completes it. It is only removed from
  a head whose manifest has the source range sealed at the verified archive watermark and the successor
  range right after it: a stream cannot be claimed by two operations, and no log sequence number is left
  without a route or given two by a handoff.\<close>

theorem handoff_claims_exclusive:
  assumes "head_run x evs empty_cell = Some w" "i \<le> j" "j < length (heads w)" "claim_of (heads w ! i) s = Some e"
  shows "(\<exists>f. claim_of (heads w ! j) s = Some f \<and> same_claim e f) \<or>
    (\<exists>k f ranges. i \<le> k \<and> k < j \<and> claim_of (heads w ! k) s = Some f \<and> same_claim e f \<and> claim_of (heads w ! Suc k) s = None \<and>
       ranges_of (heads w ! Suc k) s = Some ranges \<and> handed_over f ranges)"
  using claim_history [OF head_run_ok [OF assms(1)] assms(4,2,3)] .

theorem handoff_claims_exclusive_witness:
  "\<exists>w k f ranges. head_run demo_external demo_handoff empty_cell = Some w \<and> claim_of (heads w ! 2) ''t'' = Some demo_claim \<and>
     same_claim demo_claim f \<and> ranges_of (heads w ! Suc k) ''t'' = Some ranges \<and> handed_over f ranges"
proof -
  obtain w where w: "head_run demo_external demo_handoff empty_cell = Some w" "length (heads w) = 6"
      "claim_of (heads w ! 2) ''t'' = Some demo_claim" "claim_of (heads w ! 5) ''t'' = None"
    using demo_runs(2) by auto
  then show ?thesis using handoff_claims_exclusive [OF w(1) _ _ w(3), of 5] by auto
qed

text \<open>C2: Operations on the control head take effect at most once and are never forgotten. The revisions of
  the heads follow each other, no two heads were written by the same operation, every head keeps the
  receipts of all operations before it, and an update that was answered with success has its receipt in the
  newest head.\<close>

theorem operations_applied_once:
  assumes "head_run x evs empty_cell = Some w"
  shows "distinct (map ch_operation_id (heads w)) \<and>
    (\<forall>i j. i \<le> j \<and> j < length (heads w) \<longrightarrow>
       bt_get (ch_completed (heads w ! j)) (ch_operation_id (heads w ! i)) = Some (own_receipt (heads w ! i))) \<and>
    (\<forall>i. Suc i < length (heads w) \<longrightarrow> ch_revision (heads w ! Suc i) = saturating_add_u64 (ch_revision (heads w ! i)) 1) \<and>
    (\<forall>i expected h s. i < length (c_calls w) \<and> fst (c_calls w ! i) = UpdateHead expected h \<and>
       answer_at i w = Some (Snapshot (Inr s)) \<longrightarrow> bt_has (ch_completed (last (heads w))) (ch_operation_id h))"
proof (intro conjI allI impI)
  note inv = head_run_ok [OF assms]
  note st = heads_step [OF inv]
  have own: "bt_get (ch_completed (heads w ! i)) (ch_operation_id (heads w ! i)) = Some (own_receipt (heads w ! i))"
    if "i < length (heads w)" for i by (rule head_validateD(1) [OF head_okD(1) [OF st(2) [OF that]]])
  show kept: "bt_get (ch_completed (heads w ! j)) (ch_operation_id (heads w ! i)) = Some (own_receipt (heads w ! i))"
    if "i \<le> j \<and> j < length (heads w)" for i j
    using map_leD [OF receipts_kept [OF inv, of i j] own] that by auto
  have "ch_operation_id (heads w ! i) \<noteq> ch_operation_id (heads w ! Suc j)" if "i \<le> j" "Suc j < length (heads w)" for i j
    using kept [of i j] st(1) [OF that(2)] that by (auto simp: head_step_def bt_has_iff)
  then have "ch_operation_id (heads w ! i) \<noteq> ch_operation_id (heads w ! j)" if "i < j" "j < length (heads w)" for i j
    using that by (cases j) auto
  then show "distinct (map ch_operation_id (heads w))" by (auto simp: distinct_conv_nth) (metis linorder_neqE_nat)
  show "ch_revision (heads w ! Suc i) = saturating_add_u64 (ch_revision (heads w ! i)) 1" if "Suc i < length (heads w)" for i
    using st(1) [OF that] by (simp add: head_step_def)
  fix i expected h s
  assume a: "i < length (c_calls w) \<and> fst (c_calls w ! i) = UpdateHead expected h \<and> answer_at i w = Some (Snapshot (Inr s))"
  then have "(UpdateHead expected h, Done (Snapshot (Inr s))) \<in> set (c_calls w)"
    using nth_mem [of i "c_calls w"] by (cases "c_calls w ! i") (auto simp: answer_at_def split: io.splits)
  from cell_invD(6) [OF inv this]
  have s: "s \<in> set (c_log w)" "bt_has (ch_completed (hs_head s)) (ch_operation_id h)"
    by (auto simp: answer_ok_def receipted_def)
  then obtain k where k: "k < length (heads w)" "heads w ! k = hs_head s"
    by (metis (no_types) heads_def in_set_conv_nth image_eqI length_map length_rev nth_map set_map set_rev)
  then have "heads w \<noteq> []" "k \<le> length (heads w) - 1" by auto
  then show "bt_has (ch_completed (last (heads w))) (ch_operation_id h)"
    using map_leD [OF receipts_kept [OF inv, of k "length (heads w) - 1"]] k s(2)
    by (auto simp: last_conv_nth bt_has_iff)
qed

theorem operations_applied_once_witness:
  "\<exists>w. head_run demo_external demo_start empty_cell = Some w \<and> map ch_operation_id (heads w) = [''create'', ''x''] \<and>
     bt_get (ch_completed (heads w ! 1)) ''create'' = Some (own_receipt (heads w ! 0))"
proof -
  obtain w where w: "head_run demo_external demo_start empty_cell = Some w" "map ch_operation_id (heads w) = [''create'', ''x'']"
    using demo_runs(1) by auto
  then have "length (heads w) = 2" "ch_operation_id (heads w ! 0) = ''create''" by (auto simp: map_eq_Cons_conv)
  then show ?thesis using operations_applied_once [OF w(1)] w by (metis le0 lessI numeral_2_eq_2 One_nat_def)
qed

text \<open>C3: The stored head is always well-formed. Whatever operations ran and however they were interleaved,
  the head that is in the store passes the whole validation and is loaded: every member is in exactly one
  cohort, every range of the manifest names a cohort and its members, the ranges of each stream follow each
  other without a gap, and the claims and receipts are consistent with the head.\<close>

theorem stored_head_loads:
  assumes "head_run x evs empty_cell = Some w" "c_object w = Some (h, t)"
  shows "loaded x (get_object Works w) = Inr (Some \<lparr>hs_head = h, hs_version = t\<rparr>) \<and>
    (\<forall>i m. bt_get (cm_members (ch_metadata h)) i = Some m \<longrightarrow> dm_id m = i \<and> cohort_count (cm_cohorts (ch_metadata h)) i = 1) \<and>
    (\<forall>s ranges g. ranges_of h s = Some ranges \<and> g \<in> set ranges \<longrightarrow>
       (\<exists>c. bt_get (cm_cohorts (ch_metadata h)) (cohort_id g) = Some c \<and> member_ids g = dc_members c)) \<and>
    (\<forall>s ranges i. ranges_of h s = Some ranges \<and> Suc i < length ranges \<longrightarrow>
       (\<exists>e. end_lsn (ranges ! i) = Some e \<and> start_lsn (ranges ! Suc i) = e + 1)) \<and>
    (\<forall>s d. claim_of h s = Some d \<longrightarrow> ph_stream d = s)"
proof -
  have ok: "head_ok x h" using cell_invD(1,3) [OF head_run_ok [OF assms(1)]] assms(2) by (auto split: list.splits)
  then have l: "loaded x (get_object Works w) = Inr (Some \<lparr>hs_head = h, hs_version = t\<rparr>)"
    using assms(2) by (simp add: get_object_def loaded_Some_got)
  note v = metadata_members [OF head_validateD(2) [OF head_okD(1) [OF ok]]] metadata_ranges [OF head_validateD(2) [OF head_okD(1) [OF ok]]]
  then show ?thesis using l claim_valid(2) [OF ok] by (auto simp: ranges_of_def)
qed

theorem stored_head_loads_witness:
  "\<exists>w h t. head_run demo_external demo_start empty_cell = Some w \<and> c_object w = Some (h, t) \<and>
     loaded demo_external (get_object Works w) = Inr (Some \<lparr>hs_head = h, hs_version = t\<rparr>)"
proof -
  obtain w h t where w: "head_run demo_external demo_start empty_cell = Some w" "c_object w = Some (h, t)"
    using demo_runs(1) by auto
  then show ?thesis using stored_head_loads [OF w] by blast
qed

text \<open>C4: A retry of a committed update is not always recognised. An update that was committed and answered
  with success is answered with an operation conflict when it is sent again, with the same
  arguments, after another operation has claimed a stream: the retry takes over the claims of the
  current head, and the digest that is compared with the receipt is the one of the changed metadata.\<close>

theorem retry_after_claim_conflicts:
  "\<exists>w expected h s. head_run demo_external demo_retry empty_cell = Some w \<and>
     fst (c_calls w ! 1) = UpdateHead expected h \<and> answer_at 1 w = Some (Snapshot (Inr s)) \<and>
     bt_has (ch_completed (last (heads w))) (ch_operation_id h) \<and>
     fst (c_calls w ! 3) = UpdateHead expected h \<and> answer_at 3 w = Some (Snapshot (Inl (OperationConflict (ch_operation_id h))))"
proof -
  have "case head_run demo_external demo_retry empty_cell of None \<Rightarrow> False | Some w \<Rightarrow>
     fst (c_calls w ! 1) = UpdateHead demo_first (demo_head 2 ''x'') \<and> fst (c_calls w ! 3) = UpdateHead demo_first (demo_head 2 ''x'') \<and>
     (case answer_at 1 w of Some (Snapshot (Inr s)) \<Rightarrow> True | _ \<Rightarrow> False) \<and> bt_has (ch_completed (last (heads w))) ''x'' \<and>
     answer_at 3 w = Some (Snapshot (Inl (OperationConflict ''x'')))" by code_simp
  then obtain w where w: "head_run demo_external demo_retry empty_cell = Some w"
      "fst (c_calls w ! 1) = UpdateHead demo_first (demo_head 2 ''x'')" "fst (c_calls w ! 3) = UpdateHead demo_first (demo_head 2 ''x'')"
      "case answer_at 1 w of Some (Snapshot (Inr s)) \<Rightarrow> True | _ \<Rightarrow> False" "bt_has (ch_completed (last (heads w))) ''x''"
      "answer_at 3 w = Some (Snapshot (Inl (OperationConflict ''x'')))"
    by (cases "head_run demo_external demo_retry empty_cell") auto
  obtain s where "answer_at 1 w = Some (Snapshot (Inr s))" using w(4) by (auto split: option.splits answer.splits sum.splits)
  moreover have "ch_operation_id (demo_head 2 ''x'') = ''x''" by (simp add: demo_head_def)
  ultimately show ?thesis using w(1,2,3,5,6) by metis
qed

end
