(* ===== verification/Spec2Isabelle.thy ===== *)
theory Spec2Isabelle
  imports Ownership_Safety Memory_Replica Http_Replica Node_Safety Control_Safety
begin

text \<open>
  Verification of walleye.
\<close>

end
